theory Spec2Isabelle
  imports Complex_Main "HOL-Library.Log_Nat" "HOL-Library.Monad_Syntax"
begin

section \<open>IEEE 754 binary32 values and operations\<close>

text \<open>
  The kernels of \<^verbatim>\<open>tcm_analysis.c\<close> compute on C \<^verbatim>\<open>float\<close>. A value of that type is
  NaN, an infinity, or a finite number. The two zeros of binary32 are one value here,
  \<open>Fin 0\<close>, read as the positive zero: they compare equal in C, and the only divisions by
  zero the kernels can perform are \<open>0 / 0\<close>. Every arithmetic operation rounds its exact
  result once, to nearest with ties to even (no excess precision, no fused multiply-add).
\<close>

datatype f32 = NaN | PInf | NInf | Fin real

definition round_even :: "real \<Rightarrow> int" where
  "round_even x = (let n = \<lfloor>x\<rfloor>; d = x - of_int n
                   in if d < 1/2 then n else if 1/2 < d then n + 1
                      else if even n then n else n + 1)"

text \<open>
  The exponent of the binade of a magnitude \<open>a\<close>: the \<open>e\<close> with \<open>2^e \<le> a < 2^(e+1)\<close>, and
  \<open>-126\<close> for everything below \<open>2^-126\<close> (the subnormal numbers share the spacing of the
  smallest normal binade).
\<close>

definition binade :: "real \<Rightarrow> int" where
  "binade a = (if a < 1
               then (if a \<le> 0 then - 126 else max (- 126) (- bitlen (\<lceil>1 / a\<rceil> - 1)))
               else bitlen \<lfloor>a\<rfloor> - 1)"

definition round_mag :: "real \<Rightarrow> real" where
  "round_mag a = (let q = 2 powi (binade a - 23) in of_int (round_even (a / q)) * q)"

definition round32 :: "real \<Rightarrow> f32" where
  "round32 x = (let y = round_mag \<bar>x\<bar> in
      if 2 ^ 128 \<le> y then (if 0 < x then PInf else NInf)
      else Fin (if x < 0 then - y else y))"

fun fneg :: "f32 \<Rightarrow> f32" where
  "fneg NaN = NaN"
| "fneg PInf = NInf"
| "fneg NInf = PInf"
| "fneg (Fin a) = Fin (- a)"

fun fadd :: "f32 \<Rightarrow> f32 \<Rightarrow> f32" where
  "fadd NaN y = NaN"
| "fadd x NaN = NaN"
| "fadd PInf NInf = NaN"
| "fadd NInf PInf = NaN"
| "fadd PInf y = PInf"
| "fadd x PInf = PInf"
| "fadd NInf y = NInf"
| "fadd x NInf = NInf"
| "fadd (Fin a) (Fin b) = round32 (a + b)"

definition fsub :: "f32 \<Rightarrow> f32 \<Rightarrow> f32" where
  "fsub x y = fadd x (fneg y)"

text \<open>The sign of a value that is not NaN; zero counts as positive.\<close>

fun negative :: "f32 \<Rightarrow> bool" where
  "negative NInf = True"
| "negative (Fin a) = (a < 0)"
| "negative x = False"

definition inf_signed :: "bool \<Rightarrow> f32" where
  "inf_signed neg = (if neg then NInf else PInf)"

fun is_inf :: "f32 \<Rightarrow> bool" where
  "is_inf PInf = True"
| "is_inf NInf = True"
| "is_inf x = False"

fun fmul :: "f32 \<Rightarrow> f32 \<Rightarrow> f32" where
  "fmul NaN y = NaN"
| "fmul x NaN = NaN"
| "fmul (Fin a) (Fin b) = round32 (a * b)"
| "fmul x y = (if x = Fin 0 \<or> y = Fin 0 then NaN else inf_signed (negative x \<noteq> negative y))"

fun fdiv :: "f32 \<Rightarrow> f32 \<Rightarrow> f32" where
  "fdiv NaN y = NaN"
| "fdiv x NaN = NaN"
| "fdiv (Fin a) (Fin b) =
     (if b = 0 then (if a = 0 then NaN else inf_signed (a < 0)) else round32 (a / b))"
| "fdiv (Fin a) y = Fin 0"
| "fdiv x (Fin b) = inf_signed (negative x \<noteq> (b < 0))"
| "fdiv x y = NaN"

text \<open>The C comparison \<^verbatim>\<open>x > y\<close>: false as soon as one side is NaN.\<close>

fun fgt :: "f32 \<Rightarrow> f32 \<Rightarrow> bool" where
  "fgt NaN y = False"
| "fgt x NaN = False"
| "fgt PInf y = (y \<noteq> PInf)"
| "fgt x PInf = False"
| "fgt x NInf = (x \<noteq> NInf)"
| "fgt NInf y = False"
| "fgt (Fin a) (Fin b) = (b < a)"

text \<open>
  The functions of \<^verbatim>\<open>math.h\<close> are not code of this repository. They are taken as their
  correctly rounded versions, with the special values of Annex F of the C standard.
\<close>

fun expf :: "f32 \<Rightarrow> f32" where
  "expf NaN = NaN"
| "expf PInf = PInf"
| "expf NInf = Fin 0"
| "expf (Fin a) = round32 (exp a)"

fun sqrtf :: "f32 \<Rightarrow> f32" where
  "sqrtf NaN = NaN"
| "sqrtf PInf = PInf"
| "sqrtf NInf = NaN"
| "sqrtf (Fin a) = (if a < 0 then NaN else round32 (sqrt a))"

fun tanhf :: "f32 \<Rightarrow> f32" where
  "tanhf NaN = NaN"
| "tanhf PInf = Fin 1"
| "tanhf NInf = Fin (- 1)"
| "tanhf (Fin a) = round32 (tanh a)"

text \<open>The conversion of an \<^verbatim>\<open>int\<close> to \<^verbatim>\<open>float\<close>, and the two inexact literals.\<close>

definition int_to_float :: "int \<Rightarrow> f32" where
  "int_to_float n = round32 (of_int n)"

definition lit_1e_8f :: f32 where
  "lit_1e_8f = round32 (1 / 100000000)"

definition lit_0_1f :: f32 where
  "lit_0_1f = round32 (1 / 10)"

section \<open>Memory, arrays and loops\<close>

text \<open>
  The heap is the list of the allocated float buffers; a data pointer is the position of
  its buffer. An array object carries its shape and its data pointer: the kernels read
  nothing else of it, and take the buffer as contiguous \<^verbatim>\<open>float\<close>s in row-major order.
  \<open>None\<close> stands for every run that C leaves undefined: a read or write outside a buffer,
  a dimension the array does not have, a subscript beyond \<^verbatim>\<open>int\<close>, the use of a null
  pointer.
\<close>

type_synonym heap = "f32 list list"

record PyArrayObject =
  dims :: "nat list"
  data :: nat

text \<open>
  A dimension is an \<^verbatim>\<open>npy_intp\<close>, not negative and 64 bits wide. The kernels keep it in an
  \<^verbatim>\<open>int\<close>: the conversion, which C leaves to the implementation, keeps the low 32 bits
  and reads them as a signed number, so a dimension below \<open>2^31\<close> is kept and a larger one
  is not.
\<close>

definition c_int :: "nat \<Rightarrow> int" where
  "c_int n = (int n + 2 ^ 31) mod 2 ^ 32 - 2 ^ 31"

definition PyArray_DIM :: "PyArrayObject \<Rightarrow> nat \<Rightarrow> nat option" where
  "PyArray_DIM a k = (if k < length (dims a) then Some (dims a ! k) else None)"

definition PyArray_DATA :: "PyArrayObject \<Rightarrow> nat" where
  "PyArray_DATA a = data a"

text \<open>
  A subscript \<^verbatim>\<open>i * n + j\<close> is computed in \<^verbatim>\<open>int\<close>, where overflow is undefined; a negative
  one would point before the buffer.
\<close>

definition subscript :: "int \<Rightarrow> nat option" where
  "subscript k = (if 0 \<le> k \<and> k < 2 ^ 31 then Some (nat k) else None)"

text \<open>
  A new array comes with a buffer of its own, at a position no array had before. The
  buffer is not initialised: cell \<open>k\<close> holds what the memory held before, \<open>old k\<close>, of
  which nothing is known. For a negative dimension NumPy returns no array but a null
  pointer, and the kernels read the data pointer through it at once. Memory is taken
  not to run out.
\<close>

definition PyArray_SimpleNew ::
  "(nat \<Rightarrow> f32) \<Rightarrow> heap \<Rightarrow> int list \<Rightarrow> (PyArrayObject \<times> heap) option" where
  "PyArray_SimpleNew old h shape =
     (if list_all (\<lambda>n. 0 \<le> n) shape
      then Some (\<lparr>dims = map nat shape, data = length h\<rparr>,
                 h @ [map old [0..<nat (prod_list shape)]])
      else None)"

definition load :: "heap \<Rightarrow> nat \<Rightarrow> nat \<Rightarrow> f32 option" where
  "load h p k = (if p < length h \<and> k < length (h ! p) then Some (h ! p ! k) else None)"

definition store :: "heap \<Rightarrow> nat \<Rightarrow> nat \<Rightarrow> f32 \<Rightarrow> heap option" where
  "store h p k v =
     (if p < length h \<and> k < length (h ! p) then Some (h[p := (h ! p)[k := v]]) else None)"

text \<open>
  \<^verbatim>\<open>for (int i = 0; i < n; i++) body\<close>, on a loop state. The loops under
  \<^verbatim>\<open>#pragma omp parallel for\<close> run here in index order: their iterations read the inputs
  only and write cells of the result that no other iteration touches.
\<close>

primrec for_each :: "nat list \<Rightarrow> (nat \<Rightarrow> 's \<Rightarrow> 's option) \<Rightarrow> 's \<Rightarrow> 's option" where
  "for_each [] body s = Some s"
| "for_each (i # is) body s = (case body i s of None \<Rightarrow> None | Some s' \<Rightarrow> for_each is body s')"

definition for_loop :: "int \<Rightarrow> (nat \<Rightarrow> 's \<Rightarrow> 's option) \<Rightarrow> 's \<Rightarrow> 's option" where
  "for_loop n body s = for_each [0..<nat n] body s"

section \<open>The five kernels\<close>

text \<open>
  Argument parsing and the \<^verbatim>\<open>PyArray_Check\<close> type test belong to the binding layer; the
  model starts where the arguments are arrays.
\<close>

definition tcm_syndrome_analysis ::
  "(nat \<Rightarrow> f32) \<Rightarrow> heap \<Rightarrow> PyArrayObject \<Rightarrow> PyArrayObject \<Rightarrow> PyArrayObject \<Rightarrow> (PyArrayObject \<times> heap) option" where
  "tcm_syndrome_analysis old h symptoms weights patterns = do {
     n_symptoms \<leftarrow> map_option c_int (PyArray_DIM symptoms 0);
     n_patterns \<leftarrow> map_option c_int (PyArray_DIM patterns 0);
     (result, h1) \<leftarrow> PyArray_SimpleNew old h [n_patterns];
     let symptoms_data = PyArray_DATA symptoms;
     let weights_data = PyArray_DATA weights;
     let patterns_data = PyArray_DATA patterns;
     let result_data = PyArray_DATA result;
     h2 \<leftarrow> for_loop n_patterns (\<lambda>i h. do {
       score \<leftarrow> for_loop n_symptoms (\<lambda>j score. do {
         sj \<leftarrow> load h symptoms_data j;
         wj \<leftarrow> load h weights_data j;
         let weighted_symptom = fmul sj wj;
         k \<leftarrow> subscript (int i * n_symptoms + int j);
         pattern_weight \<leftarrow> load h patterns_data k;
         Some (fadd score (fmul weighted_symptom pattern_weight))
       }) (Fin 0);
       store h result_data i (fdiv (Fin 1) (fadd (Fin 1) (expf (fneg score))))
     }) h1;
     Some (result, h2)
   }"

definition health_data_normalize ::
  "(nat \<Rightarrow> f32) \<Rightarrow> heap \<Rightarrow> PyArrayObject \<Rightarrow> (PyArrayObject \<times> heap) option" where
  "health_data_normalize old h data_arr = do {
     n_samples \<leftarrow> map_option c_int (PyArray_DIM data_arr 0);
     n_features \<leftarrow> map_option c_int (PyArray_DIM data_arr 1);
     (result, h1) \<leftarrow> PyArray_SimpleNew old h [n_samples, n_features];
     let data_ptr = PyArray_DATA data_arr;
     let result_ptr = PyArray_DATA result;
     h2 \<leftarrow> for_loop n_features (\<lambda>j h. do {
       mean \<leftarrow> for_loop n_samples (\<lambda>i mean. do {
         k \<leftarrow> subscript (int i * n_features + int j);
         x \<leftarrow> load h data_ptr k;
         Some (fadd mean x)
       }) (Fin 0);
       let mean = fdiv mean (int_to_float n_samples);
       variance \<leftarrow> for_loop n_samples (\<lambda>i variance. do {
         k \<leftarrow> subscript (int i * n_features + int j);
         x \<leftarrow> load h data_ptr k;
         let diff = fsub x mean;
         Some (fadd variance (fmul diff diff))
       }) (Fin 0);
       let variance = fdiv variance (int_to_float n_samples);
       let std = sqrtf (fadd variance lit_1e_8f);
       for_loop n_samples (\<lambda>i h. do {
         k \<leftarrow> subscript (int i * n_features + int j);
         x \<leftarrow> load h data_ptr k;
         store h result_ptr k (fdiv (fsub x mean) std)
       }) h
     }) h1;
     Some (result, h2)
   }"

definition nutrition_optimization ::
  "(nat \<Rightarrow> f32) \<Rightarrow> heap \<Rightarrow> PyArrayObject \<Rightarrow> PyArrayObject \<Rightarrow> (PyArrayObject \<times> heap) option" where
  "nutrition_optimization old h user_profile food_database = do {
     n_foods \<leftarrow> map_option c_int (PyArray_DIM food_database 0);
     n_features \<leftarrow> map_option c_int (PyArray_DIM food_database 1);
     (result, h1) \<leftarrow> PyArray_SimpleNew old h [n_foods];
     let profile_data = PyArray_DATA user_profile;
     let foods_data = PyArray_DATA food_database;
     let result_data = PyArray_DATA result;
     profile_norm \<leftarrow> for_loop n_features (\<lambda>i profile_norm. do {
       p \<leftarrow> load h1 profile_data i;
       Some (fadd profile_norm (fmul p p))
     }) (Fin 0);
     let profile_norm = sqrtf profile_norm;
     h2 \<leftarrow> for_loop n_foods (\<lambda>i h. do {
       (dot_product, food_norm) \<leftarrow> for_loop n_features (\<lambda>j (dot_product, food_norm). do {
         k \<leftarrow> subscript (int i * n_features + int j);
         food_feature \<leftarrow> load h foods_data k;
         p \<leftarrow> load h profile_data j;
         Some (fadd dot_product (fmul p food_feature),
               fadd food_norm (fmul food_feature food_feature))
       }) (Fin 0, Fin 0);
       let food_norm = sqrtf food_norm;
       if fgt profile_norm (Fin 0) \<and> fgt food_norm (Fin 0)
       then store h result_data i (fdiv dot_product (fmul profile_norm food_norm))
       else store h result_data i (Fin 0)
     }) h1;
     Some (result, h2)
   }"

definition biometric_processing ::
  "(nat \<Rightarrow> f32) \<Rightarrow> heap \<Rightarrow> PyArrayObject \<Rightarrow> f32 \<Rightarrow> (PyArrayObject \<times> heap) option" where
  "biometric_processing old h biomarkers threshold = do {
     n_samples \<leftarrow> map_option c_int (PyArray_DIM biomarkers 0);
     n_markers \<leftarrow> map_option c_int (PyArray_DIM biomarkers 1);
     (result, h1) \<leftarrow> PyArray_SimpleNew old h [n_samples, n_markers];
     let input_data = PyArray_DATA biomarkers;
     let result_data = PyArray_DATA result;
     h2 \<leftarrow> for_loop n_samples (\<lambda>i h.
       for_loop n_markers (\<lambda>j h. do {
         k \<leftarrow> subscript (int i * n_markers + int j);
         val \<leftarrow> load h input_data k;
         if fgt val threshold
         then store h result_data k (tanhf (fsub val threshold))
         else store h result_data k (fmul val lit_0_1f)
       }) h) h1;
     Some (result, h2)
   }"

definition pattern_matching ::
  "(nat \<Rightarrow> f32) \<Rightarrow> heap \<Rightarrow> PyArrayObject \<Rightarrow> PyArrayObject \<Rightarrow> (PyArrayObject \<times> heap) option" where
  "pattern_matching old h query database = do {
     n_patterns \<leftarrow> map_option c_int (PyArray_DIM database 0);
     pattern_length \<leftarrow> map_option c_int (PyArray_DIM database 1);
     (result, h1) \<leftarrow> PyArray_SimpleNew old h [n_patterns];
     let query_data = PyArray_DATA query;
     let db_data = PyArray_DATA database;
     let result_data = PyArray_DATA result;
     h2 \<leftarrow> for_loop n_patterns (\<lambda>i h. do {
       similarity \<leftarrow> for_loop pattern_length (\<lambda>j similarity. do {
         q \<leftarrow> load h query_data j;
         k \<leftarrow> subscript (int i * pattern_length + int j);
         d \<leftarrow> load h db_data k;
         let diff = fsub q d;
         Some (fadd similarity (expf (fmul (fneg diff) diff)))
       }) (Fin 0);
       store h result_data i (fdiv similarity (int_to_float pattern_length))
     }) h1;
     Some (result, h2)
   }"

section \<open>The formulas of the specification\<close>

text \<open>
  The specification states each kernel by a formula on vectors and row-major matrices.
  The definitions of this section follow its words, with the operations of binary32
  (all numeric values are 32-bit floats) and sums taken in index order.
\<close>

text \<open>\<open>sigmoid(x) = 1 / (1 + e^-x)\<close>\<close>

definition sigmoid :: "f32 \<Rightarrow> f32" where
  "sigmoid x = fdiv (Fin 1) (fadd (Fin 1) (expf (fneg x)))"

definition fsum :: "f32 list \<Rightarrow> f32" where
  "fsum xs = foldl fadd (Fin 0) xs"

text \<open>\<open>\<Sum>\<^sub>j s[j] * w[j] * P[i][j]\<close>, for row \<open>i\<close> of the matrix \<open>P\<close> of width \<open>N\<close>\<close>

definition weighted_sum :: "f32 list \<Rightarrow> f32 list \<Rightarrow> f32 list \<Rightarrow> nat \<Rightarrow> nat \<Rightarrow> f32" where
  "weighted_sum s w P N i = fsum (map (\<lambda>j. fmul (fmul (s ! j) (w ! j)) (P ! (i * N + j))) [0..<N])"

text \<open>\<open>exp(-(q - d)^2)\<close>\<close>

definition gauss_term :: "f32 \<Rightarrow> f32 \<Rightarrow> f32" where
  "gauss_term q d = expf (fneg (fmul (fsub q d) (fsub q d)))"

text \<open>\<open>(1 / L) * \<Sum>\<^sub>j exp(-(q[j] - D[i][j])^2)\<close>, for row \<open>i\<close> of the matrix \<open>D\<close> of width \<open>L\<close>\<close>

definition gaussian_row :: "f32 list \<Rightarrow> f32 list \<Rightarrow> nat \<Rightarrow> nat \<Rightarrow> f32" where
  "gaussian_row q D L i =
     fdiv (fsum (map (\<lambda>j. gauss_term (q ! j) (D ! (i * L + j))) [0..<L])) (int_to_float (int L))"

text \<open>\<open>tanh(v - t)\<close> if \<open>v > t\<close>, else \<open>v * 0.1\<close>\<close>

definition threshold_elem :: "f32 \<Rightarrow> f32 \<Rightarrow> f32" where
  "threshold_elem t v = (if fgt v t then tanhf (fsub v t) else fmul v lit_0_1f)"

text \<open>
  Column \<open>j\<close> of the \<open>R \<times> C\<close> matrix \<open>D\<close>: its mean, its population variance (divisor
  \<open>R\<close>), and the standardised entry \<open>(D[i][j] - mean\<^sub>j) / sqrt(variance\<^sub>j + 1e-8)\<close>.
\<close>

definition col_mean :: "f32 list \<Rightarrow> nat \<Rightarrow> nat \<Rightarrow> nat \<Rightarrow> f32" where
  "col_mean D R C j = fdiv (fsum (map (\<lambda>i. D ! (i * C + j)) [0..<R])) (int_to_float (int R))"

definition col_variance :: "f32 list \<Rightarrow> nat \<Rightarrow> nat \<Rightarrow> nat \<Rightarrow> f32" where
  "col_variance D R C j =
     fdiv (fsum (map (\<lambda>i. fmul (fsub (D ! (i * C + j)) (col_mean D R C j))
                              (fsub (D ! (i * C + j)) (col_mean D R C j))) [0..<R]))
          (int_to_float (int R))"

definition standardized :: "f32 list \<Rightarrow> nat \<Rightarrow> nat \<Rightarrow> nat \<Rightarrow> nat \<Rightarrow> f32" where
  "standardized D R C i j =
     fdiv (fsub (D ! (i * C + j)) (col_mean D R C j))
          (sqrtf (fadd (col_variance D R C j) lit_1e_8f))"

text \<open>
  Row \<open>i\<close> of the matrix \<open>F\<close> of width \<open>K\<close>: its dot product with \<open>p\<close>, its Euclidean
  norm, and the cosine similarity with its two-sided guard. A vector is a matrix of one
  row.
\<close>

definition row_dot :: "f32 list \<Rightarrow> f32 list \<Rightarrow> nat \<Rightarrow> nat \<Rightarrow> f32" where
  "row_dot p F K i = fsum (map (\<lambda>j. fmul (p ! j) (F ! (i * K + j))) [0..<K])"

definition row_norm :: "f32 list \<Rightarrow> nat \<Rightarrow> nat \<Rightarrow> f32" where
  "row_norm F K i = sqrtf (fsum (map (\<lambda>j. fmul (F ! (i * K + j)) (F ! (i * K + j))) [0..<K]))"

definition cosine :: "f32 list \<Rightarrow> f32 list \<Rightarrow> nat \<Rightarrow> nat \<Rightarrow> f32" where
  "cosine p F K i =
     (if fgt (row_norm p K 0) (Fin 0) \<and> fgt (row_norm F K i) (Fin 0)
      then fdiv (row_dot p F K i) (fmul (row_norm p K 0) (row_norm F K i))
      else Fin 0)"

section \<open>Auxiliary notions\<close>

text \<open>The numbers binary32 holds: \<open>round32\<close> leaves them as they are.\<close>

definition representable :: "real \<Rightarrow> bool" where
  "representable x = (round32 x = Fin x)"

text \<open>The writes of a loop nest, as the list of cells and values in the order written.\<close>

definition apply_upds :: "'a list \<Rightarrow> (nat \<times> 'a) list \<Rightarrow> 'a list" where
  "apply_upds buf us = foldl (\<lambda>b (k, v). b[k := v]) buf us"

text \<open>
  The frame of a call: every buffer that existed before the call is the same after it, and
  the result lives in one new buffer of the declared shape.
\<close>

text \<open>Dimension \<open>k\<close> of an array as a kernel holds it, in an \<^verbatim>\<open>int\<close>.\<close>

definition c_dim :: "PyArrayObject \<Rightarrow> nat \<Rightarrow> nat" where
  "c_dim a k = nat (c_int (dims a ! k))"

definition inputs_unchanged :: "heap \<Rightarrow> heap \<Rightarrow> bool" where
  "inputs_unchanged h h' = (take (length h) h' = h)"

definition fresh_output :: "heap \<Rightarrow> PyArrayObject \<Rightarrow> heap \<Rightarrow> nat list \<Rightarrow> bool" where
  "fresh_output h res h' shape =
     (data res = length h \<and> length h' = Suc (length h) \<and> dims res = shape
      \<and> length (h' ! data res) = prod_list shape)"

definition framed :: "heap \<Rightarrow> nat \<Rightarrow> heap \<Rightarrow> bool" where
  "framed h L s = (\<exists>buf. s = h @ [buf] \<and> length buf = L)"

text \<open>A finite value within the closed, or the open, interval from \<open>lo\<close> to \<open>hi\<close>.\<close>

definition in_range :: "real \<Rightarrow> real \<Rightarrow> f32 \<Rightarrow> bool" where
  "in_range lo hi x = (case x of Fin v \<Rightarrow> lo \<le> v \<and> v \<le> hi | _ \<Rightarrow> False)"

definition in_open_range :: "real \<Rightarrow> real \<Rightarrow> f32 \<Rightarrow> bool" where
  "in_open_range lo hi x = (case x of Fin v \<Rightarrow> lo < v \<and> v < hi | _ \<Rightarrow> False)"

definition in_left_open_range :: "real \<Rightarrow> real \<Rightarrow> f32 \<Rightarrow> bool" where
  "in_left_open_range lo hi x = (case x of Fin v \<Rightarrow> lo < v \<and> v \<le> hi | _ \<Rightarrow> False)"

fun is_finite :: "f32 \<Rightarrow> bool" where
  "is_finite (Fin a) = True"
| "is_finite x = False"

text \<open>A value that is infinite upwards, or finite and at least \<open>lo\<close>.\<close>

definition at_least :: "real \<Rightarrow> f32 \<Rightarrow> bool" where
  "at_least lo x = (case x of Fin v \<Rightarrow> lo \<le> v | PInf \<Rightarrow> True | _ \<Rightarrow> False)"

text \<open>The number a finite value stands for, and the mean and population variance of numbers.\<close>

fun valof :: "f32 \<Rightarrow> real" where
  "valof (Fin a) = a"
| "valof x = 0"

definition pop_mean :: "real list \<Rightarrow> real" where
  "pop_mean xs = sum_list xs / real (length xs)"

definition pop_variance :: "real list \<Rightarrow> real" where
  "pop_variance xs = sum_list (map (\<lambda>x. (x - pop_mean xs)\<^sup>2) xs) / real (length xs)"

text \<open>
  Relative error. One rounding of a number of the normal range multiplies it by a factor
  between \<open>wfac\<close> and \<open>1 / wfac\<close>; \<open>near n x v\<close> says that \<open>v\<close> is \<open>x\<close> up to \<open>n\<close> such factors.
\<close>

definition wfac :: real where
  "wfac = 1 - 1 / 2 ^ 24"

definition near :: "nat \<Rightarrow> real \<Rightarrow> real \<Rightarrow> bool" where
  "near n x v = (x * wfac ^ n \<le> v \<and> v * wfac ^ n \<le> x)"

text \<open>
  Row \<open>i\<close> of the matrix \<open>F\<close> of width \<open>K\<close> is \<open>c\<close> times the vector \<open>p\<close>, for a positive \<open>c\<close>:
  the entries of \<open>p\<close> are finite and not all zero, and the nonzero entries of \<open>p\<close> and of the
  row have magnitudes from \<open>2^-50\<close> to \<open>2^50\<close>, so that no product of two of them leaves the
  normal range of binary32.
\<close>

definition scaled_row :: "f32 list \<Rightarrow> f32 list \<Rightarrow> nat \<Rightarrow> nat \<Rightarrow> real \<Rightarrow> bool" where
  "scaled_row p F K i c =
     (0 < c \<and> (\<exists>j<K. valof (p ! j) \<noteq> 0) \<and>
      (\<forall>j<K. is_finite (p ! j) \<and> F ! (i * K + j) = Fin (c * valof (p ! j)) \<and>
             (valof (p ! j) = 0 \<or>
              (1 / 2 ^ 50 \<le> \<bar>valof (p ! j)\<bar> \<and> \<bar>valof (p ! j)\<bar> \<le> 2 ^ 50 \<and>
               1 / 2 ^ 50 \<le> c * \<bar>valof (p ! j)\<bar> \<and> c * \<bar>valof (p ! j)\<bar> \<le> 2 ^ 50))))"

text \<open>
  Column \<open>j\<close> of a matrix of \<open>R\<close> rows and \<open>C\<close> columns, as numbers, and the matrix of the
  standardised entries.
\<close>

definition column :: "f32 list \<Rightarrow> nat \<Rightarrow> nat \<Rightarrow> nat \<Rightarrow> real list" where
  "column D R C j = map (\<lambda>i. valof (D ! (i * C + j))) [0..<R]"

definition standardized_matrix :: "f32 list \<Rightarrow> nat \<Rightarrow> nat \<Rightarrow> f32 list" where
  "standardized_matrix D R C = map (\<lambda>k. standardized D R C (k div C) (k mod C)) [0..<R * C]"

text \<open>
  A column that standardisation treats well: its entries are finite and at most \<open>kappa\<close>
  standard deviations in magnitude, its population variance is well above the constant
  1e-8 and far from overflow, and \<open>R\<close> and \<open>kappa\<close> are small against the precision of
  binary32. The tolerance that the mean 0 and the variance 1 of the output then meet.
\<close>

definition spread_column :: "f32 list \<Rightarrow> nat \<Rightarrow> nat \<Rightarrow> nat \<Rightarrow> real \<Rightarrow> bool" where
  "spread_column D R C j kappa =
     (0 < R \<and> 1 \<le> kappa \<and> (4 * real R + 7) * kappa \<le> 2 ^ 14
      \<and> (\<forall>i<R. is_finite (D ! (i * C + j)))
      \<and> 1 / 2 ^ 16 \<le> pop_variance (column D R C j)
      \<and> pop_variance (column D R C j) \<le> 2 ^ 100
      \<and> (\<forall>i<R. (valof (D ! (i * C + j)))\<^sup>2 \<le> kappa\<^sup>2 * pop_variance (column D R C j)))"

definition tolerance :: "nat \<Rightarrow> real \<Rightarrow> real \<Rightarrow> real" where
  "tolerance R kappa V = (4 * real R + 7) * kappa / 2 ^ 18 + 1 / (2 ^ 22 * V)"

section \<open>Properties of rounding\<close>

subsection \<open>Rounding to an integer\<close>

lemma round_even_of_int [simp]: "round_even (of_int n) = n"
  by (simp add: round_even_def)

lemma round_even_lower: "x - 1/2 \<le> of_int (round_even x)"
  unfolding round_even_def Let_def by (auto; linarith)

lemma round_even_upper: "of_int (round_even x) \<le> x + 1/2"
  unfolding round_even_def Let_def by (auto; linarith)

lemma round_even_mono:
  assumes "x \<le> y"
  shows "round_even x \<le> round_even y"
proof (rule ccontr)
  assume "\<not> round_even x \<le> round_even y"
  then have gt: "round_even y + 1 \<le> round_even x" by simp
  have "of_int (round_even x) \<le> x + 1/2" by (rule round_even_upper)
  moreover have "y - 1/2 \<le> of_int (round_even y)" by (rule round_even_lower)
  moreover have "real_of_int (round_even y) + 1 \<le> of_int (round_even x)"
    using gt by linarith
  ultimately have xy: "x = y" and ry: "of_int (round_even y) = y - 1/2"
    and rx: "of_int (round_even x) = x + 1/2"
    using assms by linarith+
  from xy rx ry show False by simp
qed

lemma round_even_ge_int: "of_int n \<le> x \<Longrightarrow> n \<le> round_even x"
  using round_even_mono[of "of_int n" x] by simp

lemma round_even_le_int: "x \<le> of_int n \<Longrightarrow> round_even x \<le> n"
  using round_even_mono[of x "of_int n"] by simp

subsection \<open>Binades\<close>

lemma binade_ge: "- 126 \<le> binade a"
proof -
  have "0 \<le> bitlen \<lfloor>a\<rfloor>" by (rule bitlen_nonneg)
  then show ?thesis by (simp add: binade_def)
qed

lemma binade_small:
  assumes "a < 2 powi (- 126)"
  shows "binade a = - 126"
proof (cases "a \<le> 0")
  case True
  then show ?thesis by (simp add: binade_def)
next
  case False
  then have pos: "0 < a" by simp
  have lt1: "a < 1" using assms by (simp add: power_int_minus)
  have "2 ^ 126 < 1 / a"
    using assms pos by (simp add: power_int_minus field_simps)
  then have "(2::int) ^ 126 < \<lceil>1 / a\<rceil>" by (simp add: less_ceiling_iff)
  then have "(2::int) ^ 126 \<le> \<lceil>1 / a\<rceil> - 1" by simp
  then have "127 \<le> bitlen (\<lceil>1 / a\<rceil> - 1)"
    by (simp add: bitlen_ge_iff_power)
  then show ?thesis using pos lt1 by (simp add: binade_def)
qed

lemma binade_bounds:
  assumes "2 powi (- 126) \<le> a"
  shows "2 powi (binade a) \<le> a \<and> a < 2 powi (binade a + 1)"
proof (cases "a < 1")
  case False
  then have a1: "1 \<le> a" by simp
  then have n: "0 < \<lfloor>a\<rfloor>" by simp
  let ?b = "bitlen \<lfloor>a\<rfloor>"
  have b1: "1 \<le> ?b" using n by (simp add: bitlen_ge_iff_power)
  have e: "binade a = ?b - 1" using False by (simp add: binade_def)
  from bitlen_bounds[OF n] have lo: "2 ^ nat (?b - 1) \<le> \<lfloor>a\<rfloor>" and hi: "\<lfloor>a\<rfloor> < 2 ^ nat ?b"
    by simp_all
  have "real_of_int (2 ^ nat (?b - 1)) \<le> a" using lo by (simp only: le_floor_iff)
  then have lo': "2 powi (?b - 1) \<le> a" using b1 by (simp add: power_int_def)
  have "a < real_of_int (2 ^ nat ?b)" using hi by (simp only: floor_less_iff)
  then have hi': "a < 2 powi ?b" using b1 by (simp add: power_int_def)
  show ?thesis using lo' hi' e by simp
next
  case True
  have "(0::real) < 2 powi (- 126)" by simp
  then have pos: "0 < a" using assms by linarith
  let ?y = "1 / a"
  let ?m = "\<lceil>?y\<rceil> - 1"
  let ?b = "bitlen ?m"
  have y1: "1 < ?y" using True pos by simp
  then have "1 < \<lceil>?y\<rceil>" by (simp add: less_ceiling_iff)
  then have m: "0 < ?m" by simp
  have "?y \<le> 2 ^ 126" using assms pos by (simp add: power_int_minus field_simps)
  then have "\<lceil>?y\<rceil> \<le> 2 ^ 126" by (simp add: ceiling_le_iff)
  then have "?m < 2 ^ nat 126" by simp
  then have b126: "?b \<le> 126" by (simp only: bitlen_le_iff_power) simp
  have b1: "1 \<le> ?b" using m by (simp add: bitlen_ge_iff_power)
  have e: "binade a = - ?b" using True pos b126 by (simp add: binade_def)
  from bitlen_bounds[OF m] have lo: "2 ^ nat (?b - 1) \<le> ?m" and hi: "?m < 2 ^ nat ?b"
    by simp_all
  have "\<lceil>?y\<rceil> \<le> 2 ^ nat ?b" using hi by simp
  then have "?y \<le> real_of_int (2 ^ nat ?b)" by (simp only: ceiling_le_iff)
  then have "1 / a \<le> 2 ^ nat ?b" by simp
  then have "1 \<le> a * 2 ^ nat ?b" using pos by (simp add: field_simps)
  then have "1 / 2 ^ nat ?b \<le> a" by (simp add: field_simps)
  then have lo': "2 powi (- ?b) \<le> a" using b1 by (simp add: power_int_def field_simps)
  have "2 ^ nat (?b - 1) < \<lceil>?y\<rceil>" using lo by simp
  then have "real_of_int (2 ^ nat (?b - 1)) < ?y" by (simp only: less_ceiling_iff)
  then have "2 ^ nat (?b - 1) < 1 / a" by simp
  then have "a * 2 ^ nat (?b - 1) < 1" using pos by (simp add: field_simps)
  then have "a < 1 / 2 ^ nat (?b - 1)" by (simp add: field_simps)
  moreover have "2 powi (- ?b + 1) = (1::real) / 2 ^ nat (?b - 1)"
  proof -
    have "- ?b + 1 = - (?b - 1)" by simp
    then have "(2::real) powi (- ?b + 1) = 2 powi (- (?b - 1))" by simp
    also have "\<dots> = 1 / 2 powi (?b - 1)" by (simp only: power_int_minus_divide)
    also have "\<dots> = 1 / 2 ^ nat (?b - 1)" using b1 by (simp add: power_int_def)
    finally show ?thesis .
  qed
  ultimately have hi': "a < 2 powi (- ?b + 1)" by simp
  show ?thesis using lo' hi' e by simp
qed

lemma powi2_less_cancel: "(2::real) powi m < 2 powi n \<Longrightarrow> m < n"
  by (rule ccontr) (simp add: not_less power_int_increasing leD)

lemma binade_eq:
  assumes "- 126 \<le> e" and "2 powi e \<le> a" and "a < 2 powi (e + 1)"
  shows "binade a = e"
proof -
  have "(2::real) powi (- 126) \<le> 2 powi e"
    using assms(1) by (intro power_int_increasing) simp_all
  then have "2 powi (- 126) \<le> a" using assms(2) by simp
  then have b: "2 powi (binade a) \<le> a" "a < 2 powi (binade a + 1)"
    using binade_bounds by simp_all
  have "(2::real) powi (binade a) < 2 powi (e + 1)" using b(1) assms(3) by simp
  then have "binade a < e + 1" by (rule powi2_less_cancel)
  moreover have "(2::real) powi e < 2 powi (binade a + 1)" using b(2) assms(2) by simp
  then have "e < binade a + 1" by (rule powi2_less_cancel)
  ultimately show ?thesis by simp
qed

lemma binade_upper: "0 \<le> a \<Longrightarrow> a < 2 powi (binade a + 1)"
proof (cases "a < 2 powi (- 126)")
  case True
  moreover have "(2::real) powi (- 126) \<le> 2 powi (- 125)"
    by (intro power_int_increasing) simp_all
  ultimately show ?thesis by (simp add: binade_small)
next
  case False
  then show ?thesis using binade_bounds by simp
qed

lemma binade_mono:
  assumes "a \<le> b"
  shows "binade a \<le> binade b"
proof (cases "a < 2 powi (- 126)")
  case True
  then show ?thesis by (simp add: binade_small binade_ge)
next
  case False
  then have a: "2 powi (- 126) \<le> a" by simp
  then have b: "2 powi (- 126) \<le> b" using assms by simp
  have "2 powi (binade a) \<le> a" using binade_bounds[OF a] by simp
  also have "a \<le> b" by fact
  also have "b < 2 powi (binade b + 1)" using binade_bounds[OF b] by simp
  finally have "binade a < binade b + 1" by (rule powi2_less_cancel)
  then show ?thesis by simp
qed

subsection \<open>Rounding a magnitude\<close>

lemma round_even_0 [simp]: "round_even 0 = 0"
  using round_even_of_int[of 0] by simp

lemma round_mag_0 [simp]: "round_mag 0 = 0"
  by (simp add: round_mag_def)

lemma round_mag_nonneg: "0 \<le> a \<Longrightarrow> 0 \<le> round_mag a"
proof -
  assume "0 \<le> a"
  then have "0 \<le> a / 2 powi (binade a - 23)" by simp
  then have "0 \<le> round_even (a / 2 powi (binade a - 23))"
    using round_even_ge_int[of 0] by simp
  then show ?thesis by (simp add: round_mag_def Let_def)
qed

lemma powi_split: "(2::real) powi (e + 1) = 2 ^ 24 * 2 powi (e - 23)"
proof -
  have "e + 1 = 24 + (e - 23)" by simp
  then have "(2::real) powi (e + 1) = 2 powi (24 + (e - 23))" by (rule arg_cong)
  also have "\<dots> = 2 powi 24 * 2 powi (e - 23)" by (rule power_int_add) simp
  finally show ?thesis by simp
qed

lemma powi_split': "(2::real) powi e = 2 ^ 23 * 2 powi (e - 23)"
proof -
  have "e = 23 + (e - 23)" by simp
  then have "(2::real) powi e = 2 powi (23 + (e - 23))" by (rule arg_cong)
  also have "\<dots> = 2 powi 23 * 2 powi (e - 23)" by (rule power_int_add) simp
  finally show ?thesis by simp
qed

lemma round_mag_le_top:
  assumes "0 \<le> a"
  shows "round_mag a \<le> 2 powi (binade a + 1)"
proof -
  let ?q = "(2::real) powi (binade a - 23)"
  have q: "0 < ?q" by simp
  have "a < 2 ^ 24 * ?q" using binade_upper[OF assms] by (simp only: powi_split)
  then have "a / ?q \<le> of_int (2 ^ 24)" using q by (simp add: field_simps)
  then have "round_even (a / ?q) \<le> 2 ^ 24" by (rule round_even_le_int)
  then have "real_of_int (round_even (a / ?q)) \<le> of_int (2 ^ 24)" by (simp only: of_int_le_iff)
  then have "real_of_int (round_even (a / ?q)) \<le> 2 ^ 24" by simp
  then have "of_int (round_even (a / ?q)) * ?q \<le> 2 ^ 24 * ?q"
    using q by (intro mult_right_mono) simp_all
  then show ?thesis by (simp only: powi_split round_mag_def Let_def)
qed

lemma round_mag_ge_bottom:
  assumes "2 powi (- 126) \<le> a"
  shows "2 powi (binade a) \<le> round_mag a"
proof -
  let ?q = "(2::real) powi (binade a - 23)"
  have q: "0 < ?q" by simp
  have "2 ^ 23 * ?q \<le> a" using binade_bounds[OF assms] by (simp only: powi_split'[symmetric])
  then have "of_int (2 ^ 23) \<le> a / ?q" using q by (simp add: field_simps)
  then have "2 ^ 23 \<le> round_even (a / ?q)" by (rule round_even_ge_int)
  then have "of_int (2 ^ 23) \<le> real_of_int (round_even (a / ?q))" by (simp only: of_int_le_iff)
  then have "2 ^ 23 \<le> real_of_int (round_even (a / ?q))" by simp
  then have "2 ^ 23 * ?q \<le> of_int (round_even (a / ?q)) * ?q"
    using q by (intro mult_right_mono) simp_all
  then show ?thesis by (simp only: powi_split'[symmetric] round_mag_def Let_def)
qed

lemma round_mag_mono:
  assumes "0 \<le> a" and "a \<le> b"
  shows "round_mag a \<le> round_mag b"
proof (cases "binade a = binade b")
  case True
  let ?q = "(2::real) powi (binade b - 23)"
  have q: "0 < ?q" by simp
  have "a / ?q \<le> b / ?q" using assms(2) q by (simp add: divide_right_mono)
  then have "round_even (a / ?q) \<le> round_even (b / ?q)" by (rule round_even_mono)
  then have "real_of_int (round_even (a / ?q)) \<le> of_int (round_even (b / ?q))" by simp
  then have "of_int (round_even (a / ?q)) * ?q \<le> of_int (round_even (b / ?q)) * ?q"
    using q by (intro mult_right_mono) simp_all
  then show ?thesis using True by (simp add: round_mag_def Let_def)
next
  case False
  with binade_mono[OF assms(2)] have lt: "binade a + 1 \<le> binade b" by simp
  have "\<not> b < 2 powi (- 126)"
  proof
    assume "b < 2 powi (- 126)"
    then have "binade b = - 126" by (rule binade_small)
    with lt binade_ge[of a] show False by simp
  qed
  then have b: "2 powi (- 126) \<le> b" by simp
  have "round_mag a \<le> 2 powi (binade a + 1)" using assms(1) by (rule round_mag_le_top)
  also have "\<dots> \<le> 2 powi (binade b)" using lt by (intro power_int_increasing) simp_all
  also have "\<dots> \<le> round_mag b" using b by (rule round_mag_ge_bottom)
  finally show ?thesis .
qed

text \<open>A number with a significand of at most 24 bits and an exponent in range is kept.\<close>

lemma round_mag_repr_strict:
  assumes "a = of_int m * 2 powi k" and "0 \<le> m" and "m < 2 ^ 24" and "- 149 \<le> k"
  shows "round_mag a = a"
proof -
  let ?e = "binade a"
  have a0: "0 \<le> a" using assms(1,2) by simp
  have ek: "?e - 23 \<le> k"
  proof (cases "a < 2 powi (- 126)")
    case True
    then show ?thesis using assms(4) by (simp add: binade_small)
  next
    case False
    then have "2 powi ?e \<le> a" using binade_bounds by simp
    also have "a < 2 ^ 24 * 2 powi k"
    proof -
      have "real_of_int m < of_int (2 ^ 24)" using assms(3) by (simp only: of_int_less_iff)
      then have "real_of_int m < 2 ^ 24" by simp
      then show ?thesis unfolding assms(1) by (intro mult_strict_right_mono) simp_all
    qed
    also have "\<dots> = 2 powi (k + 24)"
    proof -
      have "(2::real) powi (k + 24) = 2 powi k * 2 powi 24" by (rule power_int_add) simp
      then show ?thesis by simp
    qed
    finally have "?e < k + 24" by (rule powi2_less_cancel)
    then show ?thesis by simp
  qed
  define d where "d = nat (k - (?e - 23))"
  define q :: real where "q = 2 powi (?e - 23)"
  have q0: "0 < q" by (simp add: q_def)
  have k: "k = (?e - 23) + int d" using ek by (simp add: d_def)
  have "(2::real) powi k = 2 powi (?e - 23) * 2 powi (int d)"
    by (subst k, rule power_int_add) simp
  then have pk: "(2::real) powi k = q * 2 ^ d" by (simp add: q_def)
  have aq: "a = of_int (m * 2 ^ d) * q" using assms(1) pk by simp
  then have "a / q = of_int (m * 2 ^ d)" using q0 by simp
  then have "round_even (a / q) = m * 2 ^ d" by (simp only: round_even_of_int)
  then have "round_mag a = of_int (m * 2 ^ d) * q"
    by (simp add: round_mag_def Let_def q_def)
  with aq show ?thesis by simp
qed

lemma round_mag_repr:
  assumes "a = of_int m * 2 powi k" and "0 \<le> m" and "m \<le> 2 ^ 24" and "- 149 \<le> k"
  shows "round_mag a = a"
proof (cases "m = 2 ^ 24")
  case False
  with assms(3) have "m < 2 ^ 24" by simp
  with assms(1,2) show ?thesis using assms(4) by (rule round_mag_repr_strict)
next
  case True
  have "(2::real) powi (k + 1) = 2 powi k * 2 powi 1" by (rule power_int_add) simp
  then have "a = of_int (2 ^ 23) * 2 powi (k + 1)" using True assms(1) by simp
  then show ?thesis by (rule round_mag_repr_strict) (use assms(4) in simp_all)
qed

subsection \<open>Rounding to binary32\<close>

lemma round32_0 [simp]: "round32 0 = Fin 0"
  by (simp add: round32_def)

lemma round32_neg: "round32 (- x) = fneg (round32 x)"
  by (simp add: round32_def Let_def)

lemma representable_iff: "representable x \<longleftrightarrow> round_mag \<bar>x\<bar> = \<bar>x\<bar> \<and> \<bar>x\<bar> < 2 ^ 128"
  by (auto simp: representable_def round32_def Let_def)

lemma representableI:
  assumes "x = of_int m * 2 powi k" and "\<bar>m\<bar> \<le> 2 ^ 24" and "- 149 \<le> k" and "\<bar>x\<bar> < 2 ^ 128"
  shows "representable x"
proof -
  have "\<bar>x\<bar> = of_int \<bar>m\<bar> * 2 powi k" using assms(1) by (simp add: abs_mult)
  then have "round_mag \<bar>x\<bar> = \<bar>x\<bar>"
    by (rule round_mag_repr) (use assms(2,3) in simp_all)
  with assms(4) show ?thesis by (simp add: representable_iff)
qed

lemma representable_int:
  assumes "\<bar>n\<bar> \<le> 2 ^ 24"
  shows "representable (of_int n)"
proof (rule representableI[where m = n and k = 0])
  have "real_of_int \<bar>n\<bar> \<le> of_int (2 ^ 24)" using assms by (simp only: of_int_le_iff)
  then have "\<bar>real_of_int n\<bar> \<le> 2 ^ 24" by simp
  also have "(2::real) ^ 24 < 2 ^ 128" by simp
  finally show "\<bar>real_of_int n\<bar> < 2 ^ 128" .
qed (use assms in simp_all)

lemma representable_0 [simp]: "representable 0"
  using representable_int[of 0] by simp

lemma representable_1 [simp]: "representable 1"
  using representable_int[of 1] by simp

lemma representable_neg: "representable x \<Longrightarrow> representable (- x)"
  by (simp add: representable_iff)

lemma round32_cases:
  "(round32 x = PInf \<and> 0 < x \<and> 2 ^ 128 \<le> round_mag \<bar>x\<bar>)
   \<or> (round32 x = NInf \<and> x < 0 \<and> 2 ^ 128 \<le> round_mag \<bar>x\<bar>)
   \<or> (round32 x = Fin (if x < 0 then - round_mag \<bar>x\<bar> else round_mag \<bar>x\<bar>) \<and> round_mag \<bar>x\<bar> < 2 ^ 128)"
proof (cases "2 ^ 128 \<le> round_mag \<bar>x\<bar>")
  case True
  then have "x \<noteq> 0" by auto
  with True show ?thesis by (auto simp: round32_def Let_def)
next
  case False
  then show ?thesis by (auto simp: round32_def Let_def)
qed

lemma round32_not_NaN [simp]: "round32 x \<noteq> NaN"
  using round32_cases[of x] by auto

text \<open>Rounding is monotone: bounds that binary32 holds survive it.\<close>

lemma round32_upper:
  assumes "representable b" and "x \<le> b"
  shows "round32 x = NInf \<or> (\<exists>v. round32 x = Fin v \<and> v \<le> b)"
proof (cases "x < 0")
  case True
  have "0 \<le> round_mag \<bar>x\<bar>" by (rule round_mag_nonneg) simp
  show ?thesis
  proof (cases "0 \<le> b")
    case b0: True
    then show ?thesis using round32_cases[of x] True \<open>0 \<le> round_mag \<bar>x\<bar>\<close> by auto
  next
    case False
    then have "\<bar>b\<bar> \<le> \<bar>x\<bar>" using assms(2) True by simp
    then have "round_mag \<bar>b\<bar> \<le> round_mag \<bar>x\<bar>" by (intro round_mag_mono) simp_all
    then have "- round_mag \<bar>x\<bar> \<le> b" using assms(1) False by (simp add: representable_iff)
    then show ?thesis using round32_cases[of x] True by auto
  qed
next
  case False
  then have x0: "0 \<le> x" by simp
  then have "\<bar>x\<bar> \<le> \<bar>b\<bar>" using assms(2) by simp
  then have "round_mag \<bar>x\<bar> \<le> round_mag \<bar>b\<bar>" by (intro round_mag_mono) simp_all
  then have "round_mag \<bar>x\<bar> \<le> b" and "round_mag \<bar>x\<bar> < 2 ^ 128"
    using assms x0 by (simp_all add: representable_iff)
  then show ?thesis using round32_cases[of x] False by auto
qed

lemma round32_lower:
  assumes "representable a" and "a \<le> x"
  shows "round32 x = PInf \<or> (\<exists>v. round32 x = Fin v \<and> a \<le> v)"
proof -
  have "round32 (- x) = NInf \<or> (\<exists>v. round32 (- x) = Fin v \<and> v \<le> - a)"
    using assms by (intro round32_upper representable_neg) simp_all
  then show ?thesis
    by (cases "round32 x") (auto simp: round32_neg)
qed

lemma round32_between:
  assumes "representable a" and "representable b" and "a \<le> x" and "x \<le> b"
  shows "\<exists>v. round32 x = Fin v \<and> a \<le> v \<and> v \<le> b"
  using round32_upper[OF assms(2,4)] round32_lower[OF assms(1,3)] by auto

lemma round32_overflow:
  assumes "2 ^ 128 \<le> x"
  shows "round32 x = PInf"
proof -
  have "(0::real) < 2 ^ 128" by simp
  then have x0: "0 < x" using assms by linarith
  have "(2::real) powi (- 126) \<le> 2 powi 128" by (intro power_int_increasing) simp_all
  then have lo: "2 powi (- 126) \<le> x" using assms by simp
  have "(2::real) powi 128 \<le> x" using assms by simp
  also have "x < 2 powi (binade x + 1)" using binade_bounds[OF lo] by simp
  finally have "128 < binade x + 1" by (rule powi2_less_cancel)
  then have "(2::real) powi 128 \<le> 2 powi binade x" by (intro power_int_increasing) simp_all
  also have "\<dots> \<le> round_mag x" using lo by (rule round_mag_ge_bottom)
  finally have "2 ^ 128 \<le> round_mag \<bar>x\<bar>" using x0 by simp
  then show ?thesis using x0 by (simp add: round32_def Let_def)
qed

section \<open>Loops and the heap\<close>

lemma for_each_pure:
  assumes "\<And>i s. i \<in> set is \<Longrightarrow> body i s = Some (g i s)"
  shows "for_each is body s = Some (foldl (\<lambda>s i. g i s) s is)"
  using assms by (induction "is" arbitrary: s) simp_all

lemma for_loop_pure:
  assumes "\<And>i s. i < n \<Longrightarrow> body i s = Some (g i s)"
  shows "for_loop (int n) body s = Some (foldl (\<lambda>s i. g i s) s [0..<n])"
proof -
  have "for_each [0..<n] body s = Some (foldl (\<lambda>s i. g i s) s [0..<n])"
    by (rule for_each_pure) (simp add: assms)
  then show ?thesis by (simp add: for_loop_def)
qed

lemma load_append [simp]: "p < length h \<Longrightarrow> load (h @ [buf]) p k = load h p k"
  by (simp add: load_def nth_append)

lemma load_Some: "p < length h \<Longrightarrow> k < length (h ! p) \<Longrightarrow> load h p k = Some (h ! p ! k)"
  by (simp add: load_def)

lemma store_last:
  "k < length buf \<Longrightarrow> store (h @ [buf]) (length h) k v = Some (h @ [buf[k := v]])"
  by (simp add: store_def)

lemma apply_upds_Nil [simp]: "apply_upds buf [] = buf"
  by (simp add: apply_upds_def)

lemma apply_upds_Cons [simp]: "apply_upds buf ((k, v) # us) = apply_upds (buf[k := v]) us"
  by (simp add: apply_upds_def)

lemma apply_upds_append [simp]: "apply_upds buf (us @ vs) = apply_upds (apply_upds buf us) vs"
  by (simp add: apply_upds_def)

lemma length_apply_upds [simp]: "length (apply_upds buf us) = length buf"
  by (induction us arbitrary: buf) auto

lemma for_each_upds:
  assumes "\<And>i buf. i \<in> set is \<Longrightarrow> length buf = L \<Longrightarrow>
             body i (h @ [buf]) = Some (h @ [apply_upds buf (U i)])"
    and "length buf = L"
  shows "for_each is body (h @ [buf]) = Some (h @ [apply_upds buf (concat (map U is))])"
  using assms
proof (induction "is" arbitrary: buf)
  case Nil
  then show ?case by simp
next
  case (Cons i "is")
  have step: "body i (h @ [buf]) = Some (h @ [apply_upds buf (U i)])"
    using Cons.prems by simp
  have "for_each is body (h @ [apply_upds buf (U i)])
        = Some (h @ [apply_upds (apply_upds buf (U i)) (concat (map U is))])"
    using Cons.prems by (intro Cons.IH) simp_all
  with step show ?case by simp
qed

lemma for_loop_upds:
  assumes "\<And>i buf. i < n \<Longrightarrow> length buf = L \<Longrightarrow>
             body i (h @ [buf]) = Some (h @ [apply_upds buf (U i)])"
    and "length buf = L"
  shows "for_loop (int n) body (h @ [buf]) = Some (h @ [apply_upds buf (concat (map U [0..<n]))])"
proof -
  have "for_each [0..<n] body (h @ [buf]) = Some (h @ [apply_upds buf (concat (map U [0..<n]))])"
    using assms by (intro for_each_upds) simp_all
  then show ?thesis by (simp add: for_loop_def)
qed

lemma nth_apply_upds:
  assumes "(k, v) \<in> set us" and "\<forall>v'. (k, v') \<in> set us \<longrightarrow> v' = v" and "k < length buf"
  shows "apply_upds buf us ! k = v"
  using assms
proof (induction us arbitrary: buf rule: rev_induct)
  case Nil
  then show ?case by simp
next
  case (snoc u us)
  obtain k' v' where u: "u = (k', v')" by (cases u)
  show ?case
  proof (cases "k' = k")
    case True
    have "(k, v') \<in> set (us @ [u])" using True u by simp
    with snoc.prems(2) have "v' = v" by blast
    with True u snoc.prems(3) show ?thesis by simp
  next
    case False
    with snoc.prems(1) u have in_us: "(k, v) \<in> set us" by auto
    have all_us: "\<forall>v'. (k, v') \<in> set us \<longrightarrow> v' = v" using snoc.prems(2) by auto
    have "apply_upds buf us ! k = v" by (rule snoc.IH[OF in_us all_us snoc.prems(3)])
    with False u show ?thesis by simp
  qed
qed

lemma apply_upds_eq_map:
  assumes "length buf = L"
    and "\<And>k. k < L \<Longrightarrow> (k, f k) \<in> set us"
    and "\<And>k v. (k, v) \<in> set us \<Longrightarrow> v = f k"
  shows "apply_upds buf us = map f [0..<L]"
proof (rule nth_equalityI)
  show "length (apply_upds buf us) = length (map f [0..<L])" using assms(1) by simp
next
  fix k assume "k < length (apply_upds buf us)"
  then have k: "k < L" using assms(1) by simp
  have all_us: "\<forall>v'. (k, v') \<in> set us \<longrightarrow> v' = f k" using assms(3) by blast
  have "k < length buf" using k assms(1) by simp
  with assms(2)[OF k] all_us have "apply_upds buf us ! k = f k" by (rule nth_apply_upds)
  with k show "apply_upds buf us ! k = map f [0..<L] ! k" by simp
qed

section \<open>What each kernel returns\<close>

text \<open>
  On arrays whose buffers hold the declared shapes, every kernel returns: no read or write
  leaves a buffer, and the new buffer holds, cell by cell, the formula of the
  specification.
\<close>

lemma c_int_id: "n < 2 ^ 31 \<Longrightarrow> c_int n = int n"
proof -
  assume "n < 2 ^ 31"
  then have "int n < 2 ^ 31" by (metis of_nat_less_iff of_nat_numeral of_nat_power)
  then have "(int n + 2 ^ 31) mod 2 ^ 32 = int n + 2 ^ 31" by (intro mod_pos_pos_trivial) simp_all
  then show ?thesis by (simp add: c_int_def)
qed

lemma subscript_Some:
  "i * N + j < 2 ^ 31 \<Longrightarrow> subscript (int i * int N + int j) = Some (i * N + j)"
proof -
  assume "i * N + j < 2 ^ 31"
  then have "int (i * N + j) < 2 ^ 31" by (metis of_nat_less_iff of_nat_numeral of_nat_power)
  moreover have "nat (int i * int N + int j) = i * N + j"
    by (metis nat_int of_nat_add of_nat_mult)
  ultimately show ?thesis by (simp add: subscript_def)
qed

lemma nat_int_mult [simp]: "nat (int a * int b) = a * b"
  by (simp add: nat_mult_distrib)

lemma index_bound: "i < M \<Longrightarrow> j < N \<Longrightarrow> i * N + j < M * (N::nat)"
proof -
  assume i: "i < M" and j: "j < N"
  have "i * N + j < i * N + N" using j by simp
  also have "\<dots> = Suc i * N" by simp
  also have "\<dots> \<le> M * N" using i by (intro mult_le_mono1) simp
  finally show ?thesis .
qed

lemma foldl_fsum: "foldl (\<lambda>s i. fadd s (t i)) (Fin 0) xs = fsum (map t xs)"
  by (simp add: fsum_def foldl_map)

lemma syndrome_value:
  assumes sh: "dims symptoms = [N]" "dims patterns = [M, N]"
    and sp: "data symptoms < length h" "h ! data symptoms = s" "N \<le> length s"
    and wp: "data weights < length h" "h ! data weights = w" "N \<le> length w"
    and pp: "data patterns < length h" "h ! data patterns = P" "M * N \<le> length P"
    and sz: "N < 2 ^ 31" "M < 2 ^ 31" "M * N < 2 ^ 31"
  shows "tcm_syndrome_analysis old h symptoms weights patterns
         = Some (\<lparr>dims = [M], data = length h\<rparr>,
                 h @ [map (\<lambda>i. sigmoid (fsum (map (\<lambda>j. fmul (fmul (s ! j) (w ! j)) (P ! (i * N + j))) [0..<N])))
                        [0..<M]])"
proof -
  let ?t = "\<lambda>i j. fmul (fmul (s ! j) (w ! j)) (P ! (i * N + j))"
  let ?v = "\<lambda>i. sigmoid (fsum (map (?t i) [0..<N]))"
  let ?inner = "\<lambda>i h. for_loop (int N) (\<lambda>j score. do {
         sj \<leftarrow> load h (data symptoms) j;
         wj \<leftarrow> load h (data weights) j;
         let weighted_symptom = fmul sj wj;
         k \<leftarrow> subscript (int i * int N + int j);
         pattern_weight \<leftarrow> load h (data patterns) k;
         Some (fadd score (fmul weighted_symptom pattern_weight))
       }) (Fin 0)"
  have inner: "?inner i (h @ [buf]) = Some (fsum (map (?t i) [0..<N]))" if "i < M" for i buf
  proof -
    have "?inner i (h @ [buf]) = Some (foldl (\<lambda>s j. fadd s (?t i j)) (Fin 0) [0..<N])"
    proof (rule for_loop_pure)
      fix j score assume j: "j < N"
      have k: "i * N + j < M * N" using that j by (rule index_bound)
      then have "subscript (int i * int N + int j) = Some (i * N + j)" using sz by (intro subscript_Some) simp
      moreover have "load h (data symptoms) j = Some (s ! j)"
        using sp j by (simp add: load_def)
      moreover have "load h (data weights) j = Some (w ! j)"
        using wp j by (simp add: load_def)
      moreover have "load h (data patterns) (i * N + j) = Some (P ! (i * N + j))"
        using pp k by (simp add: load_def)
      ultimately show "do {
         sj \<leftarrow> load (h @ [buf]) (data symptoms) j;
         wj \<leftarrow> load (h @ [buf]) (data weights) j;
         let weighted_symptom = fmul sj wj;
         k \<leftarrow> subscript (int i * int N + int j);
         pattern_weight \<leftarrow> load (h @ [buf]) (data patterns) k;
         Some (fadd score (fmul weighted_symptom pattern_weight))
       } = Some (fadd score (?t i j))"
        using sp wp pp by simp
    qed
    then show ?thesis by (simp only: foldl_fsum)
  qed
  have outer: "for_loop (int M) (\<lambda>i h. do {
       score \<leftarrow> ?inner i h;
       store h (length h0) i (fdiv (Fin 1) (fadd (Fin 1) (expf (fneg score))))
     }) (h @ [map old [0..<M]])
     = Some (h @ [apply_upds (map old [0..<M]) (concat (map (\<lambda>i. [(i, ?v i)]) [0..<M]))])"
    if "h0 = h" for h0
  proof (rule for_loop_upds[where L = M])
    fix i buf assume "i < M" "length (buf :: f32 list) = M"
    then show "do {
       score \<leftarrow> ?inner i (h @ [buf]);
       store (h @ [buf]) (length h0) i (fdiv (Fin 1) (fadd (Fin 1) (expf (fneg score))))
     } = Some (h @ [apply_upds buf [(i, ?v i)]])"
      using inner[of i buf] that by (simp add: store_last sigmoid_def)
  qed simp
  have fin: "apply_upds (map old [0..<M]) (map (\<lambda>i. (i, ?v i)) [0..<M]) = map ?v [0..<M]"
    by (rule apply_upds_eq_map) auto
  show ?thesis
    using outer[OF refl] sz sh
    by (simp add: tcm_syndrome_analysis_def PyArray_DIM_def c_int_id PyArray_SimpleNew_def
        PyArray_DATA_def fin)
qed

lemma fmul_fneg_left: "fmul (fneg x) y = fneg (fmul x y)"
  by (cases x; cases y) (auto simp: round32_neg inf_signed_def)

lemma div_mod_index: "j < C \<Longrightarrow> (i * C + j) div C = i \<and> (i * C + j) mod C = (j::nat)"
  by simp

lemma index_split: "k < R * C \<Longrightarrow> k div C < R \<and> k mod C < C \<and> (k div C) * C + k mod C = (k::nat)"
proof -
  assume k: "k < R * C"
  then have "0 < C" by (cases C) auto
  moreover from k have "k div C < R" by (simp add: less_mult_imp_div_less)
  ultimately show ?thesis by simp
qed

lemma gaussian_value:
  assumes sh: "dims database = [R, L]"
    and qp: "data query < length h" "h ! data query = q" "L \<le> length q"
    and dp: "data database < length h" "h ! data database = D" "R * L \<le> length D"
    and sz: "L < 2 ^ 31" "R < 2 ^ 31" "R * L < 2 ^ 31"
  shows "pattern_matching old h query database
         = Some (\<lparr>dims = [R], data = length h\<rparr>,
                 h @ [map (\<lambda>i. fdiv (fsum (map (\<lambda>j. gauss_term (q ! j) (D ! (i * L + j))) [0..<L]))
                                    (int_to_float (int L))) [0..<R]])"
proof -
  let ?t = "\<lambda>i j. gauss_term (q ! j) (D ! (i * L + j))"
  let ?v = "\<lambda>i. fdiv (fsum (map (?t i) [0..<L])) (int_to_float (int L))"
  let ?inner = "\<lambda>i h. for_loop (int L) (\<lambda>j similarity. do {
         q \<leftarrow> load h (data query) j;
         k \<leftarrow> subscript (int i * int L + int j);
         d \<leftarrow> load h (data database) k;
         let diff = fsub q d;
         Some (fadd similarity (expf (fmul (fneg diff) diff)))
       }) (Fin 0)"
  have inner: "?inner i (h @ [buf]) = Some (fsum (map (?t i) [0..<L]))" if "i < R" for i buf
  proof -
    have "?inner i (h @ [buf]) = Some (foldl (\<lambda>s j. fadd s (?t i j)) (Fin 0) [0..<L])"
    proof (rule for_loop_pure)
      fix j similarity assume j: "j < L"
      have k: "i * L + j < R * L" using that j by (rule index_bound)
      then have "subscript (int i * int L + int j) = Some (i * L + j)" using sz by (intro subscript_Some) simp
      moreover have "load h (data query) j = Some (q ! j)"
        using qp j by (simp add: load_def)
      moreover have "load h (data database) (i * L + j) = Some (D ! (i * L + j))"
        using dp k by (simp add: load_def)
      ultimately show "do {
         q \<leftarrow> load (h @ [buf]) (data query) j;
         k \<leftarrow> subscript (int i * int L + int j);
         d \<leftarrow> load (h @ [buf]) (data database) k;
         let diff = fsub q d;
         Some (fadd similarity (expf (fmul (fneg diff) diff)))
       } = Some (fadd similarity (?t i j))"
        using qp dp by (simp add: gauss_term_def fmul_fneg_left Let_def)
    qed
    then show ?thesis by (simp only: foldl_fsum)
  qed
  have outer: "for_loop (int R) (\<lambda>i h. do {
       similarity \<leftarrow> ?inner i h;
       store h (length h0) i (fdiv similarity (int_to_float (int L)))
     }) (h @ [map old [0..<R]])
     = Some (h @ [apply_upds (map old [0..<R]) (concat (map (\<lambda>i. [(i, ?v i)]) [0..<R]))])"
    if "h0 = h" for h0
  proof (rule for_loop_upds[where L = R])
    fix i buf assume "i < R" "length (buf :: f32 list) = R"
    then show "do {
       similarity \<leftarrow> ?inner i (h @ [buf]);
       store (h @ [buf]) (length h0) i (fdiv similarity (int_to_float (int L)))
     } = Some (h @ [apply_upds buf [(i, ?v i)]])"
      using inner[of i buf] that by (simp add: store_last)
  qed simp
  have fin: "apply_upds (map old [0..<R]) (map (\<lambda>i. (i, ?v i)) [0..<R]) = map ?v [0..<R]"
    by (rule apply_upds_eq_map) auto
  show ?thesis
    using outer[OF refl] sz sh
    by (simp add: pattern_matching_def PyArray_DIM_def c_int_id PyArray_SimpleNew_def
        PyArray_DATA_def fin)
qed

lemma biometric_value:
  assumes sh: "dims biomarkers = [R, C]"
    and bp: "data biomarkers < length h" "h ! data biomarkers = B" "R * C \<le> length B"
    and sz: "R < 2 ^ 31" "C < 2 ^ 31" "R * C < 2 ^ 31"
  shows "biometric_processing old h biomarkers t
         = Some (\<lparr>dims = [R, C], data = length h\<rparr>,
                 h @ [map (\<lambda>k. threshold_elem t (B ! k)) [0..<R * C]])"
proof -
  let ?U = "\<lambda>i. map (\<lambda>j. (i * C + j, threshold_elem t (B ! (i * C + j)))) [0..<C]"
  let ?us = "concat (map ?U [0..<R])"
  have row: "for_loop (int C) (\<lambda>j h. do {
         k \<leftarrow> subscript (int i * int C + int j);
         val \<leftarrow> load h (data biomarkers) k;
         if fgt val t
         then store h (length h0) k (tanhf (fsub val t))
         else store h (length h0) k (fmul val lit_0_1f)
       }) (h @ [buf]) = Some (h @ [apply_upds buf (?U i)])"
    if "i < R" "length buf = R * C" "h0 = h" for i buf h0
  proof -
    have "for_loop (int C) (\<lambda>j h. do {
         k \<leftarrow> subscript (int i * int C + int j);
         val \<leftarrow> load h (data biomarkers) k;
         if fgt val t
         then store h (length h0) k (tanhf (fsub val t))
         else store h (length h0) k (fmul val lit_0_1f)
       }) (h @ [buf])
       = Some (h @ [apply_upds buf (concat (map (\<lambda>j. [(i * C + j, threshold_elem t (B ! (i * C + j)))]) [0..<C]))])"
    proof (rule for_loop_upds[where L = "R * C"])
      fix j and buf' :: "f32 list" assume j: "j < C" and len: "length buf' = R * C"
      have k: "i * C + j < R * C" using that(1) j by (rule index_bound)
      then have "subscript (int i * int C + int j) = Some (i * C + j)" using sz by (intro subscript_Some) simp
      moreover have "load h (data biomarkers) (i * C + j) = Some (B ! (i * C + j))"
        using bp k by (simp add: load_def)
      ultimately show "do {
         k \<leftarrow> subscript (int i * int C + int j);
         val \<leftarrow> load (h @ [buf']) (data biomarkers) k;
         if fgt val t
         then store (h @ [buf']) (length h0) k (tanhf (fsub val t))
         else store (h @ [buf']) (length h0) k (fmul val lit_0_1f)
       } = Some (h @ [apply_upds buf' [(i * C + j, threshold_elem t (B ! (i * C + j)))]])"
        using bp k len that(3) by (simp add: store_last threshold_elem_def)
    qed (rule that(2))
    then show ?thesis by simp
  qed
  have outer: "for_loop (int R) (\<lambda>i h.
       for_loop (int C) (\<lambda>j h. do {
         k \<leftarrow> subscript (int i * int C + int j);
         val \<leftarrow> load h (data biomarkers) k;
         if fgt val t
         then store h (length h0) k (tanhf (fsub val t))
         else store h (length h0) k (fmul val lit_0_1f)
       }) h) (h @ [map old [0..<R * C]])
     = Some (h @ [apply_upds (map old [0..<R * C]) ?us])" if "h0 = h" for h0
    by (rule for_loop_upds[where L = "R * C"]) (simp_all add: row that)
  have fin: "apply_upds (map old [0..<R * C]) ?us = map (\<lambda>k. threshold_elem t (B ! k)) [0..<R * C]"
  proof (rule apply_upds_eq_map)
    fix k assume "k < R * C"
    then have "k div C < R \<and> k mod C < C \<and> (k div C) * C + k mod C = k" by (rule index_split)
    then have "(k, threshold_elem t (B ! k)) \<in> set (?U (k div C))" and "k div C < R"
      by (auto simp: image_iff intro!: bexI[of _ "k mod C"])
    then show "(k, threshold_elem t (B ! k)) \<in> set ?us" by auto
  qed auto
  show ?thesis
    using outer[OF refl] sz sh
    by (simp add: biometric_processing_def PyArray_DIM_def c_int_id PyArray_SimpleNew_def
        PyArray_DATA_def fin)
qed

lemma normalize_value:
  assumes sh: "dims data_arr = [R, C]"
    and dp: "data data_arr < length h" "h ! data data_arr = D" "R * C \<le> length D"
    and sz: "R < 2 ^ 31" "C < 2 ^ 31" "R * C < 2 ^ 31"
  shows "health_data_normalize old h data_arr
         = Some (\<lparr>dims = [R, C], data = length h\<rparr>,
                 h @ [map (\<lambda>k. standardized D R C (k div C) (k mod C)) [0..<R * C]])"
proof -
  let ?U = "\<lambda>j. map (\<lambda>i. (i * C + j, standardized D R C i j)) [0..<R]"
  let ?us = "concat (map ?U [0..<C])"
  have ld: "subscript (int i * int C + int j) = Some (i * C + j)
            \<and> load (h @ [buf]) (data data_arr) (i * C + j) = Some (D ! (i * C + j))"
    if "i < R" "j < C" for i j buf
  proof -
    have k: "i * C + j < R * C" using that by (rule index_bound)
    then have "subscript (int i * int C + int j) = Some (i * C + j)" using sz by (intro subscript_Some) simp
    moreover have "load h (data data_arr) (i * C + j) = Some (D ! (i * C + j))"
      using dp k by (simp add: load_def)
    ultimately show ?thesis using dp by simp
  qed
  have mean: "for_loop (int R) (\<lambda>i mean. do {
         k \<leftarrow> subscript (int i * int C + int j);
         x \<leftarrow> load (h @ [buf]) (data data_arr) k;
         Some (fadd mean x)
       }) (Fin 0) = Some (fsum (map (\<lambda>i. D ! (i * C + j)) [0..<R]))" if "j < C" for j buf
  proof -
    have "for_loop (int R) (\<lambda>i mean. do {
         k \<leftarrow> subscript (int i * int C + int j);
         x \<leftarrow> load (h @ [buf]) (data data_arr) k;
         Some (fadd mean x)
       }) (Fin 0) = Some (foldl (\<lambda>s i. fadd s (D ! (i * C + j))) (Fin 0) [0..<R])"
      by (rule for_loop_pure) (simp add: ld that)
    then show ?thesis by (simp only: foldl_fsum)
  qed
  have var: "for_loop (int R) (\<lambda>i variance. do {
         k \<leftarrow> subscript (int i * int C + int j);
         x \<leftarrow> load (h @ [buf]) (data data_arr) k;
         let diff = fsub x m;
         Some (fadd variance (fmul diff diff))
       }) (Fin 0)
       = Some (fsum (map (\<lambda>i. fmul (fsub (D ! (i * C + j)) m) (fsub (D ! (i * C + j)) m)) [0..<R]))"
    if "j < C" for j buf m
  proof -
    have "for_loop (int R) (\<lambda>i variance. do {
         k \<leftarrow> subscript (int i * int C + int j);
         x \<leftarrow> load (h @ [buf]) (data data_arr) k;
         let diff = fsub x m;
         Some (fadd variance (fmul diff diff))
       }) (Fin 0)
       = Some (foldl (\<lambda>s i. fadd s (fmul (fsub (D ! (i * C + j)) m) (fsub (D ! (i * C + j)) m)))
                 (Fin 0) [0..<R])"
      by (rule for_loop_pure) (simp add: ld that Let_def)
    then show ?thesis by (simp only: foldl_fsum)
  qed
  have wr: "for_loop (int R) (\<lambda>i h. do {
         k \<leftarrow> subscript (int i * int C + int j);
         x \<leftarrow> load h (data data_arr) k;
         store h (length h0) k (fdiv (fsub x m) sd)
       }) (h @ [buf])
       = Some (h @ [apply_upds buf (map (\<lambda>i. (i * C + j, fdiv (fsub (D ! (i * C + j)) m) sd)) [0..<R])])"
    if "j < C" "length buf = R * C" "h0 = h" for j buf m sd h0
  proof -
    have "for_loop (int R) (\<lambda>i h. do {
         k \<leftarrow> subscript (int i * int C + int j);
         x \<leftarrow> load h (data data_arr) k;
         store h (length h0) k (fdiv (fsub x m) sd)
       }) (h @ [buf])
       = Some (h @ [apply_upds buf
            (concat (map (\<lambda>i. [(i * C + j, fdiv (fsub (D ! (i * C + j)) m) sd)]) [0..<R]))])"
    proof (rule for_loop_upds[where L = "R * C"])
      fix i and buf' :: "f32 list" assume i: "i < R" and len: "length buf' = R * C"
      have k: "i * C + j < R * C" using i that(1) by (rule index_bound)
      show "do {
         k \<leftarrow> subscript (int i * int C + int j);
         x \<leftarrow> load (h @ [buf']) (data data_arr) k;
         store (h @ [buf']) (length h0) k (fdiv (fsub x m) sd)
       } = Some (h @ [apply_upds buf' [(i * C + j, fdiv (fsub (D ! (i * C + j)) m) sd)]])"
        using ld[OF i that(1)] k len that(3) by (simp add: store_last)
    qed (rule that(2))
    then show ?thesis by simp
  qed
  have col: "do {
       mean \<leftarrow> for_loop (int R) (\<lambda>i mean. do {
         k \<leftarrow> subscript (int i * int C + int j);
         x \<leftarrow> load (h @ [buf]) (data data_arr) k;
         Some (fadd mean x)
       }) (Fin 0);
       let mean = fdiv mean (int_to_float (int R));
       variance \<leftarrow> for_loop (int R) (\<lambda>i variance. do {
         k \<leftarrow> subscript (int i * int C + int j);
         x \<leftarrow> load (h @ [buf]) (data data_arr) k;
         let diff = fsub x mean;
         Some (fadd variance (fmul diff diff))
       }) (Fin 0);
       let variance = fdiv variance (int_to_float (int R));
       let std = sqrtf (fadd variance lit_1e_8f);
       for_loop (int R) (\<lambda>i h. do {
         k \<leftarrow> subscript (int i * int C + int j);
         x \<leftarrow> load h (data data_arr) k;
         store h (length h0) k (fdiv (fsub x mean) std)
       }) (h @ [buf])
     } = Some (h @ [apply_upds buf (?U j)])"
    if "j < C" "length buf = R * C" "h0 = h" for j buf h0
    using that
    by (simp add: mean var[unfolded Let_def] wr Let_def standardized_def col_variance_def
        col_mean_def)
  have outer: "for_loop (int C) (\<lambda>j h. do {
       mean \<leftarrow> for_loop (int R) (\<lambda>i mean. do {
         k \<leftarrow> subscript (int i * int C + int j);
         x \<leftarrow> load h (data data_arr) k;
         Some (fadd mean x)
       }) (Fin 0);
       let mean = fdiv mean (int_to_float (int R));
       variance \<leftarrow> for_loop (int R) (\<lambda>i variance. do {
         k \<leftarrow> subscript (int i * int C + int j);
         x \<leftarrow> load h (data data_arr) k;
         let diff = fsub x mean;
         Some (fadd variance (fmul diff diff))
       }) (Fin 0);
       let variance = fdiv variance (int_to_float (int R));
       let std = sqrtf (fadd variance lit_1e_8f);
       for_loop (int R) (\<lambda>i h. do {
         k \<leftarrow> subscript (int i * int C + int j);
         x \<leftarrow> load h (data data_arr) k;
         store h (length h0) k (fdiv (fsub x mean) std)
       }) h
     }) (h @ [map old [0..<R * C]])
     = Some (h @ [apply_upds (map old [0..<R * C]) ?us])" if "h0 = h" for h0
    by (rule for_loop_upds[where L = "R * C"]) (simp_all only: col that length_map length_upt diff_zero)
  have fin: "apply_upds (map old [0..<R * C]) ?us
             = map (\<lambda>k. standardized D R C (k div C) (k mod C)) [0..<R * C]"
  proof (rule apply_upds_eq_map)
    fix k assume "k < R * C"
    then have "k div C < R \<and> k mod C < C \<and> (k div C) * C + k mod C = k" by (rule index_split)
    then have "(k, standardized D R C (k div C) (k mod C)) \<in> set (?U (k mod C))" and "k mod C < C"
      by (auto simp: image_iff intro!: bexI[of _ "k div C"])
    then show "(k, standardized D R C (k div C) (k mod C)) \<in> set ?us" by auto
  qed auto
  show ?thesis
    using outer[OF refl] sz sh
    by (simp add: health_data_normalize_def PyArray_DIM_def c_int_id PyArray_SimpleNew_def
        PyArray_DATA_def fin)
qed

lemma foldl_pair:
  "foldl (\<lambda>s j. case s of (a, b) \<Rightarrow> (fadd a (f j), fadd b (g j))) (a0, b0) xs
   = (foldl (\<lambda>a j. fadd a (f j)) a0 xs, foldl (\<lambda>b j. fadd b (g j)) b0 xs)"
  by (induction xs arbitrary: a0 b0) simp_all

lemma nutrition_value:
  assumes sh: "dims food_database = [R, K]"
    and pp: "data user_profile < length h" "h ! data user_profile = p" "K \<le> length p"
    and fp: "data food_database < length h" "h ! data food_database = F" "R * K \<le> length F"
    and sz: "R < 2 ^ 31" "K < 2 ^ 31" "R * K < 2 ^ 31"
  shows "nutrition_optimization old h user_profile food_database
         = Some (\<lparr>dims = [R], data = length h\<rparr>, h @ [map (\<lambda>i. cosine p F K i) [0..<R]])"
proof -
  have pn: "for_loop (int K) (\<lambda>i profile_norm. do {
       p \<leftarrow> load (h @ [buf]) (data user_profile) i;
       Some (fadd profile_norm (fmul p p))
     }) (Fin 0) = Some (fsum (map (\<lambda>j. fmul (p ! j) (p ! j)) [0..<K]))" for buf
  proof -
    have "for_loop (int K) (\<lambda>i profile_norm. do {
       p \<leftarrow> load (h @ [buf]) (data user_profile) i;
       Some (fadd profile_norm (fmul p p))
     }) (Fin 0) = Some (foldl (\<lambda>s j. fadd s (fmul (p ! j) (p ! j))) (Fin 0) [0..<K])"
      by (rule for_loop_pure) (use pp in \<open>simp add: load_Some\<close>)
    then show ?thesis by (simp only: foldl_fsum)
  qed
  have inner: "for_loop (int K) (\<lambda>j (dot_product, food_norm). do {
         k \<leftarrow> subscript (int i * int K + int j);
         food_feature \<leftarrow> load (h @ [buf]) (data food_database) k;
         p \<leftarrow> load (h @ [buf]) (data user_profile) j;
         Some (fadd dot_product (fmul p food_feature),
               fadd food_norm (fmul food_feature food_feature))
       }) (Fin 0, Fin 0)
       = Some (row_dot p F K i, fsum (map (\<lambda>j. fmul (F ! (i * K + j)) (F ! (i * K + j))) [0..<K]))"
    if "i < R" for i buf
  proof -
    have "for_loop (int K) (\<lambda>j (dot_product, food_norm). do {
         k \<leftarrow> subscript (int i * int K + int j);
         food_feature \<leftarrow> load (h @ [buf]) (data food_database) k;
         p \<leftarrow> load (h @ [buf]) (data user_profile) j;
         Some (fadd dot_product (fmul p food_feature),
               fadd food_norm (fmul food_feature food_feature))
       }) (Fin 0, Fin 0)
       = Some (foldl (\<lambda>s j. case s of (a, b) \<Rightarrow>
                  (fadd a (fmul (p ! j) (F ! (i * K + j))),
                   fadd b (fmul (F ! (i * K + j)) (F ! (i * K + j))))) (Fin 0, Fin 0) [0..<K])"
    proof (rule for_loop_pure)
      fix j and s :: "f32 \<times> f32" assume j: "j < K"
      obtain a b where s: "s = (a, b)" by (cases s)
      have k: "i * K + j < R * K" using that j by (rule index_bound)
      then have "subscript (int i * int K + int j) = Some (i * K + j)" using sz by (intro subscript_Some) simp
      moreover have "load h (data food_database) (i * K + j) = Some (F ! (i * K + j))"
        using fp k by (simp add: load_def)
      moreover have "load h (data user_profile) j = Some (p ! j)"
        using pp j by (simp add: load_def)
      ultimately show "(case s of (dot_product, food_norm) \<Rightarrow> do {
         k \<leftarrow> subscript (int i * int K + int j);
         food_feature \<leftarrow> load (h @ [buf]) (data food_database) k;
         p \<leftarrow> load (h @ [buf]) (data user_profile) j;
         Some (fadd dot_product (fmul p food_feature),
               fadd food_norm (fmul food_feature food_feature))
       }) = Some (case s of (a, b) \<Rightarrow>
                  (fadd a (fmul (p ! j) (F ! (i * K + j))),
                   fadd b (fmul (F ! (i * K + j)) (F ! (i * K + j)))))"
        using pp fp s by simp
    qed
    then show ?thesis by (simp only: foldl_pair foldl_fsum row_dot_def)
  qed
  let ?pn = "sqrtf (fsum (map (\<lambda>j. fmul (p ! j) (p ! j)) [0..<K]))"
  let ?fn = "\<lambda>i. sqrtf (fsum (map (\<lambda>j. fmul (F ! (i * K + j)) (F ! (i * K + j))) [0..<K]))"
  let ?v = "\<lambda>i. if fgt ?pn (Fin 0) \<and> fgt (?fn i) (Fin 0)
                then fdiv (row_dot p F K i) (fmul ?pn (?fn i)) else Fin 0"
  have v: "?v i = cosine p F K i" for i
    unfolding cosine_def row_norm_def by simp
  have outer: "for_loop (int R) (\<lambda>i h. do {
       (dot_product, food_norm) \<leftarrow> for_loop (int K) (\<lambda>j (dot_product, food_norm). do {
         k \<leftarrow> subscript (int i * int K + int j);
         food_feature \<leftarrow> load h (data food_database) k;
         p \<leftarrow> load h (data user_profile) j;
         Some (fadd dot_product (fmul p food_feature),
               fadd food_norm (fmul food_feature food_feature))
       }) (Fin 0, Fin 0);
       if fgt ?pn (Fin 0) \<and> fgt (sqrtf food_norm) (Fin 0)
       then store h (length h0) i (fdiv dot_product (fmul ?pn (sqrtf food_norm)))
       else store h (length h0) i (Fin 0)
     }) (h @ [map old [0..<R]])
     = Some (h @ [apply_upds (map old [0..<R]) (concat (map (\<lambda>i. [(i, ?v i)]) [0..<R]))])"
    if "h0 = h" for h0
  proof (rule for_loop_upds[where L = R])
    fix i buf assume "i < R" "length (buf :: f32 list) = R"
    then show "do {
       (dot_product, food_norm) \<leftarrow> for_loop (int K) (\<lambda>j (dot_product, food_norm). do {
         k \<leftarrow> subscript (int i * int K + int j);
         food_feature \<leftarrow> load (h @ [buf]) (data food_database) k;
         p \<leftarrow> load (h @ [buf]) (data user_profile) j;
         Some (fadd dot_product (fmul p food_feature),
               fadd food_norm (fmul food_feature food_feature))
       }) (Fin 0, Fin 0);
       if fgt ?pn (Fin 0) \<and> fgt (sqrtf food_norm) (Fin 0)
       then store (h @ [buf]) (length h0) i (fdiv dot_product (fmul ?pn (sqrtf food_norm)))
       else store (h @ [buf]) (length h0) i (Fin 0)
     } = Some (h @ [apply_upds buf [(i, ?v i)]])"
      using that by (simp add: inner store_last)
  qed simp
  have fin: "apply_upds (map old [0..<R]) (map (\<lambda>i. (i, ?v i)) [0..<R]) = map ?v [0..<R]"
    by (rule apply_upds_eq_map) auto
  have "nutrition_optimization old h user_profile food_database
         = Some (\<lparr>dims = [R], data = length h\<rparr>, h @ [map ?v [0..<R]])"
    using outer[OF refl] sz sh pn[of "map old [0..<R]"]
    by (simp add: nutrition_optimization_def PyArray_DIM_def c_int_id PyArray_SimpleNew_def
        PyArray_DATA_def fin Let_def cong: if_cong)
  then show ?thesis by (simp only: v)
qed

section \<open>The claims\<close>

lemma fsum_Nil [simp]: "fsum [] = Fin 0"
  by (simp add: fsum_def)

lemma int_to_float_0 [simp]: "int_to_float 0 = Fin 0"
  by (simp add: int_to_float_def)

text \<open>
  Claim C10. A database with at least one row and rows of length 0 is a valid shape, and
  on it every entry \<^verbatim>\<open>pattern_matching\<close> returns is NaN, whatever the new buffer held
  before: the kernel stores into every cell the sum of the row, the empty sum 0, divided
  by the row length 0. NaN is outside the interval from 0 to 1.
\<close>

theorem gaussian_match_zero_length_is_nan:
  assumes "dims database = [R, 0]" and "0 < R" and "R < 2 ^ 31"
    and "data query < length h" and "data database < length h"
  shows "pattern_matching old h query database
         = Some (\<lparr>dims = [R], data = length h\<rparr>, h @ [replicate R NaN])
         \<and> (\<forall>i<R. gaussian_row (h ! data query) (h ! data database) 0 i
                     = fdiv (Fin 0) (int_to_float 0))
         \<and> fdiv (Fin 0) (int_to_float 0) = NaN
         \<and> \<not> in_left_open_range 0 1 (fdiv (Fin 0) (int_to_float 0))"
proof (intro conjI allI impI)
  have "pattern_matching old h query database
        = Some (\<lparr>dims = [R], data = length h\<rparr>,
                h @ [map (\<lambda>i. fdiv (fsum (map (\<lambda>j. gauss_term ((h ! data query) ! j)
                                         ((h ! data database) ! (i * 0 + j))) [0..<0]))
                                   (int_to_float (int 0))) [0..<R]])"
    by (rule gaussian_value) (use assms in simp_all)
  then show "pattern_matching old h query database
         = Some (\<lparr>dims = [R], data = length h\<rparr>, h @ [replicate R NaN])"
    by (simp add: map_replicate_const)
next
  fix i
  show "gaussian_row (h ! data query) (h ! data database) 0 i = fdiv (Fin 0) (int_to_float 0)"
    by (simp add: gaussian_row_def)
next
  show "fdiv (Fin 0) (int_to_float 0) = NaN" by simp
next
  show "\<not> in_left_open_range 0 1 (fdiv (Fin 0) (int_to_float 0))"
    by (simp add: in_left_open_range_def)
qed

theorem gaussian_match_zero_length_is_nan_witness:
  "pattern_matching (\<lambda>k. Fin 7) [[], []] \<lparr>dims = [0], data = 0\<rparr> \<lparr>dims = [2, 0], data = 1\<rparr>
   = Some (\<lparr>dims = [2], data = 2\<rparr>, [[], [], [NaN, NaN]])
   \<and> gaussian_row [] [] 0 1 = fdiv (Fin 0) (int_to_float 0)"
proof -
  have hyps: "dims \<lparr>dims = [2, 0], data = 1\<rparr> = [2, 0]" "(0::nat) < 2" "(2::nat) < 2 ^ 31"
    "data \<lparr>dims = [0], data = 0\<rparr> < length [[], [] :: f32 list]"
    "data \<lparr>dims = [2, 0], data = 1\<rparr> < length [[], [] :: f32 list]"
    by simp_all
  note inst = gaussian_match_zero_length_is_nan[where old = "\<lambda>k. Fin 7", OF hyps]
  from inst have "pattern_matching (\<lambda>k. Fin 7) [[], []] \<lparr>dims = [0], data = 0\<rparr>
      \<lparr>dims = [2, 0], data = 1\<rparr>
      = Some (\<lparr>dims = [2], data = length [[], [] :: f32 list]\<rparr>, [[], []] @ [replicate 2 NaN])"
    by (rule conjunct1)
  moreover have "replicate 2 NaN = [NaN, NaN]" by (simp add: numeral_2_eq_2)
  moreover from inst have "\<forall>i<2. gaussian_row ([[], []] ! data \<lparr>dims = [0], data = 0\<rparr>)
      ([[], []] ! data \<lparr>dims = [2, 0], data = 1\<rparr>) 0 i = fdiv (Fin 0) (int_to_float 0)"
    by (rule conjunct1[OF conjunct2])
  then have "gaussian_row [] [] 0 1 = fdiv (Fin 0) (int_to_float 0)" by simp
  ultimately show ?thesis by simp
qed

lemma fgt_irrefl [simp]: "\<not> fgt x x"
  by (cases x) simp_all

lemma lit_0_1f_value: "lit_0_1f = Fin (13421773 / 134217728)"
  unfolding lit_0_1f_def by code_simp

lemma round32_1 [simp]: "round32 1 = Fin 1"
  using representable_1 by (simp add: representable_def)

lemma framed_alloc: "framed h L (h @ [map old [0..<L]])"
  by (simp add: framed_def)

lemma store_framed:
  assumes "store s (length h) k v = Some s'" and "framed h L s"
  shows "framed h L s'"
proof -
  from assms(2) obtain buf where s: "s = h @ [buf]" and len: "length buf = L"
    by (auto simp: framed_def)
  from assms(1) s have "s' = h @ [buf[k := v]]"
    by (auto simp: store_def split: if_splits)
  with len show ?thesis by (simp add: framed_def)
qed

lemma for_each_inv:
  assumes "\<And>i s s'. i \<in> set is \<Longrightarrow> P s \<Longrightarrow> body i s = Some s' \<Longrightarrow> P s'"
    and "P s" and "for_each is body s = Some s'"
  shows "P s'"
  using assms
proof (induction "is" arbitrary: s)
  case Nil
  then show ?case by simp
next
  case (Cons i "is")
  from Cons.prems(3) obtain s1 where s1: "body i s = Some s1" and rest: "for_each is body s1 = Some s'"
    by (auto split: option.splits)
  have "P s1" using Cons.prems(1)[of i s s1] Cons.prems(2) s1 by simp
  with rest show ?case using Cons.prems(1) by (intro Cons.IH[of s1]) auto
qed

lemma for_loop_inv:
  assumes "\<And>i s s'. int i < n \<Longrightarrow> P s \<Longrightarrow> body i s = Some s' \<Longrightarrow> P s'"
    and "P s" and "for_loop n body s = Some s'"
  shows "P s'"
  using assms(3) unfolding for_loop_def
  by (rule for_each_inv[rotated 2]) (use assms(1,2) in \<open>auto simp: zless_nat_eq_int_zless\<close>)

lemma PyArray_DIM_Some: "PyArray_DIM a k = Some n \<Longrightarrow> n = dims a ! k"
  by (auto simp: PyArray_DIM_def split: if_splits)

lemma loop_framed':
  assumes "for_loop n body s = Some s'" and "framed h L s"
    and "\<And>i s s'. framed h L s \<Longrightarrow> body i s = Some s' \<Longrightarrow> framed h L s'"
  shows "framed h L s'"
  using _ assms(2,1) by (rule for_loop_inv) (rule assms(3))

lemma alloc_Some:
  assumes "PyArray_SimpleNew old h shape = Some (res, h1)"
  shows "framed h (prod_list (map nat shape)) h1 \<and> res = \<lparr>dims = map nat shape, data = length h\<rparr>"
proof -
  from assms have nn: "list_all (\<lambda>n. 0 \<le> n) shape"
    and h1: "h1 = h @ [map old [0..<nat (prod_list shape)]]"
    and res: "res = \<lparr>dims = map nat shape, data = length h\<rparr>"
    by (auto simp: PyArray_SimpleNew_def split: if_splits)
  from nn have "nat (prod_list shape) = prod_list (map nat shape)"
    by (induction shape) (simp_all add: nat_mult_distrib)
  with h1 res show ?thesis by (simp add: framed_def)
qed

lemma normalize_frame:
  assumes "health_data_normalize old h data_arr = Some (res, h')"
  shows "framed h (c_dim data_arr 0 * c_dim data_arr 1) h'
         \<and> res = \<lparr>dims = [c_dim data_arr 0, c_dim data_arr 1], data = length h\<rparr>"
proof -
  from assms obtain d0 d1 h1 where ns: "PyArray_DIM data_arr 0 = Some d0"
    and nf: "PyArray_DIM data_arr 1 = Some d1"
    and new: "PyArray_SimpleNew old h [c_int d0, c_int d1] = Some (res, h1)"
    and loop: "for_loop (c_int d1) (\<lambda>j h1. do {
       mean \<leftarrow> for_loop (c_int d0) (\<lambda>i mean. do {
         k \<leftarrow> subscript (int i * c_int d1 + int j);
         x \<leftarrow> load h1 (data data_arr) k;
         Some (fadd mean x)
       }) (Fin 0);
       let mean = fdiv mean (int_to_float (c_int d0));
       variance \<leftarrow> for_loop (c_int d0) (\<lambda>i variance. do {
         k \<leftarrow> subscript (int i * c_int d1 + int j);
         x \<leftarrow> load h1 (data data_arr) k;
         let diff = fsub x mean;
         Some (fadd variance (fmul diff diff))
       }) (Fin 0);
       let variance = fdiv variance (int_to_float (c_int d0));
       let std = sqrtf (fadd variance lit_1e_8f);
       for_loop (c_int d0) (\<lambda>i h2. do {
         k \<leftarrow> subscript (int i * c_int d1 + int j);
         x \<leftarrow> load h2 (data data_arr) k;
         store h2 (data res) k (fdiv (fsub x mean) std)
       }) h1
     }) h1 = Some h'"
    by (auto simp: health_data_normalize_def PyArray_DATA_def Let_def bind_eq_Some_conv)
  define L where "L = nat (c_int d0) * nat (c_int d1)"
  from alloc_Some[OF new] have fr: "framed h L h1"
    and res: "res = \<lparr>dims = [nat (c_int d0), nat (c_int d1)], data = length h\<rparr>"
    by (simp_all add: L_def)
  have "framed h L h'"
    using _ fr loop
  proof (rule for_loop_inv)
    fix j s s'
    assume s: "framed h L s" and body: "do {
       mean \<leftarrow> for_loop (c_int d0) (\<lambda>i mean. do {
         k \<leftarrow> subscript (int i * c_int d1 + int j);
         x \<leftarrow> load s (data data_arr) k;
         Some (fadd mean x)
       }) (Fin 0);
       let mean = fdiv mean (int_to_float (c_int d0));
       variance \<leftarrow> for_loop (c_int d0) (\<lambda>i variance. do {
         k \<leftarrow> subscript (int i * c_int d1 + int j);
         x \<leftarrow> load s (data data_arr) k;
         let diff = fsub x mean;
         Some (fadd variance (fmul diff diff))
       }) (Fin 0);
       let variance = fdiv variance (int_to_float (c_int d0));
       let std = sqrtf (fadd variance lit_1e_8f);
       for_loop (c_int d0) (\<lambda>i h2. do {
         k \<leftarrow> subscript (int i * c_int d1 + int j);
         x \<leftarrow> load h2 (data data_arr) k;
         store h2 (data res) k (fdiv (fsub x mean) std)
       }) s
     } = Some s'"
    from body obtain m sd where "for_loop (c_int d0) (\<lambda>i h2. do {
         k \<leftarrow> subscript (int i * c_int d1 + int j);
         x \<leftarrow> load h2 (data data_arr) k;
         store h2 (length h) k (fdiv (fsub x m) sd)
       }) s = Some s'"
      by (auto simp: bind_eq_Some_conv Let_def res)
    with _ s show "framed h L s'"
      by (rule for_loop_inv) (auto simp: bind_eq_Some_conv intro: store_framed)
  qed
  with res PyArray_DIM_Some[OF ns] PyArray_DIM_Some[OF nf] show ?thesis
    by (simp add: L_def c_dim_def)
qed

lemma nutrition_frame:
  assumes "nutrition_optimization old h user_profile food_database = Some (res, h')"
  shows "framed h (c_dim food_database 0) h'
         \<and> res = \<lparr>dims = [c_dim food_database 0], data = length h\<rparr>"
  using assms
  by (auto simp: nutrition_optimization_def PyArray_DATA_def Let_def c_dim_def
      bind_eq_Some_conv split: if_splits dest!: PyArray_DIM_Some alloc_Some elim!: loop_framed'
      intro: store_framed cong: if_cong)

lemma biometric_frame:
  assumes "biometric_processing old h biomarkers threshold = Some (res, h')"
  shows "framed h (c_dim biomarkers 0 * c_dim biomarkers 1) h'
         \<and> res = \<lparr>dims = [c_dim biomarkers 0, c_dim biomarkers 1], data = length h\<rparr>"
  using assms
  by (auto simp: biometric_processing_def PyArray_DATA_def Let_def c_dim_def
      bind_eq_Some_conv split: if_splits dest!: PyArray_DIM_Some alloc_Some
      elim!: loop_framed' intro: store_framed cong: if_cong)

lemma syndrome_frame:
  assumes "tcm_syndrome_analysis old h symptoms weights patterns = Some (res, h')"
  shows "framed h (c_dim patterns 0) h' \<and> res = \<lparr>dims = [c_dim patterns 0], data = length h\<rparr>"
  using assms
  by (auto simp: tcm_syndrome_analysis_def PyArray_DATA_def Let_def c_dim_def
      bind_eq_Some_conv split: if_splits dest!: PyArray_DIM_Some alloc_Some
      elim!: loop_framed' intro: store_framed cong: if_cong)

lemma pattern_frame:
  assumes "pattern_matching old h query database = Some (res, h')"
  shows "framed h (c_dim database 0) h'
         \<and> res = \<lparr>dims = [c_dim database 0], data = length h\<rparr>"
  using assms
  by (auto simp: pattern_matching_def PyArray_DATA_def Let_def c_dim_def
      bind_eq_Some_conv split: if_splits dest!: PyArray_DIM_Some alloc_Some
      elim!: loop_framed' intro: store_framed cong: if_cong)

lemma framed_frame:
  assumes "framed h (prod_list shape) h'" and "res = \<lparr>dims = shape, data = length h\<rparr>"
  shows "inputs_unchanged h h' \<and> fresh_output h res h' shape"
  using assms by (auto simp: framed_def inputs_unchanged_def fresh_output_def)

lemma c_dim_declared: "dims a ! k < 2 ^ 31 \<Longrightarrow> c_dim a k = dims a ! k"
  by (simp add: c_dim_def c_int_id)

text \<open>
  Claim C9, as the code has it. Whenever one of the five kernels returns, every buffer
  that existed before the call is unchanged: the kernel has written into one freshly
  allocated buffer only, the buffer of its result. The shape of the result is made of the
  dimensions as the kernel holds them in \<^verbatim>\<open>int\<close>: it is the declared output shape when
  these dimensions are below \<open>2^31\<close>, and a larger dimension is cut to its low 32 bits.
\<close>

theorem kernels_leave_inputs_unchanged:
  "(tcm_syndrome_analysis old h symptoms weights patterns = Some (res, h')
      \<longrightarrow> inputs_unchanged h h' \<and> fresh_output h res h' [c_dim patterns 0])
   \<and> (health_data_normalize old h data_arr = Some (res, h')
      \<longrightarrow> inputs_unchanged h h' \<and> fresh_output h res h' [c_dim data_arr 0, c_dim data_arr 1])
   \<and> (nutrition_optimization old h user_profile food_database = Some (res, h')
      \<longrightarrow> inputs_unchanged h h' \<and> fresh_output h res h' [c_dim food_database 0])
   \<and> (biometric_processing old h biomarkers threshold = Some (res, h')
      \<longrightarrow> inputs_unchanged h h' \<and> fresh_output h res h' [c_dim biomarkers 0, c_dim biomarkers 1])
   \<and> (pattern_matching old h query database = Some (res, h')
      \<longrightarrow> inputs_unchanged h h' \<and> fresh_output h res h' [c_dim database 0])
   \<and> (dims a ! k < 2 ^ 31 \<longrightarrow> c_dim a k = dims a ! k)"
proof (intro conjI impI)
  assume "tcm_syndrome_analysis old h symptoms weights patterns = Some (res, h')"
  then have "inputs_unchanged h h' \<and> fresh_output h res h' [c_dim patterns 0]"
    using syndrome_frame by (intro framed_frame) simp_all
  then show "inputs_unchanged h h'" and "fresh_output h res h' [c_dim patterns 0]" by simp_all
next
  assume "health_data_normalize old h data_arr = Some (res, h')"
  then have "inputs_unchanged h h' \<and> fresh_output h res h' [c_dim data_arr 0, c_dim data_arr 1]"
    using normalize_frame by (intro framed_frame) simp_all
  then show "inputs_unchanged h h'"
    and "fresh_output h res h' [c_dim data_arr 0, c_dim data_arr 1]" by simp_all
next
  assume "nutrition_optimization old h user_profile food_database = Some (res, h')"
  then have "inputs_unchanged h h' \<and> fresh_output h res h' [c_dim food_database 0]"
    using nutrition_frame by (intro framed_frame) simp_all
  then show "inputs_unchanged h h'" and "fresh_output h res h' [c_dim food_database 0]"
    by simp_all
next
  assume "biometric_processing old h biomarkers threshold = Some (res, h')"
  then have "inputs_unchanged h h'
             \<and> fresh_output h res h' [c_dim biomarkers 0, c_dim biomarkers 1]"
    using biometric_frame by (intro framed_frame) simp_all
  then show "inputs_unchanged h h'"
    and "fresh_output h res h' [c_dim biomarkers 0, c_dim biomarkers 1]" by simp_all
next
  assume "pattern_matching old h query database = Some (res, h')"
  then have "inputs_unchanged h h' \<and> fresh_output h res h' [c_dim database 0]"
    using pattern_frame by (intro framed_frame) simp_all
  then show "inputs_unchanged h h'" and "fresh_output h res h' [c_dim database 0]" by simp_all
next
  assume "dims a ! k < 2 ^ 31"
  then show "c_dim a k = dims a ! k" by (rule c_dim_declared)
qed

lemma round32_2 [simp]: "round32 2 = Fin 2"
  using representable_int[of 2] by (simp add: representable_def)

lemma syndrome_run:
  "tcm_syndrome_analysis (\<lambda>k. Fin 7) [[Fin 1, Fin 1]] \<lparr>dims = [2], data = 0\<rparr> \<lparr>dims = [2], data = 0\<rparr>
       \<lparr>dims = [1, 2], data = 0\<rparr>
     = Some (\<lparr>dims = [1], data = 1\<rparr>, [[Fin 1, Fin 1], [sigmoid (Fin 2)]])"
  using syndrome_value[where old = "\<lambda>k. Fin 7" and h = "[[Fin 1, Fin 1]]" and N = 2 and M = 1
      and symptoms = "\<lparr>dims = [2], data = 0\<rparr>" and weights = "\<lparr>dims = [2], data = 0\<rparr>"
      and patterns = "\<lparr>dims = [1, 2], data = 0\<rparr>"]
  by (simp add: fsum_def upt_conv_Cons)

lemma normalize_run:
  "health_data_normalize (\<lambda>k. Fin 7) [[Fin 1, Fin 1]] \<lparr>dims = [1, 2], data = 0\<rparr>
     = Some (\<lparr>dims = [1, 2], data = 1\<rparr>,
             [[Fin 1, Fin 1], [standardized [Fin 1, Fin 1] 1 2 0 0, standardized [Fin 1, Fin 1] 1 2 0 1]])"
  using normalize_value[where old = "\<lambda>k. Fin 7" and h = "[[Fin 1, Fin 1]]" and R = 1 and C = 2
      and data_arr = "\<lparr>dims = [1, 2], data = 0\<rparr>"]
  by (simp add: upt_conv_Cons)

lemma nutrition_run:
  "nutrition_optimization (\<lambda>k. Fin 7) [[Fin 1, Fin 1]] \<lparr>dims = [2], data = 0\<rparr> \<lparr>dims = [1, 2], data = 0\<rparr>
     = Some (\<lparr>dims = [1], data = 1\<rparr>, [[Fin 1, Fin 1], [cosine [Fin 1, Fin 1] [Fin 1, Fin 1] 2 0]])"
  using nutrition_value[where old = "\<lambda>k. Fin 7" and h = "[[Fin 1, Fin 1]]" and R = 1 and K = 2
      and user_profile = "\<lparr>dims = [2], data = 0\<rparr>" and food_database = "\<lparr>dims = [1, 2], data = 0\<rparr>"]
  by simp

lemma biometric_run:
  "biometric_processing (\<lambda>k. Fin 7) [[Fin 1, Fin 1]] \<lparr>dims = [1, 2], data = 0\<rparr> (Fin 1)
     = Some (\<lparr>dims = [1, 2], data = 1\<rparr>,
             [[Fin 1, Fin 1], [fmul (Fin 1) lit_0_1f, fmul (Fin 1) lit_0_1f]])"
  using biometric_value[where old = "\<lambda>k. Fin 7" and h = "[[Fin 1, Fin 1]]" and R = 1 and C = 2 and t = "Fin 1"
      and biomarkers = "\<lparr>dims = [1, 2], data = 0\<rparr>"]
  by (simp add: upt_conv_Cons threshold_elem_def)

lemma pattern_run:
  "pattern_matching (\<lambda>k. Fin 7) [[Fin 1, Fin 1]] \<lparr>dims = [2], data = 0\<rparr> \<lparr>dims = [1, 2], data = 0\<rparr>
     = Some (\<lparr>dims = [1], data = 1\<rparr>,
             [[Fin 1, Fin 1],
              [fdiv (fsum [gauss_term (Fin 1) (Fin 1), gauss_term (Fin 1) (Fin 1)]) (int_to_float 2)]])"
  using gaussian_value[where old = "\<lambda>k. Fin 7" and h = "[[Fin 1, Fin 1]]" and R = 1 and L = 2
      and query = "\<lparr>dims = [2], data = 0\<rparr>" and database = "\<lparr>dims = [1, 2], data = 0\<rparr>"]
  by (simp add: upt_conv_Cons)

theorem kernels_leave_inputs_unchanged_witness:
  "(tcm_syndrome_analysis (\<lambda>k. Fin 7) [[Fin 1, Fin 1]] \<lparr>dims = [2], data = 0\<rparr> \<lparr>dims = [2], data = 0\<rparr>
       \<lparr>dims = [1, 2], data = 0\<rparr>
     = Some (\<lparr>dims = [1], data = 1\<rparr>, [[Fin 1, Fin 1], [sigmoid (Fin 2)]])
    \<and> inputs_unchanged [[Fin 1, Fin 1]] [[Fin 1, Fin 1], [sigmoid (Fin 2)]]
    \<and> fresh_output [[Fin 1, Fin 1]] \<lparr>dims = [1], data = 1\<rparr>
          [[Fin 1, Fin 1], [sigmoid (Fin 2)]] [1])
   \<and> (health_data_normalize (\<lambda>k. Fin 7) [[Fin 1, Fin 1]] \<lparr>dims = [1, 2], data = 0\<rparr>
     = Some (\<lparr>dims = [1, 2], data = 1\<rparr>,
             [[Fin 1, Fin 1], [standardized [Fin 1, Fin 1] 1 2 0 0, standardized [Fin 1, Fin 1] 1 2 0 1]])
    \<and> inputs_unchanged [[Fin 1, Fin 1]]
          [[Fin 1, Fin 1], [standardized [Fin 1, Fin 1] 1 2 0 0, standardized [Fin 1, Fin 1] 1 2 0 1]]
    \<and> fresh_output [[Fin 1, Fin 1]] \<lparr>dims = [1, 2], data = 1\<rparr>
          [[Fin 1, Fin 1], [standardized [Fin 1, Fin 1] 1 2 0 0, standardized [Fin 1, Fin 1] 1 2 0 1]]
          [1, 2])
   \<and> (nutrition_optimization (\<lambda>k. Fin 7) [[Fin 1, Fin 1]] \<lparr>dims = [2], data = 0\<rparr> \<lparr>dims = [1, 2], data = 0\<rparr>
     = Some (\<lparr>dims = [1], data = 1\<rparr>, [[Fin 1, Fin 1], [cosine [Fin 1, Fin 1] [Fin 1, Fin 1] 2 0]])
    \<and> inputs_unchanged [[Fin 1, Fin 1]] [[Fin 1, Fin 1], [cosine [Fin 1, Fin 1] [Fin 1, Fin 1] 2 0]]
    \<and> fresh_output [[Fin 1, Fin 1]] \<lparr>dims = [1], data = 1\<rparr>
          [[Fin 1, Fin 1], [cosine [Fin 1, Fin 1] [Fin 1, Fin 1] 2 0]] [1])
   \<and> (biometric_processing (\<lambda>k. Fin 7) [[Fin 1, Fin 1]] \<lparr>dims = [1, 2], data = 0\<rparr> (Fin 1)
     = Some (\<lparr>dims = [1, 2], data = 1\<rparr>,
             [[Fin 1, Fin 1], [fmul (Fin 1) lit_0_1f, fmul (Fin 1) lit_0_1f]])
    \<and> inputs_unchanged [[Fin 1, Fin 1]]
          [[Fin 1, Fin 1], [fmul (Fin 1) lit_0_1f, fmul (Fin 1) lit_0_1f]]
    \<and> fresh_output [[Fin 1, Fin 1]] \<lparr>dims = [1, 2], data = 1\<rparr>
          [[Fin 1, Fin 1], [fmul (Fin 1) lit_0_1f, fmul (Fin 1) lit_0_1f]] [1, 2])
   \<and> (pattern_matching (\<lambda>k. Fin 7) [[Fin 1, Fin 1]] \<lparr>dims = [2], data = 0\<rparr> \<lparr>dims = [1, 2], data = 0\<rparr>
     = Some (\<lparr>dims = [1], data = 1\<rparr>,
             [[Fin 1, Fin 1],
              [fdiv (fsum [gauss_term (Fin 1) (Fin 1), gauss_term (Fin 1) (Fin 1)]) (int_to_float 2)]])
    \<and> inputs_unchanged [[Fin 1, Fin 1]]
          [[Fin 1, Fin 1],
           [fdiv (fsum [gauss_term (Fin 1) (Fin 1), gauss_term (Fin 1) (Fin 1)]) (int_to_float 2)]]
    \<and> fresh_output [[Fin 1, Fin 1]] \<lparr>dims = [1], data = 1\<rparr>
          [[Fin 1, Fin 1],
           [fdiv (fsum [gauss_term (Fin 1) (Fin 1), gauss_term (Fin 1) (Fin 1)]) (int_to_float 2)]]
          [1])
   \<and> c_dim \<lparr>dims = [1, 2], data = 0\<rparr> 0 = 1"
proof -
  note frame = kernels_leave_inputs_unchanged[where old = "\<lambda>k. Fin 7" and h = "[[Fin 1, Fin 1]]"
      and symptoms = "\<lparr>dims = [2], data = 0\<rparr>" and weights = "\<lparr>dims = [2], data = 0\<rparr>"
      and patterns = "\<lparr>dims = [1, 2], data = 0\<rparr>" and data_arr = "\<lparr>dims = [1, 2], data = 0\<rparr>"
      and user_profile = "\<lparr>dims = [2], data = 0\<rparr>"
      and food_database = "\<lparr>dims = [1, 2], data = 0\<rparr>"
      and biomarkers = "\<lparr>dims = [1, 2], data = 0\<rparr>" and threshold = "Fin 1"
      and query = "\<lparr>dims = [2], data = 0\<rparr>" and database = "\<lparr>dims = [1, 2], data = 0\<rparr>"
      and a = "\<lparr>dims = [1, 2], data = 0\<rparr>" and k = 0]
  have c1: "c_int (Suc 0) = 1" and c2: "c_int 2 = 2" by (simp_all add: c_int_def)
  have small: "dims \<lparr>dims = [1, 2], data = 0\<rparr> ! 0 < 2 ^ 31" by simp
  have cd: "c_dim \<lparr>dims = [1, 2], data = 0\<rparr> 0 = 1"
    using frame[THEN conjunct2, THEN conjunct2, THEN conjunct2, THEN conjunct2, THEN conjunct2,
        rule_format, OF small]
    by simp
  show ?thesis
    using frame[THEN conjunct1, rule_format, OF syndrome_run]
      frame[THEN conjunct2, THEN conjunct1, rule_format, OF normalize_run]
      frame[THEN conjunct2, THEN conjunct2, THEN conjunct1, rule_format, OF nutrition_run]
      frame[THEN conjunct2, THEN conjunct2, THEN conjunct2, THEN conjunct1, rule_format,
        OF biometric_run]
      frame[THEN conjunct2, THEN conjunct2, THEN conjunct2, THEN conjunct2, THEN conjunct1,
        rule_format, OF pattern_run]
      syndrome_run normalize_run nutrition_run biometric_run pattern_run cd
    by (simp add: c_dim_def c1 c2)
qed

theorem kernel_output_shape_truncated:
  "pattern_matching (\<lambda>k. Fin 7) [[], []] \<lparr>dims = [0], data = 0\<rparr>
     \<lparr>dims = [4294967297, 0], data = 1\<rparr>
   = Some (\<lparr>dims = [1], data = 2\<rparr>, [[], [], [NaN]])
   \<and> \<not> fresh_output [[], []] \<lparr>dims = [1], data = 2\<rparr> [[], [], [NaN]] [4294967297]"
proof -
  have c: "c_int 4294967297 = 1" "c_int 0 = 0" by (simp_all add: c_int_def)
  show ?thesis
    by (simp add: pattern_matching_def PyArray_DIM_def PyArray_SimpleNew_def PyArray_DATA_def c
        for_loop_def store_def fresh_output_def)
qed

text \<open>
  Claim C5. For a matrix \<open>B\<close> of \<open>R\<close> rows and \<open>C\<close> columns and a threshold \<open>t\<close>,
  \<^verbatim>\<open>biometric_processing\<close> returns a matrix of the same shape in which the entry of value
  \<open>v\<close> is \<open>tanh(v - t)\<close> when \<open>v > t\<close> and \<open>v * 0.1\<close> otherwise; the comparison is strict,
  so an entry equal to \<open>t\<close> takes the scaled branch.
\<close>

theorem threshold_transform_strict:
  assumes "dims biomarkers = [R, C]"
    and "data biomarkers < length h" and "h ! data biomarkers = B" and "length B = R * C"
    and "R < 2 ^ 31" and "C < 2 ^ 31" and "R * C < 2 ^ 31"
  shows "biometric_processing old h biomarkers t
         = Some (\<lparr>dims = [R, C], data = length h\<rparr>, h @ [map (threshold_elem t) B])
         \<and> threshold_elem t t = fmul t lit_0_1f"
proof -
  have "biometric_processing old h biomarkers t
        = Some (\<lparr>dims = [R, C], data = length h\<rparr>,
                h @ [map (\<lambda>k. threshold_elem t (B ! k)) [0..<R * C]])"
    by (rule biometric_value) (use assms in simp_all)
  moreover have "map (\<lambda>k. threshold_elem t (B ! k)) [0..<R * C] = map (threshold_elem t) B"
    using assms(4) by (intro nth_equalityI) simp_all
  ultimately show ?thesis by (simp add: threshold_elem_def)
qed

theorem threshold_transform_strict_witness:
  "biometric_processing (\<lambda>k. Fin 7) [[Fin 1, Fin 2]] \<lparr>dims = [1, 2], data = 0\<rparr> (Fin 1)
   = Some (\<lparr>dims = [1, 2], data = 1\<rparr>,
           [[Fin 1, Fin 2], [fmul (Fin 1) lit_0_1f, tanhf (Fin 1)]])"
  using threshold_transform_strict[where old = "\<lambda>k. Fin 7" and h = "[[Fin 1, Fin 2]]" and R = 1 and C = 2
      and biomarkers = "\<lparr>dims = [1, 2], data = 0\<rparr>" and t = "Fin 1"]
  by (simp add: threshold_elem_def fsub_def)

lemma fsum_zeros: "(\<forall>x \<in> set xs. x = Fin 0) \<Longrightarrow> fsum xs = Fin 0"
proof -
  have "(\<forall>x \<in> set xs. x = Fin 0) \<Longrightarrow> foldl fadd (Fin 0) xs = Fin 0"
    by (induction xs) simp_all
  then show "(\<forall>x \<in> set xs. x = Fin 0) \<Longrightarrow> fsum xs = Fin 0" by (simp add: fsum_def)
qed

lemma row_norm_zeros:
  assumes "\<forall>j<K. F ! (i * K + j) = Fin 0"
  shows "row_norm F K i = Fin 0"
proof -
  have "fsum (map (\<lambda>j. fmul (F ! (i * K + j)) (F ! (i * K + j))) [0..<K]) = Fin 0"
    using assms by (intro fsum_zeros) simp
  then show ?thesis by (simp add: row_norm_def)
qed

lemma cosine_zero_norm:
  "row_norm p K 0 = Fin 0 \<or> row_norm F K i = Fin 0 \<Longrightarrow> cosine p F K i = Fin 0"
  by (auto simp: cosine_def)

text \<open>
  Claim C6. Whenever the norm of the profile or the norm of a database row is exactly 0,
  \<^verbatim>\<open>nutrition_optimization\<close> returns exactly 0.0 for that row: the call returns, and the
  value is neither NaN nor an error. In particular a profile of zeros gives 0.0 for every
  row, whatever the row holds. The norm is the one the kernel computes; a vector of zeros
  has it 0.
\<close>

theorem cosine_match_zero_norm:
  assumes "dims food_database = [R, K]"
    and "data user_profile < length h" and "h ! data user_profile = p" and "length p = K"
    and "data food_database < length h" and "h ! data food_database = F"
    and "length F = R * K"
    and "R < 2 ^ 31" and "K < 2 ^ 31" and "R * K < 2 ^ 31"
  shows "nutrition_optimization old h user_profile food_database
         = Some (\<lparr>dims = [R], data = length h\<rparr>, h @ [map (cosine p F K) [0..<R]])
         \<and> (\<forall>i<R. row_norm p K 0 = Fin 0 \<or> row_norm F K i = Fin 0 \<longrightarrow> cosine p F K i = Fin 0)
         \<and> (\<forall>i<R. (\<forall>j<K. F ! (i * K + j) = Fin 0) \<longrightarrow> cosine p F K i = Fin 0)
         \<and> ((\<forall>j<K. p ! j = Fin 0) \<longrightarrow> map (cosine p F K) [0..<R] = replicate R (Fin 0))"
proof (intro conjI allI impI)
  show "nutrition_optimization old h user_profile food_database
         = Some (\<lparr>dims = [R], data = length h\<rparr>, h @ [map (cosine p F K) [0..<R]])"
    by (rule nutrition_value) (use assms in simp_all)
next
  fix i assume "row_norm p K 0 = Fin 0 \<or> row_norm F K i = Fin 0"
  then show "cosine p F K i = Fin 0" by (rule cosine_zero_norm)
next
  fix i assume "\<forall>j<K. F ! (i * K + j) = Fin 0"
  then have "row_norm F K i = Fin 0" by (rule row_norm_zeros)
  then show "cosine p F K i = Fin 0" by (simp add: cosine_zero_norm)
next
  assume "\<forall>j<K. p ! j = Fin 0"
  then have "row_norm p K 0 = Fin 0" by (intro row_norm_zeros) simp
  then have "cosine p F K i = Fin 0" for i by (simp add: cosine_zero_norm)
  then have "map (cosine p F K) [0..<R] = map (\<lambda>i. Fin 0) [0..<R]" by simp
  then show "map (cosine p F K) [0..<R] = replicate R (Fin 0)"
    by (simp add: map_replicate_const)
qed

theorem cosine_match_zero_norm_witness:
  "nutrition_optimization (\<lambda>k. Fin 7) [[Fin 0, Fin 0], [Fin 3, NaN]] \<lparr>dims = [2], data = 0\<rparr>
     \<lparr>dims = [1, 2], data = 1\<rparr>
   = Some (\<lparr>dims = [1], data = 2\<rparr>, [[Fin 0, Fin 0], [Fin 3, NaN], [Fin 0]])"
proof -
  let ?h = "[[Fin 0, Fin 0], [Fin 3, NaN]]"
  let ?p = "\<lparr>dims = [2], data = 0\<rparr>"
  let ?f = "\<lparr>dims = [1, 2], data = 1\<rparr>"
  have hyps: "dims ?f = [1, 2]" "data ?p < length ?h" "?h ! data ?p = [Fin 0, Fin 0]"
    "length [Fin 0, Fin 0 :: f32] = 2" "data ?f < length ?h" "?h ! data ?f = [Fin 3, NaN]"
    "length [Fin 3, NaN] = 1 * 2" "(1::nat) < 2 ^ 31" "(2::nat) < 2 ^ 31" "(1::nat) * 2 < 2 ^ 31"
    by simp_all
  note inst = cosine_match_zero_norm[OF hyps]
  have z: "\<forall>j<2. [Fin 0, Fin 0] ! j = Fin 0" by (auto simp: less_2_cases_iff)
  from inst have run: "nutrition_optimization (\<lambda>k. Fin 7) ?h ?p ?f
      = Some (\<lparr>dims = [1], data = length ?h\<rparr>,
              ?h @ [map (cosine [Fin 0, Fin 0] [Fin 3, NaN] 2) [0..<1]])"
    by (rule conjunct1)
  from inst z have "map (cosine [Fin 0, Fin 0] [Fin 3, NaN] 2) [0..<1] = replicate 1 (Fin 0)"
    by blast
  with run show ?thesis by simp
qed

lemma in_range_Fin [simp]: "in_range lo hi (Fin v) \<longleftrightarrow> lo \<le> v \<and> v \<le> hi"
  by (simp add: in_range_def)

lemma in_range_simps [simp]:
  "\<not> in_range lo hi NaN" "\<not> in_range lo hi PInf" "\<not> in_range lo hi NInf"
  by (simp_all add: in_range_def)

lemma in_rangeE:
  assumes "in_range lo hi x"
  obtains v where "x = Fin v" and "lo \<le> v" and "v \<le> hi"
  using assms by (cases x) simp_all

lemma round32_mono_upper:
  assumes "round32 y = Fin b" and "x \<le> y"
  shows "round32 x = NInf \<or> (\<exists>v. round32 x = Fin v \<and> v \<le> b)"
proof -
  have my: "round_mag \<bar>y\<bar> < 2 ^ 128" and b: "b = (if y < 0 then - round_mag \<bar>y\<bar> else round_mag \<bar>y\<bar>)"
    using round32_cases[of y] assms(1) by auto
  have nx: "0 \<le> round_mag \<bar>x\<bar>" by (rule round_mag_nonneg) simp
  show ?thesis
  proof (cases "x < 0")
    case True
    show ?thesis
    proof (cases "y < 0")
      case False
      with b have "0 \<le> b" by (simp add: round_mag_nonneg)
      then show ?thesis using round32_cases[of x] True nx by auto
    next
      case y: True
      then have "\<bar>y\<bar> \<le> \<bar>x\<bar>" using assms(2) by simp
      then have "round_mag \<bar>y\<bar> \<le> round_mag \<bar>x\<bar>" by (intro round_mag_mono) simp_all
      then have "- round_mag \<bar>x\<bar> \<le> b" using b y by simp
      then show ?thesis using round32_cases[of x] True by auto
    qed
  next
    case False
    then have "\<bar>x\<bar> \<le> \<bar>y\<bar>" and y0: "\<not> y < 0" using assms(2) by simp_all
    then have "round_mag \<bar>x\<bar> \<le> round_mag \<bar>y\<bar>" by (intro round_mag_mono) simp_all
    then have "round_mag \<bar>x\<bar> \<le> b" and "round_mag \<bar>x\<bar> < 2 ^ 128"
      using b y0 my by simp_all
    then show ?thesis using round32_cases[of x] False by auto
  qed
qed

lemma round32_mono_lower:
  assumes "round32 y = Fin a" and "y \<le> x"
  shows "round32 x = PInf \<or> (\<exists>v. round32 x = Fin v \<and> a \<le> v)"
proof -
  have "round32 (- y) = Fin (- a)" using assms(1) by (simp add: round32_neg)
  then have "round32 (- x) = NInf \<or> (\<exists>v. round32 (- x) = Fin v \<and> v \<le> - a)"
    using assms(2) by (intro round32_mono_upper[of "- y"]) simp_all
  then show ?thesis by (cases "round32 x") (auto simp: round32_neg)
qed

lemma round32_mono_between:
  assumes "round32 lo = Fin a" and "round32 hi = Fin b" and "lo \<le> x" and "x \<le> hi"
  shows "in_range a b (round32 x)"
  using round32_mono_upper[OF assms(2,4)] round32_mono_lower[OF assms(1,3)] by auto

lemma round32_repr_between:
  assumes "representable a" and "representable b" and "a \<le> x" and "x \<le> b"
  shows "in_range a b (round32 x)"
  using assms by (intro round32_mono_between) (simp_all add: representable_def)

lemma exp_ge_pow2: "2 ^ n \<le> exp (real n)"
proof -
  have "(2::real) \<le> exp 1" using exp_ge_add_one_self[of 1] by simp
  then have "(2::real) ^ n \<le> exp 1 ^ n" by (intro power_mono) simp_all
  also have "\<dots> = exp (real n)" using exp_of_nat_mult[of n "1::real"] by simp
  finally show ?thesis .
qed

lemma round32_tiny: "round32 (1 / 2 ^ 150) = Fin 0"
  by code_simp

lemma round32_underflow:
  assumes "0 \<le> x" and "x \<le> 1 / 2 ^ 150"
  shows "round32 x = Fin 0"
proof -
  have "in_range 0 0 (round32 x)"
    using round32_0 round32_tiny assms by (rule round32_mono_between)
  then show ?thesis by (cases "round32 x") simp_all
qed

lemma expf_neg_200: "expf (Fin (- 200)) = Fin 0"
proof -
  have "(2::real) ^ 150 \<le> 2 ^ 200" by simp
  also have "\<dots> \<le> exp (real 200)" by (rule exp_ge_pow2)
  finally have "2 ^ 150 \<le> exp (200::real)" by simp
  then have "exp (- 200 :: real) \<le> 1 / 2 ^ 150"
    by (simp add: exp_minus field_simps)
  then show ?thesis by (simp add: round32_underflow)
qed

lemma expf_200: "expf (Fin 200) = PInf"
proof -
  have "(2::real) ^ 128 \<le> 2 ^ 200" by simp
  also have "\<dots> \<le> exp (real 200)" by (rule exp_ge_pow2)
  finally have "2 ^ 128 \<le> exp (200::real)" by simp
  then show ?thesis by (simp add: round32_overflow)
qed

lemma sigmoid_200: "sigmoid (Fin 200) = Fin 1"
  using expf_neg_200 by (simp add: sigmoid_def)

lemma sigmoid_neg_200: "sigmoid (Fin (- 200)) = Fin 0"
  using expf_200 by (simp add: sigmoid_def)

lemma sigmoid_NaN [simp]: "sigmoid NaN = NaN"
  by (simp add: sigmoid_def)

lemma sigmoid_range:
  assumes "x \<noteq> NaN"
  shows "in_range 0 1 (sigmoid x)"
proof -
  have e: "expf (fneg x) = PInf \<or> (\<exists>e. expf (fneg x) = Fin e \<and> 0 \<le> e)"
  proof (cases x)
    case (Fin a)
    have "round32 (exp (- a)) = PInf \<or> (\<exists>v. round32 (exp (- a)) = Fin v \<and> 0 \<le> v)"
      by (rule round32_mono_lower[of 0]) simp_all
    with Fin show ?thesis by simp
  qed (use assms in simp_all)
  then show ?thesis
  proof
    assume "expf (fneg x) = PInf"
    then show ?thesis by (simp add: sigmoid_def)
  next
    assume "\<exists>e. expf (fneg x) = Fin e \<and> 0 \<le> e"
    then obtain e where e: "expf (fneg x) = Fin e" "0 \<le> e" by blast
    have "round32 (1 + e) = PInf \<or> (\<exists>v. round32 (1 + e) = Fin v \<and> 1 \<le> v)"
      using e(2) by (intro round32_mono_lower[of 1]) simp_all
    then show ?thesis
    proof
      assume "round32 (1 + e) = PInf"
      with e show ?thesis by (simp add: sigmoid_def)
    next
      assume "\<exists>v. round32 (1 + e) = Fin v \<and> 1 \<le> v"
      then obtain d where d: "round32 (1 + e) = Fin d" "1 \<le> d" by blast
      have "in_range 0 1 (round32 (1 / d))"
        using d(2) by (intro round32_repr_between) simp_all
      with e d show ?thesis by (simp add: sigmoid_def)
    qed
  qed
qed

lemma taylor_sum_12: "(\<Sum>m<12. (2::real) ^ m / fact m) = 164591 / 22275"
  by (simp add: eval_nat_numeral sum.lessThan_Suc)

lemma exp_2_bounds: "164591 / 22275 \<le> exp (2::real)" "exp (2::real) \<le> 164591 / 22275 + 1 / 10000"
proof -
  obtain t :: real where t: "\<bar>t\<bar> \<le> \<bar>2\<bar>"
    and e: "exp 2 = (\<Sum>m<12. 2 ^ m / fact m) + (exp t / fact 12) * 2 ^ 12"
    using Maclaurin_exp_le[of 2 12] by blast
  have "exp t \<le> exp 2" using t by simp
  also have "exp (2::real) = exp 1 * exp 1" using exp_add[of "1::real" 1] by simp
  also have "\<dots> \<le> 3 * 3" by (intro mult_mono exp_le) simp_all
  finally have t9: "exp t \<le> 9" by simp
  have f12: "fact 12 = (479001600::real)" by (simp add: eval_nat_numeral)
  have r0: "0 \<le> (exp t / fact 12) * 2 ^ 12" by simp
  have "(exp t / fact 12) * 2 ^ 12 \<le> (9 / 479001600) * 2 ^ 12"
    unfolding f12 using t9 by (intro mult_right_mono divide_right_mono) simp_all
  also have "\<dots> \<le> 1 / 10000" by simp
  finally have r1: "(exp t / fact 12) * 2 ^ 12 \<le> 1 / 10000" .
  show "164591 / 22275 \<le> exp (2::real)" using e r0 by (simp only: taylor_sum_12)
  show "exp (2::real) \<le> 164591 / 22275 + 1 / 10000" using e r1 by (simp only: taylor_sum_12)
qed

lemma exp_neg_2_bounds: "8869 / 65536 \<le> exp (- 2 :: real)" "exp (- 2 :: real) \<le> 8870 / 65536"
proof -
  have pos: "0 < exp (2::real)" by simp
  have "exp (2::real) \<le> 65536 / 8869" using exp_2_bounds(2) by simp
  then have "8869 * exp (2::real) \<le> 65536" by simp
  then show "8869 / 65536 \<le> exp (- 2 :: real)"
    using pos by (simp add: exp_minus field_simps)
  have "65536 / 8870 \<le> exp (2::real)" using exp_2_bounds(1) by simp
  then have "65536 \<le> 8870 * exp (2::real)" by simp
  then show "exp (- 2 :: real) \<le> 8870 / 65536"
    using pos by (simp add: exp_minus field_simps)
qed

lemma representable_dyadic:
  assumes "\<bar>m\<bar> \<le> 2 ^ 24" and "k \<le> 149"
  shows "representable (of_int m / 2 ^ k)"
proof (rule representableI[where m = m and k = "- int k"])
  show "real_of_int m / 2 ^ k = of_int m * 2 powi (- int k)"
    by (simp add: power_int_minus field_simps)
  show "\<bar>m\<bar> \<le> 2 ^ 24" by fact
  show "- 149 \<le> - int k" using assms(2) by simp
  have "real_of_int \<bar>m\<bar> \<le> of_int (2 ^ 24)" using assms(1) by (simp only: of_int_le_iff)
  then have m: "\<bar>real_of_int m\<bar> \<le> 2 ^ 24" by simp
  have "\<bar>real_of_int m / 2 ^ k\<bar> = \<bar>real_of_int m\<bar> / 2 ^ k" by simp
  also have "\<dots> \<le> \<bar>real_of_int m\<bar> / 1" by (intro divide_left_mono) simp_all
  also have "\<dots> \<le> 2 ^ 24" using m by simp
  also have "(2::real) ^ 24 < 2 ^ 128" by simp
  finally show "\<bar>real_of_int m / 2 ^ k\<bar> < 2 ^ 128" .
qed

lemma sigmoid_2_approx: "in_range (8807 / 10000) (8809 / 10000) (sigmoid (Fin 2))"
proof -
  have r1: "representable (8869 / 65536)" "representable (8870 / 65536)"
    using representable_dyadic[of 8869 16] representable_dyadic[of 8870 16] by simp_all
  have "in_range (8869 / 65536) (8870 / 65536) (round32 (exp (- 2)))"
    using r1 exp_neg_2_bounds by (rule round32_repr_between)
  then obtain e where e: "round32 (exp (- 2)) = Fin e" "8869 / 65536 \<le> e" "e \<le> 8870 / 65536"
    by (rule in_rangeE)
  have r2: "representable (74405 / 65536)" "representable (74406 / 65536)"
    using representable_dyadic[of 74405 16] representable_dyadic[of 74406 16] by simp_all
  have "in_range (74405 / 65536) (74406 / 65536) (round32 (1 + e))"
    using r2 e(2,3) by (intro round32_repr_between) simp_all
  then obtain d where d: "round32 (1 + e) = Fin d" "74405 / 65536 \<le> d" "d \<le> 74406 / 65536"
    by (rule in_rangeE)
  have d0: "0 < d" using d(2) by simp
  have r3: "representable (57718 / 65536)" "representable (57725 / 65536)"
    using representable_dyadic[of 57718 16] representable_dyadic[of 57725 16] by simp_all
  have lo: "57718 / 65536 \<le> 1 / d"
  proof -
    have "57718 * d \<le> 65536" using d(3) by simp
    then show ?thesis using d0 by (simp add: field_simps)
  qed
  have hi: "1 / d \<le> 57725 / 65536"
  proof -
    have "65536 \<le> 57725 * d" using d(2) by simp
    then show ?thesis using d0 by (simp add: field_simps)
  qed
  have "in_range (57718 / 65536) (57725 / 65536) (round32 (1 / d))"
    using r3 lo hi by (rule round32_repr_between)
  then obtain v where v: "round32 (1 / d) = Fin v" "57718 / 65536 \<le> v" "v \<le> 57725 / 65536"
    by (rule in_rangeE)
  have "sigmoid (Fin 2) = Fin v" using e(1) d(1) v(1) d0 by (simp add: sigmoid_def)
  moreover have "8807 / 10000 \<le> v" using v(2) by simp
  moreover have "v \<le> 8809 / 10000" using v(3) by simp
  ultimately show ?thesis by simp
qed

lemma round32_numeral [simp]:
  "(numeral k :: int) \<le> 2 ^ 24 \<Longrightarrow> round32 (numeral k) = Fin (numeral k)"
  using representable_int[of "numeral k"] by (simp add: representable_def)

lemma round32_neg_numeral [simp]:
  "(numeral k :: int) \<le> 2 ^ 24 \<Longrightarrow> round32 (- numeral k) = Fin (- numeral k)"
  by (simp add: round32_neg)

lemma syndrome_weighted:
  assumes "dims symptoms = [N]" and "dims patterns = [M, N]"
    and "data symptoms < length h" and "h ! data symptoms = s" and "length s = N"
    and "data weights < length h" and "h ! data weights = w" and "length w = N"
    and "data patterns < length h" and "h ! data patterns = P" and "length P = M * N"
    and "N < 2 ^ 31" and "M < 2 ^ 31" and "M * N < 2 ^ 31"
  shows "tcm_syndrome_analysis old h symptoms weights patterns
         = Some (\<lparr>dims = [M], data = length h\<rparr>,
                 h @ [map (\<lambda>i. sigmoid (weighted_sum s w P N i)) [0..<M]])"
  unfolding weighted_sum_def by (rule syndrome_value) (use assms in simp_all)

text \<open>
  Claim C1. For a symptom vector \<open>s\<close> and a weight vector \<open>w\<close> of length \<open>N\<close> and a pattern
  matrix \<open>P\<close> of \<open>M\<close> rows of width \<open>N\<close>, \<^verbatim>\<open>tcm_syndrome_analysis\<close> returns the vector of
  length \<open>M\<close> whose entry \<open>i\<close> is \<open>sigmoid(\<Sum>\<^sub>j s[j] * w[j] * P[i][j])\<close>; for \<open>s = [1, 1]\<close>,
  \<open>w = [1, 1]\<close>, \<open>P = [[1, 1]]\<close> the single output is \<open>sigmoid(2)\<close>, which is 0.8808 to
  four decimals.
\<close>

theorem syndrome_score_formula:
  assumes "dims symptoms = [N]" and "dims weights = [N]" and "dims patterns = [M, N]"
    and "data symptoms < length h" and "h ! data symptoms = s" and "length s = N"
    and "data weights < length h" and "h ! data weights = w" and "length w = N"
    and "data patterns < length h" and "h ! data patterns = P" and "length P = M * N"
    and "N < 2 ^ 31" and "M < 2 ^ 31" and "M * N < 2 ^ 31"
  shows "tcm_syndrome_analysis old h symptoms weights patterns
         = Some (\<lparr>dims = [M], data = length h\<rparr>,
                 h @ [map (\<lambda>i. sigmoid (weighted_sum s w P N i)) [0..<M]])
         \<and> tcm_syndrome_analysis (\<lambda>k. Fin 7) [[Fin 1, Fin 1], [Fin 1, Fin 1], [Fin 1, Fin 1]]
              \<lparr>dims = [2], data = 0\<rparr> \<lparr>dims = [2], data = 1\<rparr> \<lparr>dims = [1, 2], data = 2\<rparr>
           = Some (\<lparr>dims = [1], data = 3\<rparr>,
                   [[Fin 1, Fin 1], [Fin 1, Fin 1], [Fin 1, Fin 1], [sigmoid (Fin 2)]])
         \<and> in_range (8807 / 10000) (8809 / 10000) (sigmoid (Fin 2))"
proof (intro conjI)
  show "tcm_syndrome_analysis old h symptoms weights patterns
         = Some (\<lparr>dims = [M], data = length h\<rparr>,
                 h @ [map (\<lambda>i. sigmoid (weighted_sum s w P N i)) [0..<M]])"
    by (rule syndrome_weighted) (use assms in simp_all)
  show "tcm_syndrome_analysis (\<lambda>k. Fin 7) [[Fin 1, Fin 1], [Fin 1, Fin 1], [Fin 1, Fin 1]]
              \<lparr>dims = [2], data = 0\<rparr> \<lparr>dims = [2], data = 1\<rparr> \<lparr>dims = [1, 2], data = 2\<rparr>
           = Some (\<lparr>dims = [1], data = 3\<rparr>,
                   [[Fin 1, Fin 1], [Fin 1, Fin 1], [Fin 1, Fin 1], [sigmoid (Fin 2)]])"
    using syndrome_weighted[where old = "\<lambda>k. Fin 7" and h = "[[Fin 1, Fin 1], [Fin 1, Fin 1], [Fin 1, Fin 1]]"
        and N = 2 and M = 1 and symptoms = "\<lparr>dims = [2], data = 0\<rparr>"
        and weights = "\<lparr>dims = [2], data = 1\<rparr>" and patterns = "\<lparr>dims = [1, 2], data = 2\<rparr>"]
    by (simp add: weighted_sum_def fsum_def upt_conv_Cons)
  show "in_range (8807 / 10000) (8809 / 10000) (sigmoid (Fin 2))"
    by (rule sigmoid_2_approx)
qed

theorem syndrome_score_formula_witness:
  "tcm_syndrome_analysis (\<lambda>k. Fin 7) [[Fin 1, Fin 2], [Fin 3, Fin 1], [Fin 1, Fin 0, Fin 0, Fin 1]]
     \<lparr>dims = [2], data = 0\<rparr> \<lparr>dims = [2], data = 1\<rparr> \<lparr>dims = [2, 2], data = 2\<rparr>
   = Some (\<lparr>dims = [2], data = 3\<rparr>,
           [[Fin 1, Fin 2], [Fin 3, Fin 1], [Fin 1, Fin 0, Fin 0, Fin 1],
            [sigmoid (Fin 3), sigmoid (Fin 2)]])"
  using syndrome_score_formula[where old = "\<lambda>k. Fin 7" and h = "[[Fin 1, Fin 2], [Fin 3, Fin 1], [Fin 1, Fin 0, Fin 0, Fin 1]]"
      and N = 2 and M = 2 and symptoms = "\<lparr>dims = [2], data = 0\<rparr>"
      and weights = "\<lparr>dims = [2], data = 1\<rparr>" and patterns = "\<lparr>dims = [2, 2], data = 2\<rparr>"]
  by (simp add: weighted_sum_def fsum_def upt_conv_Cons)

text \<open>
  Claim C4, as the code has it. On valid input every element \<^verbatim>\<open>tcm_syndrome_analysis\<close>
  returns lies in the closed interval from 0 to 1, except that it is NaN when the
  accumulated score is NaN. The bounds themselves are returned: binary32 rounds
  \<open>1 + e^-x\<close> to 1 for large \<open>x\<close>, and \<open>e^-x\<close> overflows for very negative \<open>x\<close>.
\<close>

theorem syndrome_score_closed_range:
  assumes "dims symptoms = [N]" and "dims weights = [N]" and "dims patterns = [M, N]"
    and "data symptoms < length h" and "h ! data symptoms = s" and "length s = N"
    and "data weights < length h" and "h ! data weights = w" and "length w = N"
    and "data patterns < length h" and "h ! data patterns = P" and "length P = M * N"
    and "N < 2 ^ 31" and "M < 2 ^ 31" and "M * N < 2 ^ 31"
  shows "tcm_syndrome_analysis old h symptoms weights patterns
         = Some (\<lparr>dims = [M], data = length h\<rparr>,
                 h @ [map (\<lambda>i. sigmoid (weighted_sum s w P N i)) [0..<M]])
         \<and> (\<forall>i<M. if weighted_sum s w P N i = NaN
                   then sigmoid (weighted_sum s w P N i) = NaN
                   else in_range 0 1 (sigmoid (weighted_sum s w P N i)))"
proof (intro conjI allI impI)
  show "tcm_syndrome_analysis old h symptoms weights patterns
         = Some (\<lparr>dims = [M], data = length h\<rparr>,
                 h @ [map (\<lambda>i. sigmoid (weighted_sum s w P N i)) [0..<M]])"
    by (rule syndrome_weighted) (use assms in simp_all)
next
  fix i
  show "if weighted_sum s w P N i = NaN
        then sigmoid (weighted_sum s w P N i) = NaN
        else in_range 0 1 (sigmoid (weighted_sum s w P N i))"
    by (simp add: sigmoid_range)
qed

theorem syndrome_score_closed_range_witness:
  "tcm_syndrome_analysis (\<lambda>k. Fin 7) [[Fin 1, Fin 2], [Fin 3, Fin 1], [Fin 1, Fin 0, Fin 0, Fin 1]]
     \<lparr>dims = [2], data = 0\<rparr> \<lparr>dims = [2], data = 1\<rparr> \<lparr>dims = [2, 2], data = 2\<rparr>
   = Some (\<lparr>dims = [2], data = 3\<rparr>,
           [[Fin 1, Fin 2], [Fin 3, Fin 1], [Fin 1, Fin 0, Fin 0, Fin 1],
            [sigmoid (Fin 3), sigmoid (Fin 2)]])
   \<and> in_range 0 1 (sigmoid (Fin 3)) \<and> in_range 0 1 (sigmoid (Fin 2))"
proof -
  let ?h = "[[Fin 1, Fin 2], [Fin 3, Fin 1], [Fin 1, Fin 0, Fin 0, Fin 1]]"
  let ?s = "\<lparr>dims = [2], data = 0\<rparr>"
  let ?w = "\<lparr>dims = [2], data = 1\<rparr>"
  let ?P = "\<lparr>dims = [2, 2], data = 2\<rparr>"
  have hyps: "dims ?s = [2]" "dims ?w = [2]" "dims ?P = [2, 2]"
    "data ?s < length ?h" "?h ! data ?s = [Fin 1, Fin 2]" "length [Fin 1, Fin 2 :: f32] = 2"
    "data ?w < length ?h" "?h ! data ?w = [Fin 3, Fin 1]" "length [Fin 3, Fin 1 :: f32] = 2"
    "data ?P < length ?h" "?h ! data ?P = [Fin 1, Fin 0, Fin 0, Fin 1]"
    "length [Fin 1, Fin 0, Fin 0, Fin 1 :: f32] = 2 * 2"
    "(2::nat) < 2 ^ 31" "(2::nat) < 2 ^ 31" "(2::nat) * 2 < 2 ^ 31"
    by simp_all
  note inst = syndrome_score_closed_range[OF hyps]
  have w0: "weighted_sum [Fin 1, Fin 2] [Fin 3, Fin 1] [Fin 1, Fin 0, Fin 0, Fin 1] 2 0 = Fin 3"
    and w1: "weighted_sum [Fin 1, Fin 2] [Fin 3, Fin 1] [Fin 1, Fin 0, Fin 0, Fin 1] 2 1 = Fin 2"
    by (simp_all add: weighted_sum_def fsum_def upt_conv_Cons)
  from inst have run: "tcm_syndrome_analysis (\<lambda>k. Fin 7) ?h ?s ?w ?P
      = Some (\<lparr>dims = [2], data = length ?h\<rparr>,
          ?h @ [map (\<lambda>i. sigmoid (weighted_sum [Fin 1, Fin 2] [Fin 3, Fin 1]
                                    [Fin 1, Fin 0, Fin 0, Fin 1] 2 i)) [0..<2]])"
    by (rule conjunct1)
  from inst have rng: "\<forall>i<2. if weighted_sum [Fin 1, Fin 2] [Fin 3, Fin 1]
                                  [Fin 1, Fin 0, Fin 0, Fin 1] 2 i = NaN
      then sigmoid (weighted_sum [Fin 1, Fin 2] [Fin 3, Fin 1] [Fin 1, Fin 0, Fin 0, Fin 1] 2 i) = NaN
      else in_range 0 1 (sigmoid (weighted_sum [Fin 1, Fin 2] [Fin 3, Fin 1]
                                    [Fin 1, Fin 0, Fin 0, Fin 1] 2 i))"
    by (rule conjunct2)
  from rng[rule_format, of 0] w0 have "in_range 0 1 (sigmoid (Fin 3))" by simp
  moreover from rng[rule_format, of 1] w1 have "in_range 0 1 (sigmoid (Fin 2))" by simp
  moreover from run w0 w1 have "tcm_syndrome_analysis (\<lambda>k. Fin 7) ?h ?s ?w ?P
      = Some (\<lparr>dims = [2], data = 3\<rparr>, ?h @ [[sigmoid (Fin 3), sigmoid (Fin 2)]])"
    by (simp add: upt_conv_Cons)
  ultimately show ?thesis by simp
qed

lemma round32_2_129: "round32 (2 ^ 129) = PInf"
  by (rule round32_overflow) simp

theorem syndrome_score_bounds_attained:
  "tcm_syndrome_analysis (\<lambda>k. Fin 7) [[Fin 200], [Fin 1], [Fin 1, Fin (- 1)]]
     \<lparr>dims = [1], data = 0\<rparr> \<lparr>dims = [1], data = 1\<rparr> \<lparr>dims = [2, 1], data = 2\<rparr>
   = Some (\<lparr>dims = [2], data = 3\<rparr>, [[Fin 200], [Fin 1], [Fin 1, Fin (- 1)], [Fin 1, Fin 0]])
   \<and> \<not> in_open_range 0 1 (Fin 1) \<and> \<not> in_open_range 0 1 (Fin 0)
   \<and> tcm_syndrome_analysis (\<lambda>k. Fin 7) [[Fin (2 ^ 127), Fin (2 ^ 127)], [Fin 4, Fin 4], [Fin 1, Fin (- 1)]]
     \<lparr>dims = [2], data = 0\<rparr> \<lparr>dims = [2], data = 1\<rparr> \<lparr>dims = [1, 2], data = 2\<rparr>
   = Some (\<lparr>dims = [1], data = 3\<rparr>,
           [[Fin (2 ^ 127), Fin (2 ^ 127)], [Fin 4, Fin 4], [Fin 1, Fin (- 1)], [NaN]])
   \<and> \<not> in_open_range 0 1 NaN"
proof (intro conjI)
  show "tcm_syndrome_analysis (\<lambda>k. Fin 7) [[Fin 200], [Fin 1], [Fin 1, Fin (- 1)]]
     \<lparr>dims = [1], data = 0\<rparr> \<lparr>dims = [1], data = 1\<rparr> \<lparr>dims = [2, 1], data = 2\<rparr>
   = Some (\<lparr>dims = [2], data = 3\<rparr>, [[Fin 200], [Fin 1], [Fin 1, Fin (- 1)], [Fin 1, Fin 0]])"
    using syndrome_weighted[where old = "\<lambda>k. Fin 7" and h = "[[Fin 200], [Fin 1], [Fin 1, Fin (- 1)]]"
        and N = 1 and M = 2 and symptoms = "\<lparr>dims = [1], data = 0\<rparr>"
        and weights = "\<lparr>dims = [1], data = 1\<rparr>" and patterns = "\<lparr>dims = [2, 1], data = 2\<rparr>"]
      sigmoid_200 sigmoid_neg_200
    by (simp add: weighted_sum_def fsum_def upt_conv_Cons)
  show "tcm_syndrome_analysis (\<lambda>k. Fin 7) [[Fin (2 ^ 127), Fin (2 ^ 127)], [Fin 4, Fin 4], [Fin 1, Fin (- 1)]]
     \<lparr>dims = [2], data = 0\<rparr> \<lparr>dims = [2], data = 1\<rparr> \<lparr>dims = [1, 2], data = 2\<rparr>
   = Some (\<lparr>dims = [1], data = 3\<rparr>,
           [[Fin (2 ^ 127), Fin (2 ^ 127)], [Fin 4, Fin 4], [Fin 1, Fin (- 1)], [NaN]])"
    using syndrome_weighted[where old = "\<lambda>k. Fin 7" and h = "[[Fin (2 ^ 127), Fin (2 ^ 127)], [Fin 4, Fin 4], [Fin 1, Fin (- 1)]]"
        and N = 2 and M = 1 and symptoms = "\<lparr>dims = [2], data = 0\<rparr>"
        and weights = "\<lparr>dims = [2], data = 1\<rparr>" and patterns = "\<lparr>dims = [1, 2], data = 2\<rparr>"]
      round32_2_129
    by (simp add: weighted_sum_def fsum_def upt_conv_Cons inf_signed_def)
qed (simp_all add: in_open_range_def)

lemma gaussian_rows:
  assumes "dims database = [R, L]"
    and "data query < length h" and "h ! data query = q" and "length q = L"
    and "data database < length h" and "h ! data database = D" and "length D = R * L"
    and "L < 2 ^ 31" and "R < 2 ^ 31" and "R * L < 2 ^ 31"
  shows "pattern_matching old h query database
         = Some (\<lparr>dims = [R], data = length h\<rparr>, h @ [map (gaussian_row q D L) [0..<R]])"
proof -
  have "pattern_matching old h query database
        = Some (\<lparr>dims = [R], data = length h\<rparr>,
                h @ [map (\<lambda>i. fdiv (fsum (map (\<lambda>j. gauss_term (q ! j) (D ! (i * L + j))) [0..<L]))
                                   (int_to_float (int L))) [0..<R]])"
    by (rule gaussian_value) (use assms in simp_all)
  then show ?thesis unfolding gaussian_row_def .
qed

lemma is_finiteE:
  assumes "is_finite x"
  obtains a where "x = Fin a"
  using assms by (cases x) simp_all

lemma expf_nonpos_range:
  assumes "y \<le> 0"
  shows "in_range 0 1 (expf (Fin y))"
proof -
  have "in_range 0 1 (round32 (exp y))"
    using assms by (intro round32_repr_between) simp_all
  then show ?thesis by simp
qed

lemma gauss_term_range:
  assumes "is_finite q" and "is_finite d"
  shows "in_range 0 1 (gauss_term q d)"
proof -
  from assms obtain a b where q: "q = Fin a" and d: "d = Fin b" by (cases q; cases d) simp_all
  have sub: "fsub q d = round32 (a - b)" by (simp add: q d fsub_def)
  show ?thesis
  proof (cases "round32 (a - b)")
    case NaN
    then show ?thesis by simp
  next
    case PInf
    then show ?thesis by (simp add: gauss_term_def sub inf_signed_def)
  next
    case NInf
    then show ?thesis by (simp add: gauss_term_def sub inf_signed_def)
  next
    case (Fin z)
    have "round32 (z * z) = PInf \<or> (\<exists>v. round32 (z * z) = Fin v \<and> 0 \<le> v)"
      by (rule round32_mono_lower[of 0]) simp_all
    then show ?thesis
    proof
      assume "round32 (z * z) = PInf"
      then show ?thesis by (simp add: gauss_term_def sub Fin)
    next
      assume "\<exists>v. round32 (z * z) = Fin v \<and> 0 \<le> v"
      then obtain y where y: "round32 (z * z) = Fin y" "0 \<le> y" by blast
      have "in_range 0 1 (expf (Fin (- y)))" using y(2) by (intro expf_nonpos_range) simp
      then show ?thesis using y(1) by (simp add: gauss_term_def sub Fin del: expf.simps)
    qed
  qed
qed

lemma gauss_term_same: "gauss_term (Fin a) (Fin a) = Fin 1"
  by (simp add: gauss_term_def fsub_def)

lemma fsum_snoc: "fsum (xs @ [x]) = fadd (fsum xs) x"
  by (simp add: fsum_def)

lemma round32_2_24_1: "round32 (2 ^ 24 + 1) = Fin (2 ^ 24)"
  by code_simp

lemma fsum_unit_bound:
  assumes "\<forall>x \<in> set xs. in_range 0 1 x"
  shows "in_range 0 (min (real (length xs)) (2 ^ 24)) (fsum xs)"
  using assms
proof (induction xs rule: rev_induct)
  case Nil
  then show ?case by simp
next
  case (snoc t xs)
  let ?n = "length xs"
  from snoc have "in_range 0 (min (real ?n) (2 ^ 24)) (fsum xs)" by simp
  then obtain s where s: "fsum xs = Fin s" "0 \<le> s" "s \<le> min (real ?n) (2 ^ 24)"
    by (rule in_rangeE)
  from snoc.prems have "in_range 0 1 t" by simp
  then obtain e where e: "t = Fin e" "0 \<le> e" "e \<le> 1" by (rule in_rangeE)
  have sum: "fsum (xs @ [t]) = round32 (s + e)" by (simp add: fsum_snoc s(1) e(1))
  show ?case
  proof (cases "Suc ?n \<le> 2 ^ 24")
    case True
    then have "int (Suc ?n) \<le> 2 ^ 24" by (metis of_nat_le_iff of_nat_numeral of_nat_power)
    then have "representable (of_int (int (Suc ?n)))" by (intro representable_int) simp
    then have r: "representable (real (Suc ?n))" by simp
    have "s + e \<le> real (Suc ?n)" using s(3) e(3) by simp
    then have "in_range 0 (real (Suc ?n)) (round32 (s + e))"
      using r s(2) e(2) by (intro round32_repr_between) simp_all
    moreover have "min (real (Suc ?n)) (2 ^ 24) = real (Suc ?n)"
    proof -
      have "real (Suc ?n) \<le> real (2 ^ 24)" using True by (simp only: of_nat_le_iff)
      then show ?thesis by simp
    qed
    ultimately show ?thesis by (simp add: sum)
  next
    case False
    then have big: "(2::real) ^ 24 \<le> real (Suc ?n)"
      by (metis linorder_le_cases of_nat_le_iff of_nat_numeral of_nat_power)
    have "s + e \<le> 2 ^ 24 + 1" using s(3) e(3) by simp
    then have "in_range 0 (2 ^ 24) (round32 (s + e))"
      using s(2) e(2) by (intro round32_mono_between[of 0 0 "2 ^ 24 + 1"] round32_2_24_1) simp_all
    moreover have "min (real (Suc ?n)) (2 ^ 24) = 2 ^ 24" using big by simp
    ultimately show ?thesis by (simp add: sum)
  qed
qed

lemma fsum_ones:
  assumes "\<forall>x \<in> set xs. x = Fin 1" and "length xs \<le> 2 ^ 24"
  shows "fsum xs = Fin (real (length xs))"
  using assms
proof (induction xs rule: rev_induct)
  case Nil
  then show ?case by simp
next
  case (snoc t xs)
  then have ih: "fsum xs = Fin (real (length xs))" and t: "t = Fin 1" by simp_all
  have "int (Suc (length xs)) \<le> 2 ^ 24"
    using snoc.prems(2) by (metis length_append_singleton of_nat_le_iff of_nat_numeral of_nat_power)
  then have "representable (of_int (int (Suc (length xs))))" by (intro representable_int) simp
  then have "round32 (real (length xs) + 1) = Fin (real (length xs) + 1)"
    by (simp add: representable_def add.commute)
  then show ?case by (simp add: fsum_snoc ih t)
qed

lemma real_less_pow2: "n < 2 ^ k \<Longrightarrow> real n \<le> 2 ^ k"
  by (metis less_imp_le of_nat_le_iff of_nat_numeral of_nat_power)

lemma representable_2_31: "representable (2 ^ 31)"
  by (rule representableI[where m = 1 and k = 31]) simp_all

lemma representable_2_24: "representable (2 ^ 24)"
  using representable_int[of "2 ^ 24"] by simp

lemma int_to_float_lower:
  assumes "0 < L" and "L < 2 ^ 31"
  shows "in_range (min (real L) (2 ^ 24)) (2 ^ 31) (int_to_float (int L))"
proof (cases "L \<le> 2 ^ 24")
  case True
  then have "int L \<le> 2 ^ 24" by (metis of_nat_le_iff of_nat_numeral of_nat_power)
  then have "representable (of_int (int L))" by (intro representable_int) simp
  then have "int_to_float (int L) = Fin (real L)" by (simp add: int_to_float_def representable_def)
  moreover have "real L \<le> 2 ^ 31" using assms(2) by (rule real_less_pow2)
  ultimately show ?thesis by simp
next
  case False
  then have big: "(2::real) ^ 24 \<le> real L"
    by (metis linorder_le_cases of_nat_le_iff of_nat_numeral of_nat_power)
  have "real L \<le> 2 ^ 31" using assms(2) by (rule real_less_pow2)
  with big have "in_range (2 ^ 24) (2 ^ 31) (round32 (real L))"
    by (intro round32_repr_between representable_2_24 representable_2_31)
  moreover have "min (real L) (2 ^ 24) = 2 ^ 24" using big by simp
  ultimately show ?thesis by (simp add: int_to_float_def)
qed

lemma gaussian_row_range:
  assumes "0 < L" and "L < 2 ^ 31"
    and "\<forall>j<L. is_finite (q ! j) \<and> is_finite (D ! (i * L + j))"
  shows "in_range 0 1 (gaussian_row q D L i)"
proof -
  let ?ts = "map (\<lambda>j. gauss_term (q ! j) (D ! (i * L + j))) [0..<L]"
  have "\<forall>x \<in> set ?ts. in_range 0 1 x" using assms(3) by (auto intro: gauss_term_range)
  then have "in_range 0 (min (real (length ?ts)) (2 ^ 24)) (fsum ?ts)" by (rule fsum_unit_bound)
  then obtain s where s: "fsum ?ts = Fin s" "0 \<le> s" "s \<le> min (real L) (2 ^ 24)"
    by (rule in_rangeE) simp
  obtain l where l: "int_to_float (int L) = Fin l" "min (real L) (2 ^ 24) \<le> l"
    using int_to_float_lower[OF assms(1,2)] by (rule in_rangeE)
  have l0: "0 < l" using l(2) assms(1) by (simp add: min_def split: if_splits)
  have "s \<le> l" using s(3) l(2) by linarith
  then have "s / l \<le> 1" using l0 by simp
  then have "in_range 0 1 (round32 (s / l))"
    using s(2) l0 by (intro round32_repr_between) simp_all
  then show ?thesis using l0 by (simp add: gaussian_row_def s(1) l(1))
qed

lemma gaussian_row_same:
  assumes "0 < L" and "L \<le> 2 ^ 24"
    and "\<forall>j<L. \<exists>a. q ! j = Fin a \<and> D ! (i * L + j) = Fin a"
  shows "gaussian_row q D L i = Fin 1"
proof -
  let ?ts = "map (\<lambda>j. gauss_term (q ! j) (D ! (i * L + j))) [0..<L]"
  have "\<forall>x \<in> set ?ts. x = Fin 1" using assms(3) by (auto simp: gauss_term_same)
  then have "fsum ?ts = Fin (real (length ?ts))" using assms(2) by (intro fsum_ones) simp_all
  then have s: "fsum ?ts = Fin (real L)" by simp
  have "int L \<le> 2 ^ 24" using assms(2) by (metis of_nat_le_iff of_nat_numeral of_nat_power)
  then have "representable (of_int (int L))" by (intro representable_int) simp
  then have l: "int_to_float (int L) = Fin (real L)" by (simp add: int_to_float_def representable_def)
  show ?thesis using assms(1) by (simp add: gaussian_row_def s l)
qed

text \<open>
  Claim C3, as the code has it. For a query \<open>q\<close> of length \<open>L\<close> and a database of \<open>R\<close> rows
  of width \<open>L\<close>, \<^verbatim>\<open>pattern_matching\<close> returns for row \<open>i\<close> the sum over \<open>j\<close> of
  \<open>exp(-(q[j] - D[i][j])^2)\<close> divided by \<open>L\<close>. For finite entries and \<open>L \<ge> 1\<close> every
  returned value lies in the closed interval from 0 to 1. A row that equals the query
  gives exactly 1 (for \<open>L\<close> up to \<open>2^24\<close>); rows that differ from the query can give 1 as
  well, and far rows give exactly 0.
\<close>

theorem gaussian_match_closed_range:
  assumes "dims database = [R, L]"
    and "data query < length h" and "h ! data query = q" and "length q = L"
    and "data database < length h" and "h ! data database = D" and "length D = R * L"
    and "L < 2 ^ 31" and "R < 2 ^ 31" and "R * L < 2 ^ 31"
  shows "pattern_matching old h query database
         = Some (\<lparr>dims = [R], data = length h\<rparr>, h @ [map (gaussian_row q D L) [0..<R]])
         \<and> (\<forall>i<R. 0 < L \<and> (\<forall>j<L. is_finite (q ! j) \<and> is_finite (D ! (i * L + j)))
                \<longrightarrow> in_range 0 1 (gaussian_row q D L i))
         \<and> (\<forall>i<R. 0 < L \<and> L \<le> 2 ^ 24 \<and> (\<forall>j<L. \<exists>a. q ! j = Fin a \<and> D ! (i * L + j) = Fin a)
                \<longrightarrow> gaussian_row q D L i = Fin 1)"
proof (intro conjI allI impI)
  show "pattern_matching old h query database
         = Some (\<lparr>dims = [R], data = length h\<rparr>, h @ [map (gaussian_row q D L) [0..<R]])"
    by (rule gaussian_rows) (use assms in simp_all)
next
  fix i
  assume "0 < L \<and> (\<forall>j<L. is_finite (q ! j) \<and> is_finite (D ! (i * L + j)))"
  then show "in_range 0 1 (gaussian_row q D L i)"
    using assms(8) by (intro gaussian_row_range) simp_all
next
  fix i
  assume "0 < L \<and> L \<le> 2 ^ 24 \<and> (\<forall>j<L. \<exists>a. q ! j = Fin a \<and> D ! (i * L + j) = Fin a)"
  then show "gaussian_row q D L i = Fin 1"
    by (intro gaussian_row_same) simp_all
qed

theorem gaussian_match_closed_range_witness:
  "pattern_matching (\<lambda>k. Fin 7) [[Fin 1, Fin 2], [Fin 1, Fin 2, Fin 1, Fin 3]]
     \<lparr>dims = [2], data = 0\<rparr> \<lparr>dims = [2, 2], data = 1\<rparr>
   = Some (\<lparr>dims = [2], data = 2\<rparr>,
           [[Fin 1, Fin 2], [Fin 1, Fin 2, Fin 1, Fin 3],
            [Fin 1, gaussian_row [Fin 1, Fin 2] [Fin 1, Fin 2, Fin 1, Fin 3] 2 1]])
   \<and> in_range 0 1 (gaussian_row [Fin 1, Fin 2] [Fin 1, Fin 2, Fin 1, Fin 3] 2 1)"
proof -
  let ?h = "[[Fin 1, Fin 2], [Fin 1, Fin 2, Fin 1, Fin 3]]"
  let ?q = "\<lparr>dims = [2], data = 0\<rparr>"
  let ?d = "\<lparr>dims = [2, 2], data = 1\<rparr>"
  let ?Q = "[Fin 1, Fin 2]"
  let ?D = "[Fin 1, Fin 2, Fin 1, Fin 3]"
  have hyps: "dims ?d = [2, 2]" "data ?q < length ?h" "?h ! data ?q = ?Q" "length ?Q = 2"
    "data ?d < length ?h" "?h ! data ?d = ?D" "length ?D = 2 * 2"
    "(2::nat) < 2 ^ 31" "(2::nat) < 2 ^ 31" "(2::nat) * 2 < 2 ^ 31"
    by simp_all
  note inst = gaussian_match_closed_range[OF hyps]
  from inst have run: "pattern_matching (\<lambda>k. Fin 7) ?h ?q ?d
      = Some (\<lparr>dims = [2], data = length ?h\<rparr>, ?h @ [map (gaussian_row ?Q ?D 2) [0..<2]])"
    by (rule conjunct1)
  from inst have rng: "\<forall>i<2. 0 < (2::nat) \<and> (\<forall>j<2. is_finite (?Q ! j) \<and> is_finite (?D ! (i * 2 + j)))
                \<longrightarrow> in_range 0 1 (gaussian_row ?Q ?D 2 i)"
    by (rule conjunct1[OF conjunct2])
  from inst have same: "\<forall>i<2. 0 < (2::nat) \<and> (2::nat) \<le> 2 ^ 24
                \<and> (\<forall>j<2. \<exists>a. ?Q ! j = Fin a \<and> ?D ! (i * 2 + j) = Fin a)
                \<longrightarrow> gaussian_row ?Q ?D 2 i = Fin 1"
    by (rule conjunct2[OF conjunct2])
  have "\<forall>j<2. is_finite (?Q ! j) \<and> is_finite (?D ! (1 * 2 + j))"
    by (auto simp: less_2_cases_iff)
  with rng have r1: "in_range 0 1 (gaussian_row ?Q ?D 2 1)" by simp
  have "\<forall>j<2. \<exists>a. ?Q ! j = Fin a \<and> ?D ! (0 * 2 + j) = Fin a"
    by (auto simp: less_2_cases_iff)
  with same have r0: "gaussian_row ?Q ?D 2 0 = Fin 1" by simp
  from run r0 have "pattern_matching (\<lambda>k. Fin 7) ?h ?q ?d
      = Some (\<lparr>dims = [2], data = 2\<rparr>, ?h @ [[Fin 1, gaussian_row ?Q ?D 2 1]])"
    by (simp add: upt_conv_Cons)
  with r1 show ?thesis by simp
qed

lemma round32_below_1: "round32 (1 - 1 / 2 ^ 26) = Fin 1"
  by code_simp

lemma expf_neg_40000: "expf (Fin (- 40000)) = Fin 0"
proof -
  have "(2::real) ^ 150 \<le> 2 ^ 40000" by (intro power_increasing) simp_all
  also have "\<dots> \<le> exp (real 40000)" by (rule exp_ge_pow2)
  finally have "2 ^ 150 \<le> exp (40000::real)" by simp
  then have "exp (- 40000 :: real) \<le> 1 / 2 ^ 150"
    by (simp add: exp_minus field_simps)
  then show ?thesis by (simp add: round32_underflow)
qed

lemma expf_tiny: "expf (Fin (- (1 / 2 ^ 26))) = Fin 1"
proof -
  have "1 + (- (1 / 2 ^ 26)) \<le> exp (- (1 / 2 ^ 26) :: real)" by (rule exp_ge_add_one_self)
  then have lo: "1 - 1 / 2 ^ 26 \<le> exp (- (1 / 2 ^ 26) :: real)" by simp
  have hi: "exp (- (1 / 2 ^ 26) :: real) \<le> 1" by simp
  have "in_range 1 1 (round32 (exp (- (1 / 2 ^ 26))))"
    using round32_below_1 round32_1 lo hi by (rule round32_mono_between)
  then show ?thesis by (cases "round32 (exp (- (1 / 2 ^ 26)))") simp_all
qed

lemma gauss_term_far: "gauss_term (Fin 0) (Fin 200) = Fin 0"
  using expf_neg_40000 by (simp add: gauss_term_def fsub_def)

lemma round32_2_m13: "round32 (1 / 2 ^ 13) = Fin (1 / 2 ^ 13)"
  using representable_dyadic[of 1 13] by (simp add: representable_def)

lemma round32_2_m26: "round32 (1 / 2 ^ 26) = Fin (1 / 2 ^ 26)"
  using representable_dyadic[of 1 26] by (simp add: representable_def)

lemma gauss_term_near: "gauss_term (Fin 0) (Fin (1 / 2 ^ 13)) = Fin 1"
proof -
  have "fsub (Fin 0) (Fin (1 / 2 ^ 13)) = Fin (- (1 / 2 ^ 13))"
    using round32_2_m13 by (simp add: fsub_def round32_neg)
  moreover have "fmul (Fin (- (1 / 2 ^ 13))) (Fin (- (1 / 2 ^ 13))) = Fin (1 / 2 ^ 26)"
    using round32_2_m26 by simp
  ultimately show ?thesis using expf_tiny by (simp add: gauss_term_def del: expf.simps fmul.simps)
qed

theorem gaussian_match_zero_and_one:
  "pattern_matching (\<lambda>k. Fin 7) [[Fin 0], [Fin 200]] \<lparr>dims = [1], data = 0\<rparr> \<lparr>dims = [1, 1], data = 1\<rparr>
   = Some (\<lparr>dims = [1], data = 2\<rparr>, [[Fin 0], [Fin 200], [Fin 0]])
   \<and> \<not> in_left_open_range 0 1 (Fin 0)
   \<and> pattern_matching (\<lambda>k. Fin 7) [[Fin 0], [Fin (1 / 2 ^ 13)]] \<lparr>dims = [1], data = 0\<rparr>
        \<lparr>dims = [1, 1], data = 1\<rparr>
   = Some (\<lparr>dims = [1], data = 2\<rparr>, [[Fin 0], [Fin (1 / 2 ^ 13)], [Fin 1]])
   \<and> [Fin (1 / 2 ^ 13)] \<noteq> [Fin 0]"
proof (intro conjI)
  show "pattern_matching (\<lambda>k. Fin 7) [[Fin 0], [Fin 200]] \<lparr>dims = [1], data = 0\<rparr> \<lparr>dims = [1, 1], data = 1\<rparr>
   = Some (\<lparr>dims = [1], data = 2\<rparr>, [[Fin 0], [Fin 200], [Fin 0]])"
    using gaussian_rows[where old = "\<lambda>k. Fin 7" and h = "[[Fin 0], [Fin 200]]" and R = 1 and L = 1
        and query = "\<lparr>dims = [1], data = 0\<rparr>" and database = "\<lparr>dims = [1, 1], data = 1\<rparr>"]
      gauss_term_far
    by (simp add: gaussian_row_def fsum_def int_to_float_def)
  show "pattern_matching (\<lambda>k. Fin 7) [[Fin 0], [Fin (1 / 2 ^ 13)]] \<lparr>dims = [1], data = 0\<rparr>
        \<lparr>dims = [1, 1], data = 1\<rparr>
   = Some (\<lparr>dims = [1], data = 2\<rparr>, [[Fin 0], [Fin (1 / 2 ^ 13)], [Fin 1]])"
    using gaussian_rows[where old = "\<lambda>k. Fin 7" and h = "[[Fin 0], [Fin (1 / 2 ^ 13)]]" and R = 1 and L = 1
        and query = "\<lparr>dims = [1], data = 0\<rparr>" and database = "\<lparr>dims = [1, 1], data = 1\<rparr>"]
      gauss_term_near
    by (simp add: gaussian_row_def fsum_def int_to_float_def)
qed (simp_all add: in_left_open_range_def)

lemma normalize_standardized:
  assumes "dims data_arr = [R, C]"
    and "data data_arr < length h" and "h ! data data_arr = D" and "length D = R * C"
    and "R < 2 ^ 31" and "C < 2 ^ 31" and "R * C < 2 ^ 31"
  shows "health_data_normalize old h data_arr
         = Some (\<lparr>dims = [R, C], data = length h\<rparr>,
                 h @ [map (\<lambda>k. standardized D R C (k div C) (k mod C)) [0..<R * C]])"
  by (rule normalize_value) (use assms in simp_all)

lemma round32_m1 [simp]: "round32 (- 1) = Fin (- 1)"
  by (simp add: round32_neg)

lemma upt_0_2: "[0..<2] = [0, 1]"
  by (simp add: upt_rec)

lemma upt_0_3: "[0..<3] = [0, 1, 2]"
  by (simp add: upt_rec)

lemma upt_0_4: "[0..<4] = [0, 1, 2, 3]"
  by (simp add: upt_rec)

lemma round32_two_thirds: "round32 (2 / 3) = Fin (11184811 / 16777216)"
  by code_simp

lemma fadd_eps_two_thirds:
  "fadd (Fin (11184811 / 16777216)) lit_1e_8f = Fin (11184811 / 16777216)"
  by code_simp

lemma example_mean: "col_mean [Fin 1, Fin 2, Fin 3] 3 1 0 = Fin 2"
  by (simp add: col_mean_def fsum_def upt_0_3 int_to_float_def)

lemma example_variance: "col_variance [Fin 1, Fin 2, Fin 3] 3 1 0 = Fin (11184811 / 16777216)"
  unfolding col_variance_def example_mean using round32_two_thirds
  by (simp add: fsum_def upt_0_3 int_to_float_def fsub_def)

lemma example_std:
  "in_range (53509 / 65536) (53511 / 65536) (sqrtf (Fin (11184811 / 16777216)))"
proof -
  have r: "representable (53509 / 65536)" "representable (53511 / 65536)"
    using representable_dyadic[of 53509 16] representable_dyadic[of 53511 16] by simp_all
  have lo: "53509 / 65536 \<le> sqrt (11184811 / 16777216)"
    by (rule real_le_rsqrt) (simp add: power2_eq_square)
  have hi: "sqrt (11184811 / 16777216) \<le> 53511 / 65536"
    by (rule real_le_lsqrt) (simp_all add: power2_eq_square)
  have "in_range (53509 / 65536) (53511 / 65536) (round32 (sqrt (11184811 / 16777216)))"
    using r lo hi by (rule round32_repr_between)
  then show ?thesis by simp
qed

lemma example_outputs:
  "in_range (- (12248 / 10000)) (- (12246 / 10000)) (standardized [Fin 1, Fin 2, Fin 3] 3 1 0 0)"
  "standardized [Fin 1, Fin 2, Fin 3] 3 1 1 0 = Fin 0"
  "in_range (12246 / 10000) (12248 / 10000) (standardized [Fin 1, Fin 2, Fin 3] 3 1 2 0)"
proof -
  obtain sd where sd: "sqrtf (Fin (11184811 / 16777216)) = Fin sd"
    "53509 / 65536 \<le> sd" "sd \<le> 53511 / 65536"
    using example_std by (rule in_rangeE)
  have sd0: "0 < sd" using sd(2) by simp
  have r: "representable (80263 / 65536)" "representable (80267 / 65536)"
    using representable_dyadic[of 80263 16] representable_dyadic[of 80267 16] by simp_all
  have lo: "80263 / 65536 \<le> 1 / sd"
  proof -
    have "80263 * sd \<le> 65536" using sd(3) by simp
    then show ?thesis using sd0 by (simp add: field_simps)
  qed
  have hi: "1 / sd \<le> 80267 / 65536"
  proof -
    have "65536 \<le> 80267 * sd" using sd(2) by simp
    then show ?thesis using sd0 by (simp add: field_simps)
  qed
  have pos: "in_range (80263 / 65536) (80267 / 65536) (round32 (1 / sd))"
    using r lo hi by (rule round32_repr_between)
  then obtain v where v: "round32 (1 / sd) = Fin v" "80263 / 65536 \<le> v" "v \<le> 80267 / 65536"
    by (rule in_rangeE)
  have neg: "round32 (- 1 / sd) = Fin (- v)"
    using v(1) round32_neg[of "1 / sd"] by simp
  have std: "sqrtf (fadd (col_variance [Fin 1, Fin 2, Fin 3] 3 1 0) lit_1e_8f) = Fin sd"
    by (simp only: example_variance fadd_eps_two_thirds sd(1))
  have s0: "standardized [Fin 1, Fin 2, Fin 3] 3 1 0 0 = Fin (- v)"
    unfolding standardized_def std example_mean using sd0 neg by (simp add: fsub_def)
  have s2: "standardized [Fin 1, Fin 2, Fin 3] 3 1 2 0 = Fin v"
    unfolding standardized_def std example_mean using sd0 v(1) by (simp add: fsub_def)
  show "in_range (- (12248 / 10000)) (- (12246 / 10000)) (standardized [Fin 1, Fin 2, Fin 3] 3 1 0 0)"
    unfolding s0 using v(2,3) by simp
  show "standardized [Fin 1, Fin 2, Fin 3] 3 1 1 0 = Fin 0"
    unfolding standardized_def std example_mean using sd0 by (simp add: fsub_def)
  show "in_range (12246 / 10000) (12248 / 10000) (standardized [Fin 1, Fin 2, Fin 3] 3 1 2 0)"
    unfolding s2 using v(2,3) by simp
qed

text \<open>
  Claim C2. For a matrix \<open>D\<close> of \<open>R\<close> rows and \<open>C\<close> columns, \<^verbatim>\<open>health_data_normalize\<close> returns
  a matrix of the same shape whose entry \<open>(i, j)\<close> is
  \<open>(D[i][j] - mean\<^sub>j) / sqrt(variance\<^sub>j + 1e-8)\<close>, with the mean and the population
  variance (divisor \<open>R\<close>) of column \<open>j\<close>. On \<open>[[1], [2], [3]]\<close> the mean is 2, the variance
  is 2/3 to four decimals and the output is \<open>[-1.2247, 0, 1.2247]\<close> to four decimals.
\<close>

theorem standardize_formula:
  assumes "dims data_arr = [R, C]"
    and "data data_arr < length h" and "h ! data data_arr = D" and "length D = R * C"
    and "R < 2 ^ 31" and "C < 2 ^ 31" and "R * C < 2 ^ 31"
  shows "health_data_normalize old h data_arr
         = Some (\<lparr>dims = [R, C], data = length h\<rparr>,
                 h @ [map (\<lambda>k. standardized D R C (k div C) (k mod C)) [0..<R * C]])
         \<and> health_data_normalize (\<lambda>k. Fin 7) [[Fin 1, Fin 2, Fin 3]] \<lparr>dims = [3, 1], data = 0\<rparr>
           = Some (\<lparr>dims = [3, 1], data = 1\<rparr>,
                   [[Fin 1, Fin 2, Fin 3],
                    [standardized [Fin 1, Fin 2, Fin 3] 3 1 0 0, Fin 0,
                     standardized [Fin 1, Fin 2, Fin 3] 3 1 2 0]])
         \<and> col_mean [Fin 1, Fin 2, Fin 3] 3 1 0 = Fin 2
         \<and> in_range (6666 / 10000) (6667 / 10000) (col_variance [Fin 1, Fin 2, Fin 3] 3 1 0)
         \<and> in_range (- (12248 / 10000)) (- (12246 / 10000))
              (standardized [Fin 1, Fin 2, Fin 3] 3 1 0 0)
         \<and> in_range (12246 / 10000) (12248 / 10000)
              (standardized [Fin 1, Fin 2, Fin 3] 3 1 2 0)"
proof (intro conjI)
  show "health_data_normalize old h data_arr
         = Some (\<lparr>dims = [R, C], data = length h\<rparr>,
                 h @ [map (\<lambda>k. standardized D R C (k div C) (k mod C)) [0..<R * C]])"
    by (rule normalize_standardized) (use assms in simp_all)
  show "health_data_normalize (\<lambda>k. Fin 7) [[Fin 1, Fin 2, Fin 3]] \<lparr>dims = [3, 1], data = 0\<rparr>
           = Some (\<lparr>dims = [3, 1], data = 1\<rparr>,
                   [[Fin 1, Fin 2, Fin 3],
                    [standardized [Fin 1, Fin 2, Fin 3] 3 1 0 0, Fin 0,
                     standardized [Fin 1, Fin 2, Fin 3] 3 1 2 0]])"
    using normalize_standardized[where old = "\<lambda>k. Fin 7" and h = "[[Fin 1, Fin 2, Fin 3]]" and R = 3 and C = 1
        and data_arr = "\<lparr>dims = [3, 1], data = 0\<rparr>"] example_outputs(2)
    by (simp add: upt_0_3)
  show "col_mean [Fin 1, Fin 2, Fin 3] 3 1 0 = Fin 2" by (rule example_mean)
  show "in_range (6666 / 10000) (6667 / 10000) (col_variance [Fin 1, Fin 2, Fin 3] 3 1 0)"
    unfolding example_variance by simp
qed (rule example_outputs)+

theorem standardize_formula_witness:
  "health_data_normalize (\<lambda>k. Fin 7) [[Fin 1, Fin 2, Fin 3, Fin 4]] \<lparr>dims = [2, 2], data = 0\<rparr>
   = Some (\<lparr>dims = [2, 2], data = 1\<rparr>,
           [[Fin 1, Fin 2, Fin 3, Fin 4],
            [standardized [Fin 1, Fin 2, Fin 3, Fin 4] 2 2 0 0,
             standardized [Fin 1, Fin 2, Fin 3, Fin 4] 2 2 0 1,
             standardized [Fin 1, Fin 2, Fin 3, Fin 4] 2 2 1 0,
             standardized [Fin 1, Fin 2, Fin 3, Fin 4] 2 2 1 1]])"
proof -
  let ?h = "[[Fin 1, Fin 2, Fin 3, Fin 4]]"
  let ?d = "\<lparr>dims = [2, 2], data = 0\<rparr>"
  have hyps: "dims ?d = [2, 2]" "data ?d < length ?h" "?h ! data ?d = [Fin 1, Fin 2, Fin 3, Fin 4]"
    "length [Fin 1, Fin 2, Fin 3, Fin 4 :: f32] = 2 * 2"
    "(2::nat) < 2 ^ 31" "(2::nat) < 2 ^ 31" "(2::nat) * 2 < 2 ^ 31"
    by simp_all
  from standardize_formula[OF hyps] have "health_data_normalize (\<lambda>k. Fin 7) ?h ?d
      = Some (\<lparr>dims = [2, 2], data = length ?h\<rparr>,
          ?h @ [map (\<lambda>k. standardized [Fin 1, Fin 2, Fin 3, Fin 4] 2 2 (k div 2) (k mod 2))
                 [0..<2 * 2]])"
    by (rule conjunct1)
  then show ?thesis by (simp add: upt_0_4)
qed

lemma at_least_simps [simp]:
  "at_least lo (Fin v) \<longleftrightarrow> lo \<le> v" "at_least lo PInf" "\<not> at_least lo NInf" "\<not> at_least lo NaN"
  by (simp_all add: at_least_def)

lemma at_least_round32:
  assumes "representable a" and "a \<le> x"
  shows "at_least a (round32 x)"
  using round32_lower[OF assms] by auto

lemma at_least_mono: "at_least a x \<Longrightarrow> b \<le> a \<Longrightarrow> at_least b x"
  by (cases x) simp_all

lemma fadd_at_least_0:
  assumes "at_least 0 x" and "at_least 0 y"
  shows "at_least 0 (fadd x y)"
  using assms by (cases x; cases y) (simp_all add: at_least_round32)

lemma fsum_at_least_0:
  assumes "\<forall>x \<in> set xs. at_least 0 x"
  shows "at_least 0 (fsum xs)"
  using assms
proof (induction xs rule: rev_induct)
  case Nil
  then show ?case by simp
next
  case (snoc t xs)
  then show ?case by (simp add: fsum_snoc fadd_at_least_0)
qed

lemma fadd_finite_not_NaN: "x \<noteq> NaN \<Longrightarrow> is_finite y \<Longrightarrow> fadd x y \<noteq> NaN"
  by (cases x; cases y) simp_all

lemma fsum_finite_not_NaN:
  assumes "\<forall>x \<in> set xs. is_finite x"
  shows "fsum xs \<noteq> NaN"
  using assms
proof (induction xs rule: rev_induct)
  case Nil
  then show ?case by simp
next
  case (snoc t xs)
  then show ?case by (simp add: fsum_snoc fadd_finite_not_NaN)
qed

lemma int_to_float_pos:
  assumes "0 < R" and "R < 2 ^ 31"
  obtains r where "int_to_float (int R) = Fin r" and "0 < r"
proof -
  obtain l where l: "int_to_float (int R) = Fin l" "min (real R) (2 ^ 24) \<le> l"
    using int_to_float_lower[OF assms] by (rule in_rangeE)
  have "0 < l" using l(2) assms(1) by (simp add: min_def split: if_splits)
  with l(1) show ?thesis by (rule that)
qed

lemma fdiv_pos_not_NaN: "x \<noteq> NaN \<Longrightarrow> 0 < r \<Longrightarrow> fdiv x (Fin r) \<noteq> NaN"
  by (cases x) (simp_all add: inf_signed_def)

lemma fdiv_pos_at_least_0:
  assumes "at_least 0 x" and "0 < r"
  shows "at_least 0 (fdiv x (Fin r))"
  using assms by (cases x) (simp_all add: at_least_round32 inf_signed_def)

lemma fsub_finite_not_NaN: "is_finite x \<Longrightarrow> m \<noteq> NaN \<Longrightarrow> fsub x m \<noteq> NaN"
  by (cases x; cases m) (simp_all add: fsub_def)

lemma fmul_self_at_least_0:
  assumes "d \<noteq> NaN"
  shows "at_least 0 (fmul d d)"
  using assms by (cases d) (simp_all add: at_least_round32 inf_signed_def)

lemma lit_1e_8f_value: "lit_1e_8f = Fin (11258999 / 2 ^ 50)"
  by code_simp

lemma representable_2_m27: "representable (1 / 2 ^ 27)"
  using representable_dyadic[of 1 27] by simp

lemma representable_2_m14: "representable (1 / 2 ^ 14)"
  using representable_dyadic[of 1 14] by simp

lemma sqrtf_at_least:
  assumes "at_least (1 / 2 ^ 27) x"
  shows "at_least (1 / 2 ^ 14) (sqrtf x)"
proof (cases x)
  case (Fin v)
  with assms have v: "1 / 2 ^ 27 \<le> v" by simp
  have "(1 / 2 ^ 14)\<^sup>2 \<le> (1 / 2 ^ 27 :: real)" by (simp add: power2_eq_square)
  also have "\<dots> \<le> v" by fact
  finally have "1 / 2 ^ 14 \<le> sqrt v" by (rule real_le_rsqrt)
  then have "at_least (1 / 2 ^ 14) (round32 (sqrt v))"
    by (intro at_least_round32 representable_2_m14)
  moreover have "(0::real) \<le> 1 / 2 ^ 27" by simp
  then have "\<not> v < 0" using v by linarith
  ultimately show ?thesis using Fin by simp
qed (use assms in simp_all)

lemma divisor_at_least:
  assumes "at_least 0 var"
  shows "at_least (1 / 2 ^ 14) (sqrtf (fadd var lit_1e_8f))"
proof -
  have "at_least (1 / 2 ^ 27) (fadd var lit_1e_8f)"
  proof (cases var)
    case (Fin v)
    with assms have "0 \<le> v" by simp
    then have "1 / 2 ^ 27 \<le> v + 11258999 / 2 ^ 50" by simp
    then have "at_least (1 / 2 ^ 27) (round32 (v + 11258999 / 2 ^ 50))"
      by (intro at_least_round32 representable_2_m27)
    then show ?thesis by (simp add: Fin lit_1e_8f_value)
  qed (use assms in \<open>simp_all add: lit_1e_8f_value\<close>)
  then show ?thesis by (rule sqrtf_at_least)
qed

lemma col_mean_not_NaN:
  assumes "0 < R" and "R < 2 ^ 31" and "\<forall>i<R. is_finite (D ! (i * C + j))"
  shows "col_mean D R C j \<noteq> NaN"
proof -
  obtain r where r: "int_to_float (int R) = Fin r" "0 < r" using assms(1,2) by (rule int_to_float_pos)
  have "fsum (map (\<lambda>i. D ! (i * C + j)) [0..<R]) \<noteq> NaN"
    using assms(3) by (intro fsum_finite_not_NaN) simp
  then show ?thesis using r by (simp add: col_mean_def fdiv_pos_not_NaN)
qed

lemma col_variance_at_least_0:
  assumes "0 < R" and "R < 2 ^ 31" and "\<forall>i<R. is_finite (D ! (i * C + j))"
  shows "at_least 0 (col_variance D R C j)"
proof -
  obtain r where r: "int_to_float (int R) = Fin r" "0 < r" using assms(1,2) by (rule int_to_float_pos)
  have m: "col_mean D R C j \<noteq> NaN" using assms by (rule col_mean_not_NaN)
  have "at_least 0 (fsum (map (\<lambda>i. fmul (fsub (D ! (i * C + j)) (col_mean D R C j))
                              (fsub (D ! (i * C + j)) (col_mean D R C j))) [0..<R]))"
  proof (rule fsum_at_least_0, clarsimp)
    fix i assume "i < R"
    then have "is_finite (D ! (i * C + j))" using assms(3) by simp
    then have "fsub (D ! (i * C + j)) (col_mean D R C j) \<noteq> NaN"
      using m by (rule fsub_finite_not_NaN)
    then show "at_least 0 (fmul (fsub (D ! (i * C + j)) (col_mean D R C j))
                              (fsub (D ! (i * C + j)) (col_mean D R C j)))"
      by (rule fmul_self_at_least_0)
  qed
  then show ?thesis using r by (simp add: col_variance_def fdiv_pos_at_least_0)
qed

lemma standardized_at_mean:
  assumes "0 < R" and "R < 2 ^ 31" and "\<forall>i<R. is_finite (D ! (i * C + j))"
    and "i < R" and "D ! (i * C + j) = col_mean D R C j"
  shows "standardized D R C i j = Fin 0"
proof -
  from assms(3,4) have "is_finite (D ! (i * C + j))" by simp
  then obtain a where a: "D ! (i * C + j) = Fin a" by (rule is_finiteE)
  have sub: "fsub (D ! (i * C + j)) (col_mean D R C j) = Fin 0"
    using a assms(5) by (simp add: fsub_def)
  have "at_least (1 / 2 ^ 14) (sqrtf (fadd (col_variance D R C j) lit_1e_8f))"
    using assms(1-3) by (intro divisor_at_least col_variance_at_least_0)
  then show ?thesis
    by (cases "sqrtf (fadd (col_variance D R C j) lit_1e_8f)")
      (simp_all add: standardized_def sub)
qed

lemma ones_mean: "col_mean [Fin 1, Fin 1, Fin 1] 3 1 0 = Fin 1"
  by (simp add: col_mean_def fsum_def upt_0_3 int_to_float_def)

lemma small_mean: "col_mean [Fin 0, Fin (1 / 2 ^ 20)] 2 1 0 = Fin (1 / 2 ^ 21)"
  by code_simp

lemma small_variance: "col_variance [Fin 0, Fin (1 / 2 ^ 20)] 2 1 0 = Fin (1 / 2 ^ 42)"
  by code_simp

lemma small_sum: "fadd (Fin (1 / 2 ^ 42)) lit_1e_8f = Fin (11259255 / 2 ^ 50)"
  by code_simp

lemma representable_2_m13: "representable (1 / 2 ^ 13)"
  using representable_dyadic[of 1 13] by simp

lemma representable_2_m7: "representable (1 / 2 ^ 7)"
  using representable_dyadic[of 1 7] by simp

lemma small_std: "in_range (1 / 2 ^ 14) (1 / 2 ^ 13) (sqrtf (Fin (11259255 / 2 ^ 50)))"
proof -
  have lo: "1 / 2 ^ 14 \<le> sqrt (11259255 / 2 ^ 50)"
    by (rule real_le_rsqrt) (simp add: power2_eq_square)
  have hi: "sqrt (11259255 / 2 ^ 50) \<le> 1 / 2 ^ 13"
    by (rule real_le_lsqrt) (simp_all add: power2_eq_square)
  have "in_range (1 / 2 ^ 14) (1 / 2 ^ 13) (round32 (sqrt (11259255 / 2 ^ 50)))"
    using representable_2_m14 representable_2_m13 lo hi by (rule round32_repr_between)
  then show ?thesis by simp
qed

lemma round32_2_m21: "round32 (1 / 2 ^ 21) = Fin (1 / 2 ^ 21)"
  using representable_dyadic[of 1 21] by (simp add: representable_def)

lemma small_outputs:
  "in_range (- (1 / 2 ^ 7)) 0 (standardized [Fin 0, Fin (1 / 2 ^ 20)] 2 1 0 0)"
  "in_range 0 (1 / 2 ^ 7) (standardized [Fin 0, Fin (1 / 2 ^ 20)] 2 1 1 0)"
proof -
  obtain sd where sd: "sqrtf (Fin (11259255 / 2 ^ 50)) = Fin sd" "1 / 2 ^ 14 \<le> sd"
    using small_std by (rule in_rangeE)
  have "(0::real) < 1 / 2 ^ 14" by simp
  then have sd0: "0 < sd" using sd(2) by linarith
  have std: "sqrtf (fadd (col_variance [Fin 0, Fin (1 / 2 ^ 20)] 2 1 0) lit_1e_8f) = Fin sd"
    by (simp only: small_variance small_sum sd(1))
  have q: "1 / 2 ^ 21 / sd \<le> 1 / 2 ^ 7"
  proof -
    have "1 / 2 ^ 21 \<le> 1 / 2 ^ 7 * (1 / 2 ^ 14 :: real)" by simp
    also have "\<dots> \<le> 1 / 2 ^ 7 * sd" using sd(2) by (intro mult_left_mono) simp_all
    finally show ?thesis using sd0 by (simp add: field_simps)
  qed
  have q0: "0 \<le> 1 / 2 ^ 21 / sd" using sd0 by simp
  have pos: "in_range 0 (1 / 2 ^ 7) (round32 (1 / 2 ^ 21 / sd))"
    using representable_0 representable_2_m7 q0 q by (rule round32_repr_between)
  then obtain v where v: "round32 (1 / 2 ^ 21 / sd) = Fin v" "0 \<le> v" "v \<le> 1 / 2 ^ 7"
    by (rule in_rangeE)
  have neg: "round32 (- (1 / 2 ^ 21) / sd) = Fin (- v)"
    using v(1) round32_neg[of "1 / 2 ^ 21 / sd"] by simp
  have sub0: "fsub (Fin 0) (Fin (1 / 2 ^ 21)) = Fin (- (1 / 2 ^ 21))"
    using round32_2_m21 by (simp add: fsub_def round32_neg)
  have "(1 / 2 ^ 20 - 1 / 2 ^ 21 :: real) = 1 / 2 ^ 21" by simp
  then have sub1: "fsub (Fin (1 / 2 ^ 20)) (Fin (1 / 2 ^ 21)) = Fin (1 / 2 ^ 21)"
    using round32_2_m21 by (simp add: fsub_def)
  have s0: "standardized [Fin 0, Fin (1 / 2 ^ 20)] 2 1 0 0 = Fin (- v)"
    unfolding standardized_def std small_mean using sd0 neg sub0 by simp
  have s1: "standardized [Fin 0, Fin (1 / 2 ^ 20)] 2 1 1 0 = Fin v"
    unfolding standardized_def std small_mean using sd0 v(1) sub1 by simp
  show "in_range (- (1 / 2 ^ 7)) 0 (standardized [Fin 0, Fin (1 / 2 ^ 20)] 2 1 0 0)"
    unfolding s0 using v(2,3) by simp
  show "in_range 0 (1 / 2 ^ 7) (standardized [Fin 0, Fin (1 / 2 ^ 20)] 2 1 1 0)"
    unfolding s1 using v(2,3) by simp
qed

lemma pop_variance_pair: "pop_variance [a, b] = ((a - b) / 2)\<^sup>2"
  by (simp add: pop_variance_def pop_mean_def power2_eq_square field_simps)

lemma small_output_variance:
  "pop_variance [valof (standardized [Fin 0, Fin (1 / 2 ^ 20)] 2 1 0 0),
                 valof (standardized [Fin 0, Fin (1 / 2 ^ 20)] 2 1 1 0)] < 1 / 1000"
proof -
  obtain a where a: "standardized [Fin 0, Fin (1 / 2 ^ 20)] 2 1 0 0 = Fin a"
    "- (1 / 2 ^ 7) \<le> a" "a \<le> 0"
    using small_outputs(1) by (rule in_rangeE)
  obtain b where b: "standardized [Fin 0, Fin (1 / 2 ^ 20)] 2 1 1 0 = Fin b"
    "0 \<le> b" "b \<le> 1 / 2 ^ 7"
    using small_outputs(2) by (rule in_rangeE)
  have "\<bar>(a - b) / 2\<bar> \<le> \<bar>1 / 2 ^ 7\<bar>" using a(2,3) b(2,3) by simp
  then have "((a - b) / 2)\<^sup>2 \<le> (1 / 2 ^ 7)\<^sup>2" by (simp only: abs_le_square_iff)
  also have "\<dots> < (1 / 1000 :: real)" by (simp add: power2_eq_square)
  finally show ?thesis by (simp only: a(1) b(1) valof.simps pop_variance_pair)
qed

lemma const_mean:
  "col_mean [Fin 16777002, Fin 16777002, Fin 16777002] 3 1 0 = Fin 16777003"
  by code_simp

lemma const_variance:
  "col_variance [Fin 16777002, Fin 16777002, Fin 16777002] 3 1 0 = Fin 1"
  by code_simp

lemma one_plus_eps: "fadd (Fin 1) lit_1e_8f = Fin 1"
  by code_simp

lemma const_outputs:
  assumes "i < 3"
  shows "standardized [Fin 16777002, Fin 16777002, Fin 16777002] 3 1 i 0 = Fin (- 1)"
proof -
  have "[Fin 16777002, Fin 16777002, Fin 16777002] ! (i * 1 + 0) = Fin 16777002"
    using assms by (auto simp: less_Suc_eq numeral_3_eq_3)
  then show ?thesis
    unfolding standardized_def const_mean const_variance one_plus_eps
    by (simp add: fsub_def)
qed

lemma big_mean: "col_mean [Fin 16777216, Fin 16777218] 2 1 0 = Fin 16777216"
  by code_simp

lemma big_variance: "col_variance [Fin 16777216, Fin 16777218] 2 1 0 = Fin 2"
  by code_simp

lemma big_sum: "fadd (Fin 2) lit_1e_8f = Fin 2"
  by code_simp

lemma big_std: "in_range (181 / 128) (91 / 64) (sqrtf (Fin 2))"
proof -
  have lo: "181 / 128 \<le> sqrt 2"
    by (rule real_le_rsqrt) (simp add: power2_eq_square)
  have hi: "sqrt 2 \<le> 91 / 64"
    by (rule real_le_lsqrt) (simp_all add: power2_eq_square)
  have r1: "representable (181 / 128)" using representable_dyadic[of 181 7] by simp
  have r2: "representable (91 / 64)" using representable_dyadic[of 91 6] by simp
  have "in_range (181 / 128) (91 / 64) (round32 (sqrt 2))"
    using r1 r2 lo hi by (rule round32_repr_between)
  then show ?thesis by simp
qed

lemma big_outputs:
  "standardized [Fin 16777216, Fin 16777218] 2 1 0 0 = Fin 0"
  "in_range (5 / 4) (3 / 2) (standardized [Fin 16777216, Fin 16777218] 2 1 1 0)"
proof -
  obtain sd where sd: "sqrtf (Fin 2) = Fin sd" "181 / 128 \<le> sd" "sd \<le> 91 / 64"
    using big_std by (rule in_rangeE)
  have sd0: "0 < sd" using sd(2) by simp
  have std: "sqrtf (fadd (col_variance [Fin 16777216, Fin 16777218] 2 1 0) lit_1e_8f) = Fin sd"
    by (simp only: big_variance big_sum sd(1))
  have sub0: "fsub (Fin 16777216) (Fin 16777216) = Fin 0" by (simp add: fsub_def)
  have sub1: "fsub (Fin 16777218) (Fin 16777216) = Fin 2" by (simp add: fsub_def)
  show "standardized [Fin 16777216, Fin 16777218] 2 1 0 0 = Fin 0"
    unfolding standardized_def std big_mean using sd0 sub0 by simp
  have lo: "5 / 4 \<le> 2 / sd"
  proof -
    have "5 / 4 * sd \<le> 5 / 4 * (91 / 64)" using sd(3) by (intro mult_left_mono) simp_all
    also have "\<dots> \<le> 2" by simp
    finally show ?thesis using sd0 by (simp add: field_simps)
  qed
  have hi: "2 / sd \<le> 3 / 2"
  proof -
    have "2 \<le> 3 / 2 * (181 / 128 :: real)" by simp
    also have "\<dots> \<le> 3 / 2 * sd" using sd(2) by (intro mult_left_mono) simp_all
    finally show ?thesis using sd0 by (simp add: field_simps)
  qed
  have r1: "representable (5 / 4)" using representable_dyadic[of 5 2] by simp
  have r2: "representable (3 / 2)" using representable_dyadic[of 3 1] by simp
  have "in_range (5 / 4) (3 / 2) (round32 (2 / sd))"
    using r1 r2 lo hi by (rule round32_repr_between)
  then show "in_range (5 / 4) (3 / 2) (standardized [Fin 16777216, Fin 16777218] 2 1 1 0)"
    unfolding standardized_def std big_mean using sd0 sub1 by simp
qed

lemma pop_mean_pair: "pop_mean [a, b] = (a + b) / 2"
  by (simp add: pop_mean_def)

lemma big_output_stats:
  "1 / 2 < pop_mean [valof (standardized [Fin 16777216, Fin 16777218] 2 1 0 0),
                     valof (standardized [Fin 16777216, Fin 16777218] 2 1 1 0)]"
  "pop_variance [valof (standardized [Fin 16777216, Fin 16777218] 2 1 0 0),
                 valof (standardized [Fin 16777216, Fin 16777218] 2 1 1 0)] < 3 / 4"
proof -
  obtain b where b: "standardized [Fin 16777216, Fin 16777218] 2 1 1 0 = Fin b"
    "5 / 4 \<le> b" "b \<le> 3 / 2"
    using big_outputs(2) by (rule in_rangeE)
  show "1 / 2 < pop_mean [valof (standardized [Fin 16777216, Fin 16777218] 2 1 0 0),
                     valof (standardized [Fin 16777216, Fin 16777218] 2 1 1 0)]"
    using b(2) by (simp only: big_outputs(1) b(1) valof.simps pop_mean_pair) simp
  have "\<bar>(0 - b) / 2\<bar> \<le> \<bar>3 / 4\<bar>" using b(2,3) by simp
  then have "((0 - b) / 2)\<^sup>2 \<le> (3 / 4)\<^sup>2" by (simp only: abs_le_square_iff)
  also have "\<dots> < (3 / 4 :: real)" by (simp add: power2_eq_square)
  finally show "pop_variance [valof (standardized [Fin 16777216, Fin 16777218] 2 1 0 0),
                 valof (standardized [Fin 16777216, Fin 16777218] 2 1 1 0)] < 3 / 4"
    by (simp only: big_outputs(1) b(1) valof.simps pop_variance_pair)
qed

lemma big_input_variance: "pop_variance [16777216, 16777218] = 1"
  by (simp add: pop_variance_pair)


lemma wfac_pos: "0 < wfac" and wfac_le_1: "wfac \<le> 1"
  by (simp_all add: wfac_def)

lemma wfac_pow_pos: "0 < wfac ^ n"
  using wfac_pos by simp

lemma wfac_pow_le_1: "wfac ^ n \<le> 1"
  using wfac_pos wfac_le_1 by (intro power_le_one) simp_all

lemma wfac_pow_mono: "n \<le> m \<Longrightarrow> wfac ^ m \<le> wfac ^ n"
  using wfac_pos wfac_le_1 by (intro power_decreasing) simp_all

lemma wfac_pow_lower: "1 - real n / 2 ^ 24 \<le> wfac ^ n"
proof -
  have "1 + real n * (- (1 / 2 ^ 24)) \<le> (1 + (- (1 / 2 ^ 24))) ^ n"
    by (rule Bernoulli_inequality) simp
  then show ?thesis by (simp add: wfac_def)
qed

lemma wfac_pow_half:
  assumes "n \<le> 2 ^ 23"
  shows "1 / 2 \<le> wfac ^ n"
proof -
  have "real n \<le> 2 ^ 23" using assms by (metis of_nat_le_iff of_nat_numeral of_nat_power)
  then have "1 / 2 \<le> 1 - real n / 2 ^ 24" by simp
  also have "\<dots> \<le> wfac ^ n" by (rule wfac_pow_lower)
  finally show ?thesis .
qed

lemma near_0 [simp]: "near 0 x x"
  by (simp add: near_def)

lemma near_nonneg: "near n x v \<Longrightarrow> 0 \<le> x \<Longrightarrow> 0 \<le> v"
proof -
  assume "near n x v" and "0 \<le> x"
  then have "0 \<le> x * wfac ^ n" and "x * wfac ^ n \<le> v"
    using wfac_pow_pos[of n] by (simp_all add: near_def)
  then show "0 \<le> v" by simp
qed

lemma near_pos: "near n x v \<Longrightarrow> 0 < x \<Longrightarrow> 0 < v"
proof -
  assume "near n x v" and "0 < x"
  then have "0 < x * wfac ^ n" and "x * wfac ^ n \<le> v"
    using wfac_pow_pos[of n] by (simp_all add: near_def)
  then show "0 < v" by simp
qed

lemma near_zero: "near n 0 v \<Longrightarrow> v = 0"
proof -
  assume n: "near n 0 v"
  then have "0 \<le> v" and "v * wfac ^ n \<le> 0" by (simp_all add: near_def)
  then show "v = 0" using wfac_pow_pos[of n]
    by (metis mult_le_0_iff not_less order_antisym)
qed

lemma near_trans:
  assumes "near n x y" and "near m y v" and "0 \<le> x"
  shows "near (n + m) x v"
proof -
  have y0: "0 \<le> y" using assms(1,3) by (rule near_nonneg)
  have v0: "0 \<le> v" using assms(2) y0 by (rule near_nonneg)
  have "x * wfac ^ (n + m) = (x * wfac ^ n) * wfac ^ m" by (simp add: power_add)
  also have "\<dots> \<le> y * wfac ^ m"
    using assms(1) wfac_pow_pos[of m] by (intro mult_right_mono) (simp_all add: near_def)
  also have "\<dots> \<le> v" using assms(2) by (simp add: near_def)
  finally have lo: "x * wfac ^ (n + m) \<le> v" .
  have "v * wfac ^ (n + m) = (v * wfac ^ m) * wfac ^ n" by (simp add: power_add)
  also have "\<dots> \<le> y * wfac ^ n"
    using assms(2) wfac_pow_pos[of n] by (intro mult_right_mono) (simp_all add: near_def)
  also have "\<dots> \<le> x" using assms(1) by (simp add: near_def)
  finally have "v * wfac ^ (n + m) \<le> x" .
  with lo show ?thesis by (simp add: near_def)
qed

lemma near_mono:
  assumes "near n x v" and "n \<le> m" and "0 \<le> x"
  shows "near m x v"
proof -
  have v0: "0 \<le> v" using assms(1,3) by (rule near_nonneg)
  have "x * wfac ^ m \<le> x * wfac ^ n"
    using assms(2,3) by (intro mult_left_mono wfac_pow_mono)
  also have "\<dots> \<le> v" using assms(1) by (simp add: near_def)
  finally have lo: "x * wfac ^ m \<le> v" .
  have "v * wfac ^ m \<le> v * wfac ^ n"
    using assms(2) v0 by (intro mult_left_mono wfac_pow_mono)
  also have "\<dots> \<le> x" using assms(1) by (simp add: near_def)
  finally have "v * wfac ^ m \<le> x" .
  with lo show ?thesis by (simp add: near_def)
qed

lemma near_add: "near n x s \<Longrightarrow> near n y t \<Longrightarrow> near n (x + y) (s + t)"
  by (simp add: near_def distrib_right)

lemma near_mult:
  assumes "near n x s" and "near m y t" and "0 \<le> x" and "0 \<le> y"
  shows "near (n + m) (x * y) (s * t)"
proof -
  have s0: "0 \<le> s" using assms(1,3) by (rule near_nonneg)
  have t0: "0 \<le> t" using assms(2,4) by (rule near_nonneg)
  have "(x * wfac ^ n) * (y * wfac ^ m) \<le> s * t"
    using assms s0 wfac_pow_pos[of n] wfac_pow_pos[of m]
    by (intro mult_mono) (simp_all add: near_def)
  then have lo: "x * y * wfac ^ (n + m) \<le> s * t" by (simp add: power_add mult_ac)
  have "(s * wfac ^ n) * (t * wfac ^ m) \<le> x * y"
    using assms s0 t0 wfac_pow_pos[of n] wfac_pow_pos[of m]
    by (intro mult_mono) (simp_all add: near_def)
  then have "s * t * wfac ^ (n + m) \<le> x * y" by (simp add: power_add mult_ac)
  with lo show ?thesis by (simp add: near_def)
qed

lemma near_div:
  assumes "near n x s" and "near m y t" and "0 \<le> x" and "0 < y"
  shows "near (n + m) (x / y) (s / t)"
proof -
  have s0: "0 \<le> s" using assms(1,3) by (rule near_nonneg)
  have t0: "0 < t" using assms(2,4) by (rule near_pos)
  have "(x * wfac ^ n) * (t * wfac ^ m) \<le> s * y"
    using assms s0 t0 wfac_pow_pos[of n] wfac_pow_pos[of m]
    by (intro mult_mono) (simp_all add: near_def)
  then have "x * wfac ^ (n + m) * t \<le> s * y" by (simp add: power_add mult_ac)
  then have lo: "x / y * wfac ^ (n + m) \<le> s / t"
    using assms(4) t0 by (simp add: field_simps)
  have "(s * wfac ^ n) * (y * wfac ^ m) \<le> x * t"
    using assms s0 wfac_pow_pos[of n] wfac_pow_pos[of m]
    by (intro mult_mono) (simp_all add: near_def)
  then have "s * wfac ^ (n + m) * y \<le> x * t" by (simp add: power_add mult_ac)
  then have "s / t * wfac ^ (n + m) \<le> x / y"
    using assms(4) t0 by (simp add: field_simps)
  with lo show ?thesis by (simp add: near_def)
qed

lemma near_sqrt:
  assumes "near n x s" and "0 \<le> x"
  shows "near n (sqrt x) (sqrt s)"
proof -
  have s0: "0 \<le> s" using assms by (rule near_nonneg)
  have sq: "(wfac ^ n)\<^sup>2 \<le> wfac ^ n"
    using wfac_pow_le_1[of n] wfac_pow_pos[of n]
    by (simp add: power2_eq_square mult_left_le)
  have "(sqrt x * wfac ^ n)\<^sup>2 = x * (wfac ^ n)\<^sup>2" using assms(2) by (simp add: power_mult_distrib)
  also have "\<dots> \<le> x * wfac ^ n" using sq assms(2) by (intro mult_left_mono)
  also have "\<dots> \<le> s" using assms(1) by (simp add: near_def)
  finally have lo: "sqrt x * wfac ^ n \<le> sqrt s" by (rule real_le_rsqrt)
  have "(sqrt s * wfac ^ n)\<^sup>2 = s * (wfac ^ n)\<^sup>2" using s0 by (simp add: power_mult_distrib)
  also have "\<dots> \<le> s * wfac ^ n" using sq s0 by (intro mult_left_mono)
  also have "\<dots> \<le> x" using assms(1) by (simp add: near_def)
  finally have "sqrt s * wfac ^ n \<le> sqrt x" by (rule real_le_rsqrt)
  with lo show ?thesis by (simp add: near_def)
qed

text \<open>Rounding a number of the normal range moves it by at most half a unit in the last place.\<close>

lemma round32_near:
  assumes "2 powi (- 126) \<le> x" and "x \<le> 2 ^ 127"
  shows "\<exists>v. round32 x = Fin v \<and> near 1 x v"
proof -
  let ?e = "binade x"
  define q :: real where "q = 2 powi (?e - 23)"
  define v where "v = of_int (round_even (x / q)) * q"
  have "(0::real) < 2 powi (- 126)" by simp
  then have x0: "0 < x" using assms(1) by linarith
  have q0: "0 < q" by (simp add: q_def)
  have e: "2 powi ?e \<le> x" using binade_bounds[OF assms(1)] by simp
  have qe: "2 ^ 23 * q = 2 powi ?e" unfolding q_def by (rule powi_split'[symmetric])
  have "x / q - 1 / 2 \<le> of_int (round_even (x / q))" by (rule round_even_lower)
  then have "(x / q - 1 / 2) * q \<le> v" unfolding v_def using q0 by (intro mult_right_mono) simp_all
  moreover have "(x / q - 1 / 2) * q = x - q / 2" using q0 by (simp add: field_simps)
  ultimately have lo: "x - q / 2 \<le> v" by simp
  have "of_int (round_even (x / q)) \<le> x / q + 1 / 2" by (rule round_even_upper)
  then have "v \<le> (x / q + 1 / 2) * q" unfolding v_def using q0 by (intro mult_right_mono) simp_all
  moreover have "(x / q + 1 / 2) * q = x + q / 2" using q0 by (simp add: field_simps)
  ultimately have hi: "v \<le> x + q / 2" by simp
  have qx: "q / 2 \<le> x / 2 ^ 24"
  proof -
    have "2 ^ 23 * q \<le> x" using e qe by simp
    then show ?thesis by (simp add: field_simps)
  qed
  have n1: "x * wfac \<le> v" using lo qx by (simp add: wfac_def field_simps)
  have vle: "v \<le> x * (1 + 1 / 2 ^ 24)" using hi qx by (simp add: field_simps)
  have "0 < x * wfac" using x0 wfac_pos by simp
  then have v0: "0 \<le> v" using n1 by linarith
  have "v * wfac \<le> x * (1 + 1 / 2 ^ 24) * wfac"
    using vle wfac_pos by (intro mult_right_mono) simp_all
  also have "\<dots> \<le> x" using x0 by (simp add: wfac_def field_simps)
  finally have n2: "v * wfac \<le> x" .
  have "x * (1 + 1 / 2 ^ 24) \<le> 2 ^ 127 * (1 + 1 / 2 ^ 24)"
    using assms(2) by (intro mult_right_mono) simp_all
  with vle have "v \<le> 2 ^ 127 * (1 + 1 / 2 ^ 24)" by linarith
  also have "\<dots> < (2::real) ^ 128" by simp
  finally have vlt: "v < 2 ^ 128" .
  have "round_mag \<bar>x\<bar> = v" using x0 by (simp add: round_mag_def Let_def v_def q_def)
  then have "round32 x = Fin v" using x0 vlt by (simp add: round32_def Let_def)
  moreover have "near 1 x v" using n1 n2 by (simp add: near_def)
  ultimately show ?thesis by blast
qed

lemma round32_near_step:
  assumes "near n x y" and "0 \<le> x" and "Suc n \<le> 2 ^ 23"
    and "x = 0 \<or> (2 powi (- 125) \<le> x \<and> x \<le> 2 ^ 126)"
  shows "\<exists>v. round32 y = Fin v \<and> near (Suc n) x v"
proof (cases "x = 0")
  case True
  with assms(1) have "y = 0" by (simp add: near_zero)
  with True show ?thesis by (simp add: near_def)
next
  case False
  with assms(4) have x: "2 powi (- 125) \<le> x" "x \<le> 2 ^ 126" by simp_all
  have half: "1 / 2 \<le> wfac ^ n" using assms(3) by (intro wfac_pow_half) simp
  have "(2::real) powi (- 126) = 2 powi (- 125) * (1 / 2)"
    by (simp add: power_int_minus field_simps)
  also have "\<dots> \<le> x * wfac ^ n" using x(1) half assms(2) by (intro mult_mono) simp_all
  also have "\<dots> \<le> y" using assms(1) by (simp add: near_def)
  finally have lo: "2 powi (- 126) \<le> y" .
  have y0: "0 \<le> y" using assms(1,2) by (rule near_nonneg)
  have "y * (1 / 2) \<le> y * wfac ^ n" using half y0 by (intro mult_left_mono)
  also have "\<dots> \<le> x" using assms(1) by (simp add: near_def)
  finally have "y \<le> 2 * x" by simp
  also have "\<dots> \<le> 2 * 2 ^ 126" using x(2) by simp
  finally have hi: "y \<le> 2 ^ 127" by simp
  obtain v where v: "round32 y = Fin v" "near 1 y v" using round32_near[OF lo hi] by blast
  have "near (n + 1) x v" using assms(1) v(2) assms(2) by (rule near_trans)
  with v(1) show ?thesis by auto
qed

lemma sum_zero_or_ge:
  fixes t :: "nat \<Rightarrow> real"
  assumes "\<forall>j<n. t j = 0 \<or> (m \<le> t j \<and> t j \<le> M)" and "0 < m" and "0 \<le> M"
  shows "0 \<le> (\<Sum>j<n. t j) \<and> (\<Sum>j<n. t j) \<le> real n * M
         \<and> ((\<Sum>j<n. t j) = 0 \<or> m \<le> (\<Sum>j<n. t j))"
  using assms(1)
proof (induction n)
  case 0
  then show ?case by simp
next
  case (Suc n)
  then have ih: "0 \<le> (\<Sum>j<n. t j)" "(\<Sum>j<n. t j) \<le> real n * M"
    "(\<Sum>j<n. t j) = 0 \<or> m \<le> (\<Sum>j<n. t j)"
    by simp_all
  from Suc.prems have "t n = 0 \<or> (m \<le> t n \<and> t n \<le> M)" by simp
  then show ?case
  proof
    assume "t n = 0"
    then show ?thesis using ih assms(3) by (auto simp: algebra_simps)
  next
    assume "m \<le> t n \<and> t n \<le> M"
    then show ?thesis using ih assms(2) by (auto simp: algebra_simps)
  qed
qed

lemma fsum_products_near:
  fixes a b :: "nat \<Rightarrow> real"
  assumes "k \<le> 2 ^ 20"
    and "\<forall>j<k. a j * b j = 0 \<or> (1 / 2 ^ 100 \<le> a j * b j \<and> a j * b j \<le> 2 ^ 100)"
  shows "\<exists>s. fsum (map (\<lambda>j. fmul (Fin (a j)) (Fin (b j))) [0..<k]) = Fin s
             \<and> near (Suc k) (\<Sum>j<k. a j * b j) s"
  using assms
proof (induction k)
  case 0
  then show ?case by (simp add: near_def)
next
  case (Suc k)
  let ?T = "\<Sum>j<k. a j * b j"
  let ?tau = "a k * b k"
  from Suc obtain s where s: "fsum (map (\<lambda>j. fmul (Fin (a j)) (Fin (b j))) [0..<k]) = Fin s"
    "near (Suc k) ?T s" by auto
  have k20: "Suc k \<le> 2 ^ 20" by fact
  have small: "Suc (Suc k) \<le> 2 ^ 23" using k20 by simp
  have tau: "?tau = 0 \<or> (1 / 2 ^ 100 \<le> ?tau \<and> ?tau \<le> 2 ^ 100)" using Suc.prems(2) by simp
  have lo125: "(2::real) powi (- 125) \<le> 1 / 2 ^ 100"
    by (simp add: power_int_minus field_simps)
  have hi126: "(2::real) ^ 100 \<le> 2 ^ 126" by simp
  have "(0::real) \<le> 1 / 2 ^ 100" by simp
  then have tau0: "0 \<le> ?tau" using tau by auto
  have "\<exists>v. round32 ?tau = Fin v \<and> near (Suc 0) ?tau v"
  proof (rule round32_near_step)
    show "near 0 ?tau ?tau" by simp
    show "0 \<le> ?tau" by fact
    show "Suc 0 \<le> 2 ^ 23" by simp
    show "?tau = 0 \<or> (2 powi (- 125) \<le> ?tau \<and> ?tau \<le> 2 ^ 126)"
      using tau lo125 hi126 by auto
  qed
  then obtain t where t: "round32 ?tau = Fin t" "near (Suc 0) ?tau t" by blast
  have t': "near (Suc k) ?tau t" using t(2) _ tau0 by (rule near_mono) simp
  have rng: "0 \<le> (\<Sum>j<Suc k. a j * b j)
      \<and> (\<Sum>j<Suc k. a j * b j) \<le> real (Suc k) * 2 ^ 100
      \<and> ((\<Sum>j<Suc k. a j * b j) = 0 \<or> 1 / 2 ^ 100 \<le> (\<Sum>j<Suc k. a j * b j))"
    using Suc.prems(2) by (intro sum_zero_or_ge) simp_all
  have T': "(\<Sum>j<Suc k. a j * b j) = ?T + ?tau" by simp
  have add: "near (Suc k) (?T + ?tau) (s + t)" using s(2) t' by (rule near_add)
  have up: "?T + ?tau \<le> 2 ^ 126"
  proof -
    have "real (Suc k) \<le> 2 ^ 20" using k20 by (metis of_nat_le_iff of_nat_numeral of_nat_power)
    then have "real (Suc k) * 2 ^ 100 \<le> 2 ^ 20 * (2 ^ 100 :: real)"
      by (intro mult_right_mono) simp_all
    also have "\<dots> \<le> 2 ^ 126" by simp
    finally show ?thesis using rng T' by simp
  qed
  have "\<exists>v. round32 (s + t) = Fin v \<and> near (Suc (Suc k)) (?T + ?tau) v"
  proof (rule round32_near_step)
    show "near (Suc k) (?T + ?tau) (s + t)" by fact
    show "0 \<le> ?T + ?tau" using rng T' by simp
    show "Suc (Suc k) \<le> 2 ^ 23" by fact
    show "?T + ?tau = 0 \<or> (2 powi (- 125) \<le> ?T + ?tau \<and> ?T + ?tau \<le> 2 ^ 126)"
      using rng T' lo125 up by auto
  qed
  then obtain v where v: "round32 (s + t) = Fin v" "near (Suc (Suc k)) (?T + ?tau) v" by blast
  have "fsum (map (\<lambda>j. fmul (Fin (a j)) (Fin (b j))) [0..<Suc k]) = Fin v"
    using s(1) t(1) v(1) by (simp add: fsum_snoc)
  with v(2) T' show ?case by auto
qed

lemma prod_range:
  fixes x y :: real
  assumes "1 / 2 ^ 50 \<le> x" and "x \<le> 2 ^ 50" and "1 / 2 ^ 50 \<le> y" and "y \<le> 2 ^ 50"
  shows "1 / 2 ^ 100 \<le> x * y \<and> x * y \<le> 2 ^ 100"
proof -
  have x0: "0 \<le> x" and y0: "0 \<le> y" using assms(1,3) by (simp_all add: order_trans[rotated])
  have "(1 / 2 ^ 50) * (1 / 2 ^ 50) \<le> x * y"
    using assms(1,3) x0 by (intro mult_mono) simp_all
  moreover have "x * y \<le> 2 ^ 50 * 2 ^ 50"
    using assms(2,4) x0 y0 by (intro mult_mono) simp_all
  ultimately show ?thesis by simp
qed

lemma near_1_bounds:
  assumes "near n 1 v" and "n \<le> 2 ^ 23"
  shows "1 - real n / 2 ^ 23 \<le> v \<and> v \<le> 1 + real n / 2 ^ 23"
proof -
  define e where "e = real n / 2 ^ 24"
  have e0: "0 \<le> e" by (simp add: e_def)
  have "real n \<le> 2 ^ 23" using assms(2) by (metis of_nat_le_iff of_nat_numeral of_nat_power)
  then have e12: "e \<le> 1 / 2" by (simp add: e_def)
  have w: "1 - e \<le> wfac ^ n" unfolding e_def by (rule wfac_pow_lower)
  have lo: "wfac ^ n \<le> v" and hi: "v * wfac ^ n \<le> 1" using assms(1) by (simp_all add: near_def)
  have v0: "0 \<le> v" using lo wfac_pow_pos[of n] by linarith
  have "v * (1 - e) \<le> v * wfac ^ n" using w v0 by (intro mult_left_mono)
  with hi have vb: "v * (1 - e) \<le> 1" by linarith
  have "v \<le> 1 + 2 * e"
  proof (rule ccontr)
    assume "\<not> v \<le> 1 + 2 * e"
    then have "1 + 2 * e < v" by simp
    then have "(1 + 2 * e) * (1 - e) < v * (1 - e)"
      using e12 by (intro mult_strict_right_mono) simp_all
    moreover have "1 \<le> (1 + 2 * e) * (1 - e)"
    proof -
      have "0 \<le> e * (1 - 2 * e)" using e0 e12 by (intro mult_nonneg_nonneg) simp_all
      then show ?thesis by (simp add: algebra_simps)
    qed
    ultimately show False using vb by linarith
  qed
  moreover have "1 - 2 * e \<le> v" using w lo e0 by linarith
  moreover have "2 * e = real n / 2 ^ 23" by (simp add: e_def)
  ultimately show ?thesis by simp
qed

lemma abs_sq_forms:
  fixes a c :: real
  shows "(c * a) * (c * a) = (c * \<bar>a\<bar>) * (c * \<bar>a\<bar>)" and "a * (c * a) = \<bar>a\<bar> * (c * \<bar>a\<bar>)"
  by (cases "0 \<le> a"; simp)+

lemma sum_scaled_sq:
  fixes a :: "nat \<Rightarrow> real"
  shows "(\<Sum>j<K. (c * a j) * (c * a j)) = c * c * (\<Sum>j<K. a j * a j)"
proof -
  have "(\<Sum>j<K. (c * a j) * (c * a j)) = (\<Sum>j<K. (c * c) * (a j * a j))"
    by (rule sum.cong) simp_all
  then show ?thesis by (simp only: sum_distrib_left)
qed

lemma sum_scaled_dot:
  fixes a :: "nat \<Rightarrow> real"
  shows "(\<Sum>j<K. a j * (c * a j)) = c * (\<Sum>j<K. a j * a j)"
proof -
  have "(\<Sum>j<K. a j * (c * a j)) = (\<Sum>j<K. c * (a j * a j))"
    by (rule sum.cong) simp_all
  then show ?thesis by (simp only: sum_distrib_left)
qed

lemma sqrt_rng:
  fixes x :: real
  assumes "1 / 2 ^ 100 \<le> x" and "x \<le> 2 ^ 120"
  shows "2 powi (- 125) \<le> sqrt x \<and> sqrt x \<le> 2 ^ 126"
proof -
  have lo50: "(2::real) powi (- 125) \<le> 1 / 2 ^ 50" by (simp add: power_int_minus field_simps)
  have "(1 / 2 ^ 50)\<^sup>2 \<le> x" using assms(1) by (simp add: power2_eq_square)
  then have "1 / 2 ^ 50 \<le> sqrt x" by (rule real_le_rsqrt)
  moreover have "sqrt x \<le> 2 ^ 60" using assms(2) by (intro real_le_lsqrt) (simp_all add: power2_eq_square)
  moreover have "(2::real) ^ 60 \<le> 2 ^ 126" by simp
  ultimately show ?thesis using lo50 by linarith
qed

lemma cosine_scaled:
  assumes K: "K \<le> 2 ^ 20" and sc: "scaled_row p F K i c"
  shows "in_range (1 - real (3 * K + 7) / 2 ^ 23) (1 + real (3 * K + 7) / 2 ^ 23) (cosine p F K i)"
proof -
  define a where "a j = valof (p ! j)" for j
  have c0: "0 < c" using sc by (simp add: scaled_row_def)
  have pj: "p ! j = Fin (a j)" if "j < K" for j
  proof -
    from sc that have "is_finite (p ! j)" by (simp add: scaled_row_def)
    then show ?thesis by (cases "p ! j") (simp_all add: a_def)
  qed
  have Fj: "F ! (i * K + j) = Fin (c * a j)" if "j < K" for j
    using sc that by (simp add: scaled_row_def a_def)
  have mag: "a j = 0 \<or> (1 / 2 ^ 50 \<le> \<bar>a j\<bar> \<and> \<bar>a j\<bar> \<le> 2 ^ 50
                \<and> 1 / 2 ^ 50 \<le> c * \<bar>a j\<bar> \<and> c * \<bar>a j\<bar> \<le> 2 ^ 50)" if "j < K" for j
    using sc that by (simp add: scaled_row_def a_def)
  obtain j0 where j0: "j0 < K" "a j0 \<noteq> 0" using sc by (auto simp: scaled_row_def a_def)
  have r_pp: "\<forall>j<K. a j * a j = 0 \<or> (1 / 2 ^ 100 \<le> a j * a j \<and> a j * a j \<le> 2 ^ 100)"
  proof (intro allI impI)
    fix j assume "j < K"
    from mag[OF this] show "a j * a j = 0 \<or> (1 / 2 ^ 100 \<le> a j * a j \<and> a j * a j \<le> 2 ^ 100)"
    proof
      assume "a j = 0" then show ?thesis by simp
    next
      assume m: "1 / 2 ^ 50 \<le> \<bar>a j\<bar> \<and> \<bar>a j\<bar> \<le> 2 ^ 50
                \<and> 1 / 2 ^ 50 \<le> c * \<bar>a j\<bar> \<and> c * \<bar>a j\<bar> \<le> 2 ^ 50"
      have b: "1 / 2 ^ 100 \<le> \<bar>a j\<bar> * \<bar>a j\<bar> \<and> \<bar>a j\<bar> * \<bar>a j\<bar> \<le> 2 ^ 100"
        using m by (intro prod_range) simp_all
      have e: "\<bar>a j\<bar> * \<bar>a j\<bar> = a j * a j" by (rule abs_mult_self_eq)
      from b show ?thesis unfolding e by (rule disjI2)
    qed
  qed
  have r_ff: "\<forall>j<K. (c * a j) * (c * a j) = 0
      \<or> (1 / 2 ^ 100 \<le> (c * a j) * (c * a j) \<and> (c * a j) * (c * a j) \<le> 2 ^ 100)"
  proof (intro allI impI)
    fix j assume "j < K"
    from mag[OF this] show "(c * a j) * (c * a j) = 0
      \<or> (1 / 2 ^ 100 \<le> (c * a j) * (c * a j) \<and> (c * a j) * (c * a j) \<le> 2 ^ 100)"
    proof
      assume "a j = 0" then show ?thesis by simp
    next
      assume m: "1 / 2 ^ 50 \<le> \<bar>a j\<bar> \<and> \<bar>a j\<bar> \<le> 2 ^ 50
                \<and> 1 / 2 ^ 50 \<le> c * \<bar>a j\<bar> \<and> c * \<bar>a j\<bar> \<le> 2 ^ 50"
      have b: "1 / 2 ^ 100 \<le> (c * \<bar>a j\<bar>) * (c * \<bar>a j\<bar>)
          \<and> (c * \<bar>a j\<bar>) * (c * \<bar>a j\<bar>) \<le> 2 ^ 100"
        using m by (intro prod_range) simp_all
      have e: "(c * a j) * (c * a j) = (c * \<bar>a j\<bar>) * (c * \<bar>a j\<bar>)"
        by (rule abs_sq_forms(1))
      from b show ?thesis unfolding e by (rule disjI2)
    qed
  qed
  have r_pf: "\<forall>j<K. a j * (c * a j) = 0
      \<or> (1 / 2 ^ 100 \<le> a j * (c * a j) \<and> a j * (c * a j) \<le> 2 ^ 100)"
  proof (intro allI impI)
    fix j assume "j < K"
    from mag[OF this] show "a j * (c * a j) = 0
      \<or> (1 / 2 ^ 100 \<le> a j * (c * a j) \<and> a j * (c * a j) \<le> 2 ^ 100)"
    proof
      assume "a j = 0" then show ?thesis by simp
    next
      assume m: "1 / 2 ^ 50 \<le> \<bar>a j\<bar> \<and> \<bar>a j\<bar> \<le> 2 ^ 50
                \<and> 1 / 2 ^ 50 \<le> c * \<bar>a j\<bar> \<and> c * \<bar>a j\<bar> \<le> 2 ^ 50"
      have b: "1 / 2 ^ 100 \<le> \<bar>a j\<bar> * (c * \<bar>a j\<bar>)
          \<and> \<bar>a j\<bar> * (c * \<bar>a j\<bar>) \<le> 2 ^ 100"
        using m by (intro prod_range) simp_all
      have e: "a j * (c * a j) = \<bar>a j\<bar> * (c * \<bar>a j\<bar>)"
        by (rule abs_sq_forms(2))
      from b show ?thesis unfolding e by (rule disjI2)
    qed
  qed
  define P where "P = (\<Sum>j<K. a j * a j)"
  have sumQ: "(\<Sum>j<K. (c * a j) * (c * a j)) = c * c * P"
    unfolding P_def by (rule sum_scaled_sq)
  have sumD: "(\<Sum>j<K. a j * (c * a j)) = c * P"
    unfolding P_def by (rule sum_scaled_dot)
  have Prng: "0 \<le> P \<and> P \<le> real K * 2 ^ 100 \<and> (P = 0 \<or> 1 / 2 ^ 100 \<le> P)"
    unfolding P_def using r_pp by (intro sum_zero_or_ge) simp_all
  have "a j0 * a j0 \<le> P"
    unfolding P_def using j0(1) by (intro member_le_sum[of j0 _ "\<lambda>j. a j * a j"]) simp_all
  moreover have "0 < a j0 * a j0" using j0(2) by (auto simp: zero_less_mult_iff)
  ultimately have P0: "0 < P" by linarith
  with Prng have Plo: "1 / 2 ^ 100 \<le> P" by auto
  have Kr: "real K \<le> 2 ^ 20" using K by (metis of_nat_le_iff of_nat_numeral of_nat_power)
  have "real K * 2 ^ 100 \<le> 2 ^ 20 * (2 ^ 100 :: real)" using Kr by (intro mult_right_mono) simp_all
  with Prng have Phi: "P \<le> 2 ^ 120" by simp
  have Drng: "0 \<le> c * P \<and> c * P \<le> real K * 2 ^ 100 \<and> (c * P = 0 \<or> 1 / 2 ^ 100 \<le> c * P)"
    unfolding sumD[symmetric] using r_pf by (intro sum_zero_or_ge) simp_all
  have D0: "0 < c * P" using c0 P0 by simp
  with Drng have Dlo: "1 / 2 ^ 100 \<le> c * P" by auto
  have "real K * 2 ^ 100 \<le> 2 ^ 20 * (2 ^ 100 :: real)" using Kr by (intro mult_right_mono) simp_all
  with Drng have Dhi: "c * P \<le> 2 ^ 120" by simp
  have Qrng: "0 \<le> c * c * P \<and> c * c * P \<le> real K * 2 ^ 100
      \<and> (c * c * P = 0 \<or> 1 / 2 ^ 100 \<le> c * c * P)"
    unfolding sumQ[symmetric] using r_ff by (intro sum_zero_or_ge) simp_all
  have Q0: "0 < c * c * P" using c0 P0 by simp
  with Qrng have Qlo: "1 / 2 ^ 100 \<le> c * c * P" by auto
  have "real K * 2 ^ 100 \<le> 2 ^ 20 * (2 ^ 100 :: real)" using Kr by (intro mult_right_mono) simp_all
  with Qrng have Qhi: "c * c * P \<le> 2 ^ 120" by simp
  have lo125: "(2::real) powi (- 125) \<le> 1 / 2 ^ 100" by (simp add: power_int_minus field_simps)
  have k1: "Suc (Suc K) \<le> 2 ^ 23" and k2: "Suc (Suc (Suc K) + Suc (Suc K)) \<le> 2 ^ 23"
    and k3: "Suc (Suc K + Suc (Suc (Suc K) + Suc (Suc K))) \<le> 2 ^ 23"
    using K by simp_all

  have "map (\<lambda>j. fmul (p ! (0 * K + j)) (p ! (0 * K + j))) [0..<K]
        = map (\<lambda>j. fmul (Fin (a j)) (Fin (a j))) [0..<K]"
    by (rule map_cong) (simp_all add: pj)
  then have np_eq: "row_norm p K 0 = sqrtf (fsum (map (\<lambda>j. fmul (Fin (a j)) (Fin (a j))) [0..<K]))"
    by (simp only: row_norm_def)
  obtain x1 where x1: "fsum (map (\<lambda>j. fmul (Fin (a j)) (Fin (a j))) [0..<K]) = Fin x1"
    "near (Suc K) P x1"
    using fsum_products_near[OF K r_pp] unfolding P_def by blast
  have x1p: "0 < x1" using x1(2) P0 by (rule near_pos)
  have "near (Suc K) (sqrt P) (sqrt x1)" using x1(2) P0 by (intro near_sqrt) simp_all
  then have "\<exists>v. round32 (sqrt x1) = Fin v \<and> near (Suc (Suc K)) (sqrt P) v"
    using sqrt_rng[OF Plo Phi] k1 P0 by (intro round32_near_step) simp_all
  then obtain y1 where y1: "round32 (sqrt x1) = Fin y1" "near (Suc (Suc K)) (sqrt P) y1" by blast
  have sP: "0 < sqrt P" using P0 by simp
  have y1p: "0 < y1" using y1(2) sP by (rule near_pos)
  have np: "row_norm p K 0 = Fin y1" using x1(1) x1p y1(1) by (simp add: np_eq)

  have "map (\<lambda>j. fmul (F ! (i * K + j)) (F ! (i * K + j))) [0..<K]
        = map (\<lambda>j. fmul (Fin (c * a j)) (Fin (c * a j))) [0..<K]"
    by (rule map_cong) (simp_all add: Fj)
  then have nf_eq: "row_norm F K i
      = sqrtf (fsum (map (\<lambda>j. fmul (Fin (c * a j)) (Fin (c * a j))) [0..<K]))"
    by (simp only: row_norm_def)
  obtain x2 where x2: "fsum (map (\<lambda>j. fmul (Fin (c * a j)) (Fin (c * a j))) [0..<K]) = Fin x2"
    "near (Suc K) (c * c * P) x2"
    using fsum_products_near[OF K r_ff] unfolding sumQ by blast
  have x2p: "0 < x2" using x2(2) Q0 by (rule near_pos)
  have "near (Suc K) (sqrt (c * c * P)) (sqrt x2)" using x2(2) Q0 by (intro near_sqrt) simp_all
  then have "\<exists>v. round32 (sqrt x2) = Fin v \<and> near (Suc (Suc K)) (sqrt (c * c * P)) v"
    using sqrt_rng[OF Qlo Qhi] k1 Q0 by (intro round32_near_step) simp_all
  then obtain y2 where y2: "round32 (sqrt x2) = Fin y2" "near (Suc (Suc K)) (sqrt (c * c * P)) y2"
    by blast
  have sQ: "0 < sqrt (c * c * P)" using Q0 by simp
  have y2p: "0 < y2" using y2(2) sQ by (rule near_pos)
  have nf: "row_norm F K i = Fin y2" using x2(1) x2p y2(1) by (simp add: nf_eq)

  have "map (\<lambda>j. fmul (p ! j) (F ! (i * K + j))) [0..<K]
        = map (\<lambda>j. fmul (Fin (a j)) (Fin (c * a j))) [0..<K]"
    by (rule map_cong) (simp_all add: pj Fj)
  then have dot_eq: "row_dot p F K i = fsum (map (\<lambda>j. fmul (Fin (a j)) (Fin (c * a j))) [0..<K])"
    by (simp only: row_dot_def)
  obtain x3 where x3: "fsum (map (\<lambda>j. fmul (Fin (a j)) (Fin (c * a j))) [0..<K]) = Fin x3"
    "near (Suc K) (c * P) x3"
    using fsum_products_near[OF K r_pf] unfolding sumD by blast
  have dot: "row_dot p F K i = Fin x3" using x3(1) by (simp add: dot_eq)

  have "sqrt P * sqrt (c * c * P) = sqrt (P * (c * c * P))" by (simp add: real_sqrt_mult)
  also have "P * (c * c * P) = (c * P)\<^sup>2" by (simp add: power2_eq_square algebra_simps)
  also have "sqrt ((c * P)\<^sup>2) = c * P" using D0 by simp
  finally have sPQ: "sqrt P * sqrt (c * c * P) = c * P" .
  have "near (Suc (Suc K) + Suc (Suc K)) (sqrt P * sqrt (c * c * P)) (y1 * y2)"
    using y1(2) y2(2) sP sQ by (intro near_mult) simp_all
  then have "near (Suc (Suc K) + Suc (Suc K)) (c * P) (y1 * y2)" by (simp only: sPQ)
  then have "\<exists>v. round32 (y1 * y2) = Fin v \<and> near (Suc (Suc (Suc K) + Suc (Suc K))) (c * P) v"
    using Dlo Dhi lo125 k2 D0 by (intro round32_near_step) simp_all
  then obtain z where z: "round32 (y1 * y2) = Fin z"
    "near (Suc (Suc (Suc K) + Suc (Suc K))) (c * P) z" by blast
  have zp: "0 < z" using z(2) D0 by (rule near_pos)
  have "near (Suc K + Suc (Suc (Suc K) + Suc (Suc K))) (c * P / (c * P)) (x3 / z)"
    using x3(2) z(2) D0 by (intro near_div) simp_all
  moreover have "c * P / (c * P) = 1" using c0 P0 by simp
  ultimately have q: "near (Suc K + Suc (Suc (Suc K) + Suc (Suc K))) 1 (x3 / z)"
    by (simp only:)
  have "\<exists>v. round32 (x3 / z) = Fin v
             \<and> near (Suc (Suc K + Suc (Suc (Suc K) + Suc (Suc K)))) 1 v"
    using q k3 by (intro round32_near_step) (simp_all add: power_int_minus)
  then obtain v where v: "round32 (x3 / z) = Fin v"
    "near (Suc (Suc K + Suc (Suc (Suc K) + Suc (Suc K)))) 1 v" by blast
  have n: "Suc (Suc K + Suc (Suc (Suc K) + Suc (Suc K))) = 3 * K + 7" by simp
  have "3 * K + 7 \<le> 2 ^ 23" using K by simp
  with v(2) have "1 - real (3 * K + 7) / 2 ^ 23 \<le> v \<and> v \<le> 1 + real (3 * K + 7) / 2 ^ 23"
    unfolding n by (rule near_1_bounds)
  moreover have "cosine p F K i = Fin v"
    using y1p y2p zp z(1) v(1) by (simp add: cosine_def np nf dot)
  ultimately show ?thesis by simp
qed

text \<open>
  Claim C7, as the code has it. Let the profile \<open>p\<close> have \<open>K\<close> finite entries, \<open>K\<close> at most
  \<open>2^20\<close> and the entries not all zero, and let row \<open>i\<close> of the database hold exactly
  \<open>c * p[j]\<close> for a positive \<open>c\<close>, every nonzero entry of the profile and of the row having
  a magnitude from \<open>2^-50\<close> to \<open>2^50\<close>. Then \<^verbatim>\<open>nutrition_optimization\<close> returns, and the
  value it stores for row \<open>i\<close> is finite and within \<open>(3 K + 7) / 2^23\<close> of 1. Without the
  bound on the magnitudes the value can be far from 1: the squares of the norm underflow
  or overflow, and the row \<open>[2^-80]\<close> against the profile \<open>[1]\<close> gives exactly 0, the row
  \<open>[2^64]\<close> against the profile \<open>[2^64]\<close> gives NaN.
\<close>

theorem cosine_match_scaled_row:
  assumes "dims food_database = [R, K]"
    and "data user_profile < length h" and "h ! data user_profile = p" and "length p = K"
    and "data food_database < length h" and "h ! data food_database = F"
    and "length F = R * K"
    and "R < 2 ^ 31" and "K \<le> 2 ^ 20" and "R * K < 2 ^ 31"
    and "i < R" and "scaled_row p F K i c"
  shows "nutrition_optimization old h user_profile food_database
         = Some (\<lparr>dims = [R], data = length h\<rparr>, h @ [map (cosine p F K) [0..<R]])
         \<and> in_range (1 - real (3 * K + 7) / 2 ^ 23) (1 + real (3 * K + 7) / 2 ^ 23)
              (map (cosine p F K) [0..<R] ! i)"
proof
  have "K < 2 ^ 31" using assms(9) by simp
  then show "nutrition_optimization old h user_profile food_database
      = Some (\<lparr>dims = [R], data = length h\<rparr>, h @ [map (cosine p F K) [0..<R]])"
    by (intro nutrition_value) (use assms in simp_all)
next
  have "in_range (1 - real (3 * K + 7) / 2 ^ 23) (1 + real (3 * K + 7) / 2 ^ 23) (cosine p F K i)"
    using assms(9,12) by (rule cosine_scaled)
  then show "in_range (1 - real (3 * K + 7) / 2 ^ 23) (1 + real (3 * K + 7) / 2 ^ 23)
      (map (cosine p F K) [0..<R] ! i)"
    using assms(11) by simp
qed

theorem cosine_match_scaled_row_witness:
  "nutrition_optimization (\<lambda>k. Fin 7) [[Fin 1, Fin 2], [Fin 2, Fin 4]] \<lparr>dims = [2], data = 0\<rparr>
     \<lparr>dims = [1, 2], data = 1\<rparr>
   = Some (\<lparr>dims = [1], data = 2\<rparr>,
           [[Fin 1, Fin 2], [Fin 2, Fin 4], [cosine [Fin 1, Fin 2] [Fin 2, Fin 4] 2 0]])
   \<and> in_range (1 - 13 / 2 ^ 23) (1 + 13 / 2 ^ 23) (cosine [Fin 1, Fin 2] [Fin 2, Fin 4] 2 0)"
proof -
  let ?h = "[[Fin 1, Fin 2], [Fin 2, Fin 4]]"
  let ?p = "\<lparr>dims = [2], data = 0\<rparr>"
  let ?f = "\<lparr>dims = [1, 2], data = 1\<rparr>"
  have sc: "scaled_row [Fin 1, Fin 2] [Fin 2, Fin 4] 2 0 2"
    unfolding scaled_row_def
  proof (intro conjI)
    show "\<exists>j<2. valof ([Fin 1, Fin 2] ! j) \<noteq> 0" by (rule exI[of _ 0]) simp
  qed (simp_all add: less_2_cases_iff)
  have hyps: "dims ?f = [1, 2]" "data ?p < length ?h" "?h ! data ?p = [Fin 1, Fin 2]"
    "length [Fin 1, Fin 2 :: f32] = 2" "data ?f < length ?h" "?h ! data ?f = [Fin 2, Fin 4]"
    "length [Fin 2, Fin 4] = 1 * 2" "(1::nat) < 2 ^ 31" "(2::nat) \<le> 2 ^ 20" "(1::nat) * 2 < 2 ^ 31"
    "(0::nat) < 1"
    by simp_all
  note inst = cosine_match_scaled_row[OF hyps sc]
  from inst show ?thesis by simp
qed

lemma fmul_tiny: "fmul (Fin (1 / 2 ^ 80)) (Fin (1 / 2 ^ 80)) = Fin 0"
proof -
  have "(1 / 2 ^ 80) * (1 / 2 ^ 80) \<le> (1 / 2 ^ 150 :: real)" by simp
  then have "round32 ((1 / 2 ^ 80) * (1 / 2 ^ 80)) = Fin 0" by (intro round32_underflow) simp_all
  then show ?thesis by (simp only: fmul.simps)
qed

lemma fmul_huge: "fmul (Fin (2 ^ 64)) (Fin (2 ^ 64)) = PInf"
proof -
  have "round32 (2 ^ 64 * 2 ^ 64) = PInf" by (rule round32_overflow) simp
  then show ?thesis by (simp only: fmul.simps)
qed

lemma cosine_tiny_row: "cosine [Fin 1] [Fin (1 / 2 ^ 80)] 1 0 = Fin 0"
proof -
  have "row_norm [Fin (1 / 2 ^ 80)] 1 0 = Fin 0"
    using fmul_tiny by (simp add: row_norm_def fsum_def)
  then show ?thesis by (simp add: cosine_zero_norm)
qed

lemma cosine_huge_row: "cosine [Fin (2 ^ 64)] [Fin (2 ^ 64)] 1 0 = NaN"
proof -
  have n: "row_norm [Fin (2 ^ 64)] 1 0 = PInf"
    using fmul_huge by (simp add: row_norm_def fsum_def)
  have d: "row_dot [Fin (2 ^ 64)] [Fin (2 ^ 64)] 1 0 = PInf"
    using fmul_huge by (simp add: row_dot_def fsum_def)
  show ?thesis using n d by (simp add: cosine_def inf_signed_def)
qed

theorem cosine_match_scaled_row_far_from_one:
  "nutrition_optimization (\<lambda>k. Fin 7) [[Fin 1], [Fin (1 / 2 ^ 80)]] \<lparr>dims = [1], data = 0\<rparr>
     \<lparr>dims = [1, 1], data = 1\<rparr>
   = Some (\<lparr>dims = [1], data = 2\<rparr>, [[Fin 1], [Fin (1 / 2 ^ 80)], [Fin 0]])
   \<and> nutrition_optimization (\<lambda>k. Fin 7) [[Fin (2 ^ 64)], [Fin (2 ^ 64)]] \<lparr>dims = [1], data = 0\<rparr>
     \<lparr>dims = [1, 1], data = 1\<rparr>
   = Some (\<lparr>dims = [1], data = 2\<rparr>, [[Fin (2 ^ 64)], [Fin (2 ^ 64)], [NaN]])
   \<and> representable (1 / 2 ^ 80) \<and> representable (2 ^ 64)"
proof (intro conjI)
  show "nutrition_optimization (\<lambda>k. Fin 7) [[Fin 1], [Fin (1 / 2 ^ 80)]] \<lparr>dims = [1], data = 0\<rparr>
     \<lparr>dims = [1, 1], data = 1\<rparr>
   = Some (\<lparr>dims = [1], data = 2\<rparr>, [[Fin 1], [Fin (1 / 2 ^ 80)], [Fin 0]])"
    using nutrition_value[where old = "\<lambda>k. Fin 7" and h = "[[Fin 1], [Fin (1 / 2 ^ 80)]]" and R = 1 and K = 1
      and user_profile = "\<lparr>dims = [1], data = 0\<rparr>" and food_database = "\<lparr>dims = [1, 1], data = 1\<rparr>"
      and p = "[Fin 1]" and F = "[Fin (1 / 2 ^ 80)]"] cosine_tiny_row
    by simp
  show "nutrition_optimization (\<lambda>k. Fin 7) [[Fin (2 ^ 64)], [Fin (2 ^ 64)]] \<lparr>dims = [1], data = 0\<rparr>
     \<lparr>dims = [1, 1], data = 1\<rparr>
   = Some (\<lparr>dims = [1], data = 2\<rparr>, [[Fin (2 ^ 64)], [Fin (2 ^ 64)], [NaN]])"
    using nutrition_value[where old = "\<lambda>k. Fin 7" and h = "[[Fin (2 ^ 64)], [Fin (2 ^ 64)]]" and R = 1 and K = 1
      and user_profile = "\<lparr>dims = [1], data = 0\<rparr>" and food_database = "\<lparr>dims = [1, 1], data = 1\<rparr>"
      and p = "[Fin (2 ^ 64)]" and F = "[Fin (2 ^ 64)]"] cosine_huge_row
    by simp
  show "representable (1 / 2 ^ 80)" using representable_dyadic[of 1 80] by simp
  show "representable (2 ^ 64)" by (rule representableI[where m = 1 and k = 64]) simp_all
qed

section \<open>Mean and variance of a standardised column\<close>

lemmas pow_eval = power_numeral Num.pow.simps Num.sqr.simps mult_num_simps add_num_simps
  Num.one_plus_BitM Num.BitM.simps

lemma round_mag_err:
  assumes "0 \<le> a"
  shows "\<bar>round_mag a - a\<bar> \<le> (a + 2 powi (- 126)) / 2 ^ 24"
proof -
  define q :: real where "q = 2 powi (binade a - 23)"
  define v where "v = of_int (round_even (a / q)) * q"
  have q0: "0 < q" by (simp add: q_def)
  have v: "round_mag a = v" by (simp add: round_mag_def Let_def v_def q_def)
  have qe: "2 ^ 23 * q = 2 powi (binade a)" unfolding q_def by (rule powi_split'[symmetric])
  have "a / q - 1 / 2 \<le> of_int (round_even (a / q))" by (rule round_even_lower)
  then have "(a / q - 1 / 2) * q \<le> v" unfolding v_def using q0 by (intro mult_right_mono) simp_all
  moreover have "(a / q - 1 / 2) * q = a - q / 2" using q0 by (simp add: field_simps)
  ultimately have lo: "a - q / 2 \<le> v" by simp
  have "of_int (round_even (a / q)) \<le> a / q + 1 / 2" by (rule round_even_upper)
  then have "v \<le> (a / q + 1 / 2) * q" unfolding v_def using q0 by (intro mult_right_mono) simp_all
  moreover have "(a / q + 1 / 2) * q = a + q / 2" using q0 by (simp add: field_simps)
  ultimately have hi: "v \<le> a + q / 2" by simp
  have "2 powi (binade a) \<le> a + 2 powi (- 126)"
  proof (cases "a < 2 powi (- 126)")
    case True
    then have "binade a = - 126" by (rule binade_small)
    with assms show ?thesis by simp
  next
    case False
    then have "2 powi (binade a) \<le> a" using binade_bounds[of a] by simp
    moreover have "(0::real) \<le> 2 powi (- 126)" by simp
    ultimately show ?thesis by linarith
  qed
  then have "2 ^ 23 * q \<le> a + 2 powi (- 126)" using qe by simp
  then have "q / 2 \<le> (a + 2 powi (- 126)) / 2 ^ 24" by (simp add: field_simps)
  with lo hi show ?thesis unfolding v by linarith
qed

lemma round32_err:
  assumes "\<bar>z\<bar> \<le> 2 ^ 127"
  shows "\<exists>v. round32 z = Fin v \<and> \<bar>v - z\<bar> \<le> (\<bar>z\<bar> + 2 powi (- 126)) / 2 ^ 24"
proof -
  define y where "y = round_mag \<bar>z\<bar>"
  have err: "\<bar>y - \<bar>z\<bar>\<bar> \<le> (\<bar>z\<bar> + 2 powi (- 126)) / 2 ^ 24"
    unfolding y_def by (rule round_mag_err) simp
  have t: "(2::real) powi (- 126) \<le> 1" by (simp add: power_int_minus field_simps)
  have "(\<bar>z\<bar> + 2 powi (- 126)) / 2 ^ 24 \<le> (2 ^ 127 + 1) / 2 ^ 24"
    using assms t by (intro divide_right_mono) simp_all
  with err assms have "y \<le> 2 ^ 127 + (2 ^ 127 + 1) / 2 ^ 24" by linarith
  also have "\<dots> < (2::real) ^ 128" by simp
  finally have lt: "y < 2 ^ 128" .
  have r: "round32 z = Fin (if z < 0 then - y else y)"
    using lt by (simp add: round32_def Let_def y_def)
  have "\<bar>(if z < 0 then - y else y) - z\<bar> = \<bar>y - \<bar>z\<bar>\<bar>" by (cases "z < 0") simp_all
  with err r show ?thesis by auto
qed

lemma round32_errM:
  assumes "\<bar>z\<bar> \<le> M" and "2 powi (- 126) \<le> M" and "M \<le> 2 ^ 127"
  shows "\<exists>v. round32 z = Fin v \<and> \<bar>v - z\<bar> \<le> M / 2 ^ 23"
proof -
  have "\<bar>z\<bar> \<le> 2 ^ 127" using assms(1,3) by linarith
  then obtain v where v: "round32 z = Fin v" "\<bar>v - z\<bar> \<le> (\<bar>z\<bar> + 2 powi (- 126)) / 2 ^ 24"
    using round32_err by blast
  have "(\<bar>z\<bar> + 2 powi (- 126)) / 2 ^ 24 \<le> (M + M) / 2 ^ 24"
    using assms(1,2) by (intro divide_right_mono) simp_all
  also have "\<dots> = M / 2 ^ 23" by simp
  finally show ?thesis using v by force
qed

lemma fsum_err:
  fixes t :: "nat \<Rightarrow> real"
  assumes "n \<le> 2 ^ 20" and "\<forall>k\<le>n. \<bar>\<Sum>i<k. t i\<bar> \<le> P"
    and "2 powi (- 126) \<le> P" and "P \<le> 2 ^ 125"
  shows "\<exists>s. fsum (map (\<lambda>i. Fin (t i)) [0..<n]) = Fin s \<and> \<bar>s - (\<Sum>i<n. t i)\<bar> \<le> real n * P / 2 ^ 22"
  using assms(1,2)
proof (induction n)
  case 0
  then show ?case by (simp add: fsum_def)
next
  case (Suc n)
  have "(0::real) < 2 powi (- 126)" by simp
  then have P0: "0 < P" using assms(3) by linarith
  from Suc.prems have "n \<le> 2 ^ 20" and "\<forall>k\<le>n. \<bar>\<Sum>i<k. t i\<bar> \<le> P" by simp_all
  then obtain s where s: "fsum (map (\<lambda>i. Fin (t i)) [0..<n]) = Fin s"
    "\<bar>s - (\<Sum>i<n. t i)\<bar> \<le> real n * P / 2 ^ 22"
    using Suc.IH by blast
  have nr: "real n \<le> 2 ^ 20"
    using \<open>n \<le> 2 ^ 20\<close> by (metis of_nat_le_iff of_nat_numeral of_nat_power)
  have "real n * P \<le> 2 ^ 20 * P" using nr P0 by (intro mult_right_mono) simp_all
  then have "real n * P / 2 ^ 22 \<le> 2 ^ 20 * P / 2 ^ 22" by (intro divide_right_mono) simp_all
  then have e4: "real n * P / 2 ^ 22 \<le> P / 4" by simp
  have pre: "\<bar>\<Sum>i<Suc n. t i\<bar> \<le> P" using Suc.prems(2) by blast
  have "\<bar>s + t n\<bar> \<le> \<bar>\<Sum>i<Suc n. t i\<bar> + \<bar>s - (\<Sum>i<n. t i)\<bar>" by simp
  with pre s(2) e4 have mag: "\<bar>s + t n\<bar> \<le> 2 * P" by linarith
  have "\<bar>s + t n\<bar> \<le> 2 ^ 127" using mag assms(4) by simp
  then obtain v where v: "round32 (s + t n) = Fin v"
    "\<bar>v - (s + t n)\<bar> \<le> (\<bar>s + t n\<bar> + 2 powi (- 126)) / 2 ^ 24"
    using round32_err by blast
  have "(\<bar>s + t n\<bar> + 2 powi (- 126)) / 2 ^ 24 \<le> (2 * P + P) / 2 ^ 24"
    using mag assms(3) by (intro divide_right_mono) simp_all
  also have "\<dots> \<le> P / 2 ^ 22" using P0 by simp
  finally have ve: "\<bar>v - (s + t n)\<bar> \<le> P / 2 ^ 22" using v(2) by linarith
  have "fsum (map (\<lambda>i. Fin (t i)) [0..<Suc n]) = fadd (Fin s) (Fin (t n))"
    by (simp add: fsum_snoc s(1))
  then have f: "fsum (map (\<lambda>i. Fin (t i)) [0..<Suc n]) = Fin v" using v(1) by simp
  have "real (Suc n) * P / 2 ^ 22 = real n * P / 2 ^ 22 + P / 2 ^ 22"
    by (simp add: field_simps)
  moreover have "\<bar>v - (\<Sum>i<Suc n. t i)\<bar> \<le> \<bar>v - (s + t n)\<bar> + \<bar>s - (\<Sum>i<n. t i)\<bar>" by simp
  ultimately have "\<bar>v - (\<Sum>i<Suc n. t i)\<bar> \<le> real (Suc n) * P / 2 ^ 22"
    using ve s(2) by linarith
  with f show ?case by blast
qed

lemma sum_abs_le_count:
  fixes z :: "nat \<Rightarrow> real"
  assumes "(\<Sum>i<n. (z i)\<^sup>2) = real n"
  shows "(\<Sum>i<n. \<bar>z i\<bar>) \<le> real n"
proof -
  have "2 * \<bar>z i\<bar> \<le> (z i)\<^sup>2 + 1" for i
  proof -
    have "0 \<le> (\<bar>z i\<bar> - 1)\<^sup>2" by simp
    then show ?thesis by (simp add: power2_eq_square algebra_simps)
  qed
  then have "(\<Sum>i<n. 2 * \<bar>z i\<bar>) \<le> (\<Sum>i<n. (z i)\<^sup>2 + 1)" by (intro sum_mono) simp
  also have "\<dots> = real n + real n" by (simp add: sum.distrib assms)
  finally have "2 * (\<Sum>i<n. \<bar>z i\<bar>) \<le> 2 * real n" by (simp add: sum_distrib_left)
  then show ?thesis by simp
qed

lemma sum_sq_shift:
  fixes y :: "nat \<Rightarrow> real"
  assumes "0 < n"
  shows "(\<Sum>i<n. (y i - (\<Sum>i<n. y i) / real n)\<^sup>2)
         = (\<Sum>i<n. (y i)\<^sup>2) - real n * ((\<Sum>i<n. y i) / real n)\<^sup>2"
proof -
  define c where "c = (\<Sum>i<n. y i) / real n"
  have s: "(\<Sum>i<n. y i) = real n * c" using assms by (simp add: c_def)
  have "(\<Sum>i<n. (y i - c)\<^sup>2) = (\<Sum>i<n. (y i)\<^sup>2 - 2 * c * y i + c\<^sup>2)"
    by (rule sum.cong) (simp_all add: power2_eq_square algebra_simps)
  also have "\<dots> = (\<Sum>i<n. (y i)\<^sup>2) - 2 * c * (\<Sum>i<n. y i) + real n * c\<^sup>2"
    by (simp add: sum.distrib sum_subtractf sum_distrib_left)
  also have "\<dots> = (\<Sum>i<n. (y i)\<^sup>2) - real n * c\<^sup>2"
    unfolding s by (simp add: power2_eq_square algebra_simps)
  finally show ?thesis unfolding c_def .
qed

lemma stats_perturbed:
  fixes y z :: "nat \<Rightarrow> real"
  assumes n: "0 < n" and z0: "(\<Sum>i<n. z i) = 0" and z1: "(\<Sum>i<n. (z i)\<^sup>2) = real n"
    and e: "\<forall>i<n. \<bar>y i - z i\<bar> \<le> a + b * \<bar>z i\<bar>"
    and a: "0 \<le> a" and b: "0 \<le> b" and ab: "a + b \<le> 1 / 3"
  shows "\<bar>(\<Sum>i<n. y i) / real n\<bar> \<le> a + b"
    and "\<bar>(\<Sum>i<n. (y i - (\<Sum>i<n. y i) / real n)\<^sup>2) / real n - 1\<bar> \<le> 3 * (a + b)"
proof -
  define N where "N = real n"
  define s where "s = a + b"
  have N0: "0 < N" using n by (simp add: N_def)
  have az: "(\<Sum>i<n. \<bar>z i\<bar>) \<le> N" unfolding N_def using z1 by (rule sum_abs_le_count)
  have s0: "0 \<le> s" using a b by (simp add: s_def)
  have bound: "(\<Sum>i<n. a + b * \<bar>z i\<bar>) \<le> s * N"
  proof -
    have "(\<Sum>i<n. a + b * \<bar>z i\<bar>) = a * N + b * (\<Sum>i<n. \<bar>z i\<bar>)"
      by (simp add: sum.distrib sum_distrib_left N_def)
    also have "\<dots> \<le> a * N + b * N" using az b by (simp add: mult_left_mono)
    finally show ?thesis by (simp add: s_def algebra_simps)
  qed
  have "(\<Sum>i<n. y i) = (\<Sum>i<n. z i) + (\<Sum>i<n. y i - z i)" by (simp add: sum.distrib[symmetric])
  then have "\<bar>\<Sum>i<n. y i\<bar> = \<bar>\<Sum>i<n. y i - z i\<bar>" using z0 by simp
  also have "\<dots> \<le> (\<Sum>i<n. \<bar>y i - z i\<bar>)" by (rule sum_abs)
  also have "\<dots> \<le> (\<Sum>i<n. a + b * \<bar>z i\<bar>)" using e by (intro sum_mono) simp
  finally have sy: "\<bar>\<Sum>i<n. y i\<bar> \<le> s * N" using bound by linarith
  have "\<bar>(\<Sum>i<n. y i) / N\<bar> = \<bar>\<Sum>i<n. y i\<bar> / N" using N0 by simp
  also have "\<dots> \<le> s * N / N" using sy N0 by (intro divide_right_mono) simp_all
  finally have m: "\<bar>(\<Sum>i<n. y i) / N\<bar> \<le> s" using N0 by simp
  then show "\<bar>(\<Sum>i<n. y i) / real n\<bar> \<le> a + b" by (simp add: N_def s_def)
  have sq: "(\<Sum>i<n. (y i)\<^sup>2) = N + 2 * (\<Sum>i<n. z i * (y i - z i)) + (\<Sum>i<n. (y i - z i)\<^sup>2)"
  proof -
    have "(\<Sum>i<n. (y i)\<^sup>2) = (\<Sum>i<n. (z i)\<^sup>2 + 2 * (z i * (y i - z i)) + (y i - z i)\<^sup>2)"
      by (rule sum.cong) (simp_all add: power2_eq_square algebra_simps)
    then show ?thesis by (simp add: sum.distrib sum_distrib_left z1 N_def)
  qed
  have cross: "\<bar>\<Sum>i<n. z i * (y i - z i)\<bar> \<le> s * N"
  proof -
    have "\<bar>\<Sum>i<n. z i * (y i - z i)\<bar> \<le> (\<Sum>i<n. \<bar>z i * (y i - z i)\<bar>)" by (rule sum_abs)
    also have "\<dots> \<le> (\<Sum>i<n. a * \<bar>z i\<bar> + b * (z i)\<^sup>2)"
    proof (intro sum_mono)
      fix i assume "i \<in> {..<n}"
      then have "\<bar>y i - z i\<bar> \<le> a + b * \<bar>z i\<bar>" using e by simp
      then have "\<bar>z i\<bar> * \<bar>y i - z i\<bar> \<le> \<bar>z i\<bar> * (a + b * \<bar>z i\<bar>)" by (intro mult_left_mono) simp_all
      also have "\<dots> = a * \<bar>z i\<bar> + b * (z i)\<^sup>2" by (simp add: power2_eq_square algebra_simps)
      finally show "\<bar>z i * (y i - z i)\<bar> \<le> a * \<bar>z i\<bar> + b * (z i)\<^sup>2" by (simp add: abs_mult)
    qed
    also have "\<dots> = a * (\<Sum>i<n. \<bar>z i\<bar>) + b * N"
      by (simp add: sum.distrib sum_distrib_left[symmetric] z1 N_def)
    also have "\<dots> \<le> a * N + b * N" using az a by (simp add: mult_left_mono)
    finally show ?thesis by (simp add: s_def algebra_simps)
  qed
  have e2: "(\<Sum>i<n. (y i - z i)\<^sup>2) \<le> 2 * s\<^sup>2 * N"
  proof -
    have "(\<Sum>i<n. (y i - z i)\<^sup>2) \<le> (\<Sum>i<n. 2 * a\<^sup>2 + 2 * b\<^sup>2 * (z i)\<^sup>2)"
    proof (intro sum_mono)
      fix i assume "i \<in> {..<n}"
      then have "\<bar>y i - z i\<bar> \<le> a + b * \<bar>z i\<bar>" using e by simp
      then have "\<bar>y i - z i\<bar> \<le> \<bar>a + b * \<bar>z i\<bar>\<bar>" by simp
      then have "(y i - z i)\<^sup>2 \<le> (a + b * \<bar>z i\<bar>)\<^sup>2" by (simp only: abs_le_square_iff)
      also have "\<dots> \<le> 2 * a\<^sup>2 + 2 * b\<^sup>2 * (z i)\<^sup>2"
      proof -
        have "0 \<le> (a - b * \<bar>z i\<bar>)\<^sup>2" by simp
        then show ?thesis by (simp add: power2_eq_square algebra_simps)
      qed
      finally show "(y i - z i)\<^sup>2 \<le> 2 * a\<^sup>2 + 2 * b\<^sup>2 * (z i)\<^sup>2" .
    qed
    also have "\<dots> = 2 * a\<^sup>2 * N + 2 * b\<^sup>2 * N"
      by (simp add: sum.distrib sum_distrib_left[symmetric] z1 N_def)
    also have "\<dots> \<le> 2 * s\<^sup>2 * N"
    proof -
      have "a\<^sup>2 + b\<^sup>2 \<le> s\<^sup>2" using a b by (simp add: s_def power2_eq_square algebra_simps)
      then have "(a\<^sup>2 + b\<^sup>2) * (2 * N) \<le> s\<^sup>2 * (2 * N)" using N0 by (intro mult_right_mono) simp_all
      then show ?thesis by (simp add: algebra_simps)
    qed
    finally show ?thesis .
  qed
  have e20: "0 \<le> (\<Sum>i<n. (y i - z i)\<^sup>2)" by (intro sum_nonneg) simp
  define q where "q = (\<Sum>i<n. (y i)\<^sup>2) / N"
  define c where "c = (\<Sum>i<n. y i) / N"
  have qlo: "1 - 2 * s \<le> q" and qhi: "q \<le> 1 + 2 * s + 2 * s\<^sup>2"
  proof -
    have "N - 2 * (s * N) \<le> (\<Sum>i<n. (y i)\<^sup>2)" using sq cross e20 by linarith
    then have "(N - 2 * (s * N)) / N \<le> q" unfolding q_def using N0 by (intro divide_right_mono) simp_all
    moreover have "(N - 2 * (s * N)) / N = 1 - 2 * s" using N0 by (simp add: field_simps)
    ultimately show "1 - 2 * s \<le> q" by simp
    have "(\<Sum>i<n. (y i)\<^sup>2) \<le> N + 2 * (s * N) + 2 * s\<^sup>2 * N" using sq cross e2 by linarith
    then have "q \<le> (N + 2 * (s * N) + 2 * s\<^sup>2 * N) / N"
      unfolding q_def using N0 by (intro divide_right_mono) simp_all
    moreover have "(N + 2 * (s * N) + 2 * s\<^sup>2 * N) / N = 1 + 2 * s + 2 * s\<^sup>2"
      using N0 by (simp add: field_simps)
    ultimately show "q \<le> 1 + 2 * s + 2 * s\<^sup>2" by simp
  qed
  have c2: "c\<^sup>2 \<le> s\<^sup>2"
  proof -
    have "\<bar>c\<bar> \<le> \<bar>s\<bar>" using m s0 by (simp add: c_def)
    then show ?thesis by (simp only: abs_le_square_iff)
  qed
  have c20: "0 \<le> c\<^sup>2" by simp
  have s2: "s\<^sup>2 \<le> s / 3"
  proof -
    have "s * s \<le> s * (1 / 3)" using s0 ab by (intro mult_left_mono) (simp_all add: s_def)
    then show ?thesis by (simp add: power2_eq_square)
  qed
  have "(\<Sum>i<n. (y i - (\<Sum>i<n. y i) / real n)\<^sup>2) / real n = q - c\<^sup>2"
  proof -
    have "(\<Sum>i<n. (y i - (\<Sum>i<n. y i) / real n)\<^sup>2)
          = (\<Sum>i<n. (y i)\<^sup>2) - real n * ((\<Sum>i<n. y i) / real n)\<^sup>2"
      using n by (rule sum_sq_shift)
    then have "(\<Sum>i<n. (y i - (\<Sum>i<n. y i) / real n)\<^sup>2) / real n
          = ((\<Sum>i<n. (y i)\<^sup>2) - N * c\<^sup>2) / N" by (simp add: N_def c_def)
    also have "\<dots> = q - c\<^sup>2" using N0 by (simp add: q_def field_simps)
    finally show ?thesis .
  qed
  moreover have "\<bar>q - c\<^sup>2 - 1\<bar> \<le> 3 * s" using qlo qhi c2 c20 s2 by linarith
  ultimately show "\<bar>(\<Sum>i<n. (y i - (\<Sum>i<n. y i) / real n)\<^sup>2) / real n - 1\<bar> \<le> 3 * (a + b)"
    by (simp add: s_def)
qed

lemma int_to_float_exact:
  assumes "R \<le> 2 ^ 24"
  shows "int_to_float (int R) = Fin (real R)"
proof -
  have "int R \<le> 2 ^ 24" using assms by (metis of_nat_le_iff of_nat_numeral of_nat_power)
  then have "representable (of_int (int R))" by (intro representable_int) simp
  then show ?thesis by (simp add: int_to_float_def representable_def)
qed

lemma tiny_le: "(2::real) powi (- 126) \<le> 1 / 2 ^ 126"
  by (simp add: power_int_minus field_simps)

lemma abs_sum_le_count:
  fixes x :: "nat \<Rightarrow> real"
  assumes "\<forall>i<R. \<bar>x i\<bar> \<le> B" and "k \<le> R" and "0 \<le> B"
  shows "\<bar>\<Sum>i<k. x i\<bar> \<le> real R * B"
proof -
  have "\<bar>\<Sum>i<k. x i\<bar> \<le> (\<Sum>i<k. \<bar>x i\<bar>)" by (rule sum_abs)
  also have "\<dots> \<le> (\<Sum>i<k. B)" using assms(1,2) by (intro sum_mono) simp
  also have "\<dots> = real k * B" by simp
  also have "\<dots> \<le> real R * B" using assms(2,3) by (intro mult_right_mono) simp_all
  finally show ?thesis .
qed

lemma col_mean_err:
  fixes x :: "nat \<Rightarrow> real"
  assumes R: "0 < R" "R \<le> 2 ^ 12" and xB: "\<forall>i<R. \<bar>x i\<bar> \<le> B"
    and B: "2 powi (- 126) \<le> B" "B \<le> 2 ^ 100"
  shows "\<exists>m. fdiv (fsum (map (\<lambda>i. Fin (x i)) [0..<R])) (int_to_float (int R)) = Fin m
             \<and> \<bar>m - (\<Sum>i<R. x i) / real R\<bar> \<le> (4 * real R + 3) * B / 2 ^ 24"
proof -
  define n where "n = real R"
  define S where "S = (\<Sum>i<R. x i)"
  have "(0::real) < 2 powi (- 126)" by simp
  then have B0: "0 < B" using B(1) by linarith
  have n1: "1 \<le> n" using R(1) by (simp add: n_def)
  have n12: "n \<le> 2 ^ 12" unfolding n_def using R(2) by (metis of_nat_le_iff of_nat_numeral of_nat_power)
  have nB: "B \<le> n * B" using n1 B0 by simp
  have nB': "n * B \<le> 2 ^ 12 * B" using n12 B0 by (intro mult_right_mono) simp_all
  have pre: "\<forall>k\<le>R. \<bar>\<Sum>i<k. x i\<bar> \<le> n * B"
    unfolding n_def using xB B0 by (auto intro!: abs_sum_le_count)
  have "2 ^ 12 * B \<le> 2 ^ 12 * (2 ^ 100 :: real)" using B(2) by (intro mult_left_mono) simp_all
  then have P125: "n * B \<le> 2 ^ 125" using nB' by simp
  have "R \<le> 2 ^ 20" using R(2) by simp
  from fsum_err[OF this pre _ P125] B(1) nB
  obtain s where s: "fsum (map (\<lambda>i. Fin (x i)) [0..<R]) = Fin s"
    "\<bar>s - S\<bar> \<le> n * (n * B) / 2 ^ 22"
    unfolding S_def n_def by (metis order_trans)
  have f: "int_to_float (int R) = Fin n" unfolding n_def using R(2) by (intro int_to_float_exact) simp
  have SB: "\<bar>S\<bar> \<le> n * B" using pre unfolding S_def by blast
  have e1: "\<bar>s / n - S / n\<bar> \<le> n * B / 2 ^ 22"
  proof -
    have "\<bar>s / n - S / n\<bar> = \<bar>s - S\<bar> / n" using n1 by (simp add: diff_divide_distrib[symmetric])
    also have "\<dots> \<le> (n * (n * B) / 2 ^ 22) / n" using s(2) n1 by (intro divide_right_mono) simp_all
    also have "\<dots> = n * B / 2 ^ 22" using n1 by simp
    finally show ?thesis .
  qed
  have mu: "\<bar>S / n\<bar> \<le> B"
  proof -
    have "\<bar>S / n\<bar> = \<bar>S\<bar> / n" using n1 by simp
    also have "\<dots> \<le> n * B / n" using SB n1 by (intro divide_right_mono) simp_all
    also have "\<dots> = B" using n1 by simp
    finally show ?thesis .
  qed
  have "n * B / 2 ^ 22 \<le> 2 ^ 12 * B / 2 ^ 22" using nB' by (intro divide_right_mono) simp_all
  then have small: "n * B / 2 ^ 22 \<le> B" using B0 by simp
  have mag: "\<bar>s / n\<bar> \<le> 2 * B" using e1 mu small by linarith
  have "2 * B \<le> 2 * (2 ^ 100 :: real)" using B(2) by simp
  then have "\<bar>s / n\<bar> \<le> 2 ^ 127" using mag by simp
  then obtain m where m: "round32 (s / n) = Fin m"
    "\<bar>m - s / n\<bar> \<le> (\<bar>s / n\<bar> + 2 powi (- 126)) / 2 ^ 24"
    using round32_err by blast
  have "(\<bar>s / n\<bar> + 2 powi (- 126)) / 2 ^ 24 \<le> (2 * B + B) / 2 ^ 24"
    using mag B(1) by (intro divide_right_mono) simp_all
  with m(2) have e2: "\<bar>m - s / n\<bar> \<le> 3 * B / 2 ^ 24" by simp
  have "n \<noteq> 0" using n1 by simp
  then have "fdiv (Fin s) (Fin n) = Fin m" using m(1) by simp
  then have run: "fdiv (fsum (map (\<lambda>i. Fin (x i)) [0..<R])) (int_to_float (int R)) = Fin m"
    by (simp only: s(1) f)
  have "(4 * n + 3) * B / 2 ^ 24 = n * B / 2 ^ 22 + 3 * B / 2 ^ 24" by (simp add: field_simps)
  moreover have "\<bar>m - S / n\<bar> \<le> \<bar>m - s / n\<bar> + \<bar>s / n - S / n\<bar>" by simp
  ultimately have "\<bar>m - S / n\<bar> \<le> (4 * n + 3) * B / 2 ^ 24" using e1 e2 by linarith
  with run show ?thesis unfolding S_def n_def by blast
qed

lemma deviation_err:
  assumes "\<bar>x\<bar> \<le> B" and "\<bar>mu\<bar> \<le> B" and "\<bar>m - mu\<bar> \<le> (4 * n + 3) * B / 2 ^ 24"
    and "1 \<le> n" and "n \<le> 2 ^ 12" and "2 powi (- 126) \<le> B" and "B \<le> 2 ^ 100"
  shows "\<exists>d. fsub (Fin x) (Fin m) = Fin d \<and> \<bar>d - (x - mu)\<bar> \<le> (4 * n + 7) * B / 2 ^ 24"
proof -
  have "(0::real) < 2 powi (- 126)" by simp
  then have B0: "0 < B" using assms(6) by linarith
  have "(4 * n + 3) * B \<le> (4 * 2 ^ 12 + 3) * B" using assms(5) B0 by (intro mult_right_mono) simp_all
  then have "(4 * n + 3) * B / 2 ^ 24 \<le> (4 * 2 ^ 12 + 3) * B / 2 ^ 24"
    by (intro divide_right_mono) simp_all
  also have "\<dots> \<le> B" using B0 by simp
  finally have small: "(4 * n + 3) * B / 2 ^ 24 \<le> B" .
  have mag: "\<bar>x - m\<bar> \<le> 3 * B" using assms(1,2,3) small by linarith
  have "3 * B \<le> 3 * (2 ^ 100 :: real)" using assms(7) by simp
  then have "\<bar>x - m\<bar> \<le> 2 ^ 127" using mag by simp
  then obtain d where d: "round32 (x - m) = Fin d"
    "\<bar>d - (x - m)\<bar> \<le> (\<bar>x - m\<bar> + 2 powi (- 126)) / 2 ^ 24"
    using round32_err by blast
  have "(\<bar>x - m\<bar> + 2 powi (- 126)) / 2 ^ 24 \<le> (3 * B + B) / 2 ^ 24"
    using mag assms(6) by (intro divide_right_mono) simp_all
  with d(2) have e: "\<bar>d - (x - m)\<bar> \<le> 4 * B / 2 ^ 24" by simp
  have run: "fsub (Fin x) (Fin m) = Fin d" using d(1) by (simp add: fsub_def)
  have "(4 * n + 7) * B / 2 ^ 24 = (4 * n + 3) * B / 2 ^ 24 + 4 * B / 2 ^ 24"
    by (simp add: field_simps)
  moreover have "\<bar>d - (x - mu)\<bar> \<le> \<bar>d - (x - m)\<bar> + \<bar>m - mu\<bar>" by simp
  ultimately have "\<bar>d - (x - mu)\<bar> \<le> (4 * n + 7) * B / 2 ^ 24" using e assms(3) by linarith
  with run show ?thesis by blast
qed

lemma sum_abs_le_scaled:
  fixes d :: "nat \<Rightarrow> real"
  assumes "(\<Sum>i<R. (d i)\<^sup>2) = real R * s\<^sup>2" and "0 < s"
  shows "(\<Sum>i<R. \<bar>d i\<bar>) \<le> real R * s"
proof -
  have "2 * s * \<bar>d i\<bar> \<le> (d i)\<^sup>2 + s\<^sup>2" for i
  proof -
    have "0 \<le> (\<bar>d i\<bar> - s)\<^sup>2" by simp
    then show ?thesis by (simp add: power2_eq_square algebra_simps)
  qed
  then have "(\<Sum>i<R. 2 * s * \<bar>d i\<bar>) \<le> (\<Sum>i<R. (d i)\<^sup>2 + s\<^sup>2)" by (intro sum_mono) simp
  also have "\<dots> = 2 * (real R * s\<^sup>2)" by (simp add: sum.distrib assms(1))
  finally have "(2 * s) * (\<Sum>i<R. \<bar>d i\<bar>) \<le> (2 * s) * (real R * s)"
    by (simp add: sum_distrib_left power2_eq_square algebra_simps)
  then show ?thesis using assms(2) by (simp only: mult_le_cancel_left_pos) 
qed

lemma abs_le_scaled:
  fixes d :: "nat \<Rightarrow> real"
  assumes "(\<Sum>i<R. (d i)\<^sup>2) = real R * s\<^sup>2" and "0 < s" and "i < R"
  shows "\<bar>d i\<bar> \<le> real R * s"
proof -
  have "\<bar>d i\<bar> \<le> (\<Sum>i<R. \<bar>d i\<bar>)"
    using assms(3) by (intro member_le_sum[of i _ "\<lambda>i. \<bar>d i\<bar>"]) simp_all
  also have "\<dots> \<le> real R * s" using assms(1,2) by (rule sum_abs_le_scaled)
  finally show ?thesis .
qed

lemma sum_affine:
  fixes f g :: "nat \<Rightarrow> real"
  shows "(\<Sum>i<R. c1 * f i + c2 * g i + c3) = c1 * (\<Sum>i<R. f i) + c2 * (\<Sum>i<R. g i) + real R * c3"
  by (simp add: sum.distrib sum_distrib_left[symmetric])

lemma square_pert:
  fixes d dh D :: real
  assumes "\<bar>dh - d\<bar> \<le> D"
  shows "dh * dh \<le> 2 * d\<^sup>2 + 2 * (D * D)" and "\<bar>dh * dh - d\<^sup>2\<bar> \<le> 2 * D * \<bar>d\<bar> + D * D"
proof -
  have D0: "0 \<le> D" using assms by linarith
  have a: "\<bar>dh\<bar> \<le> \<bar>d\<bar> + D" using assms by linarith
  then have "\<bar>dh\<bar> * \<bar>dh\<bar> \<le> (\<bar>d\<bar> + D) * (\<bar>d\<bar> + D)" by (intro mult_mono) simp_all
  then have b: "dh * dh \<le> (\<bar>d\<bar> + D) * (\<bar>d\<bar> + D)" by simp
  have "0 \<le> (\<bar>d\<bar> - D)\<^sup>2" by simp
  then have "(\<bar>d\<bar> + D) * (\<bar>d\<bar> + D) \<le> 2 * d\<^sup>2 + 2 * (D * D)"
    by (simp add: power2_eq_square algebra_simps)
  with b show "dh * dh \<le> 2 * d\<^sup>2 + 2 * (D * D)" by linarith
  have "dh * dh - d\<^sup>2 = (dh - d) * (dh + d)" by (simp add: power2_eq_square algebra_simps)
  then have "\<bar>dh * dh - d\<^sup>2\<bar> = \<bar>dh - d\<bar> * \<bar>dh + d\<bar>" by (simp add: abs_mult)
  also have "\<dots> \<le> D * (2 * \<bar>d\<bar> + D)" using assms a D0 by (intro mult_mono) linarith+
  finally show "\<bar>dh * dh - d\<^sup>2\<bar> \<le> 2 * D * \<bar>d\<bar> + D * D" by (simp add: algebra_simps)
qed

lemma col_variance_err:
  fixes d dh :: "nat \<Rightarrow> real"
  assumes R: "0 < R" "R \<le> 2 ^ 12"
    and s0: "0 < s" and W: "(\<Sum>i<R. (d i)\<^sup>2) = real R * s\<^sup>2"
    and e: "\<forall>i<R. \<bar>dh i - d i\<bar> \<le> D"
    and Dlo: "(4 * real R + 7) * s / 2 ^ 24 \<le> D" and Dhi: "D \<le> s / 2 ^ 10"
    and win: "1 / 2 ^ 20 \<le> s" "s \<le> 2 ^ 50"
  shows "\<exists>v. fdiv (fsum (map (\<lambda>i. fmul (Fin (dh i)) (Fin (dh i))) [0..<R])) (int_to_float (int R))
               = Fin v \<and> \<bar>v - s\<^sup>2\<bar> \<le> 5 * (D * s)"
proof -
  define n where "n = real R"
  define V where "V = s\<^sup>2"
  define A where "A = D * s"
  define D2 where "D2 = D * D"
  define NV where "NV = n * V"
  define NA where "NA = n * A"
  define tiny :: real where "tiny = 2 powi (- 126)"
  have n1: "1 \<le> n" using R(1) by (simp add: n_def)
  have n12: "n \<le> 2 ^ 12" unfolding n_def using R(2) by (metis of_nat_le_iff of_nat_numeral of_nat_power)
  have V0: "0 < V" using s0 by (simp add: V_def)
  have D0: "0 < D"
  proof -
    have "0 < (4 * n + 7) * s / 2 ^ 24" using n1 s0 by simp
    then show ?thesis using Dlo by (simp add: n_def)
  qed
  have A0: "0 < A" using D0 s0 by (simp add: A_def)
  have t0: "0 < tiny" by (simp add: tiny_def)
  have low: "(4 * NV + 7 * V) / 2 ^ 24 \<le> A"
  proof -
    have "(4 * n + 7) * s / 2 ^ 24 * s \<le> D * s" using Dlo s0 by (intro mult_right_mono) (simp_all add: n_def)
    then show ?thesis by (simp add: A_def V_def NV_def power2_eq_square algebra_simps)
  qed
  have nV: "V \<le> NV" using n1 V0 by (simp add: NV_def)
  have V11: "11 * V / 2 ^ 24 \<le> A" using low nV by ((simp only: pow_eval)?; argo)
  have nV4: "NV / 2 ^ 22 \<le> A" using low V0 by ((simp only: pow_eval)?; argo)
  have AV: "A \<le> V / 2 ^ 10"
  proof -
    have "D * s \<le> s / 2 ^ 10 * s" using Dhi s0 by (intro mult_right_mono) simp_all
    then show ?thesis by (simp add: A_def V_def power2_eq_square)
  qed
  have NAV: "NA \<le> NV / 2 ^ 10"
  proof -
    have "n * A \<le> n * (V / 2 ^ 10)" using AV n1 by (intro mult_left_mono) simp_all
    then show ?thesis by (simp add: NA_def NV_def)
  qed
  have NA0: "0 < NA" using A0 n1 by (simp add: NA_def)
  have D2A: "D2 \<le> A / 2 ^ 10"
  proof -
    have "D * D \<le> D * (s / 2 ^ 10)" using Dhi D0 by (intro mult_left_mono) simp_all
    then show ?thesis by (simp add: A_def D2_def)
  qed
  have D20: "0 \<le> D2" by (simp add: D2_def)
  have Vlo: "1 / 2 ^ 40 \<le> V"
  proof -
    have "(1 / 2 ^ 20) * (1 / 2 ^ 20) \<le> s * s" using win(1) by (intro mult_mono) simp_all
    then show ?thesis by (simp add: V_def power2_eq_square)
  qed
  have Vhi: "V \<le> 2 ^ 100"
  proof -
    have "s * s \<le> 2 ^ 50 * 2 ^ 50" using win(2) s0 by (intro mult_mono) simp_all
    then show ?thesis by (simp add: V_def power2_eq_square)
  qed
  have tV: "tiny \<le> V / 2 ^ 34"
  proof -
    have "tiny \<le> 1 / 2 ^ 126" unfolding tiny_def by (rule tiny_le)
    also have "\<dots> \<le> (1 / 2 ^ 40) / 2 ^ 34" by simp
    also have "\<dots> \<le> V / 2 ^ 34" using Vlo by (intro divide_right_mono) simp_all
    finally show ?thesis .
  qed
  have nVhi: "NV \<le> 2 ^ 112"
  proof -
    have "n * V \<le> 2 ^ 12 * 2 ^ 100" using n12 Vhi V0 n1 by (intro mult_mono) simp_all
    then show ?thesis by (simp add: NV_def)
  qed
  have WNV: "(\<Sum>i<R. (d i)\<^sup>2) = NV" by (simp add: W NV_def n_def V_def)
  define q where "q i = valof (fmul (Fin (dh i)) (Fin (dh i)))" for i
  define g where "g i = 2 / 2 ^ 24 * (d i)\<^sup>2 + 2 * D * \<bar>d i\<bar> + ((2 * D2 + tiny) / 2 ^ 24 + D2)" for i
  have sq: "fmul (Fin (dh i)) (Fin (dh i)) = Fin (q i) \<and> \<bar>q i - (d i)\<^sup>2\<bar> \<le> g i" if "i < R" for i
  proof -
    have ei: "\<bar>dh i - d i\<bar> \<le> D" using e that by simp
    note p = square_pert[OF ei]
    have "\<bar>d i\<bar> \<le> n * s" unfolding n_def using W s0 that by (rule abs_le_scaled)
    also have "\<dots> \<le> 2 ^ 12 * 2 ^ 50" using n12 win(2) s0 n1 by (intro mult_mono) simp_all
    finally have di: "\<bar>d i\<bar> \<le> 2 ^ 62" by simp
    have "D \<le> 2 ^ 50 / 2 ^ 10" using Dhi win(2) by (simp add: field_simps)
    then have "\<bar>dh i\<bar> \<le> 2 ^ 63" using ei di by simp
    then have "\<bar>dh i\<bar> * \<bar>dh i\<bar> \<le> 2 ^ 63 * 2 ^ 63" by (intro mult_mono) simp_all
    then have "\<bar>dh i * dh i\<bar> \<le> 2 ^ 127" by (simp add: abs_mult)
    then obtain v where v: "round32 (dh i * dh i) = Fin v"
      "\<bar>v - dh i * dh i\<bar> \<le> (\<bar>dh i * dh i\<bar> + 2 powi (- 126)) / 2 ^ 24"
      using round32_err by blast
    have qi: "q i = v" using v(1) by (simp add: q_def)
    have "(\<bar>dh i * dh i\<bar> + 2 powi (- 126)) / 2 ^ 24 \<le> (2 * (d i)\<^sup>2 + 2 * D2 + tiny) / 2 ^ 24"
      using p(1) by (intro divide_right_mono) (simp_all add: D2_def tiny_def)
    with v(2) have "\<bar>v - dh i * dh i\<bar> \<le> (2 * (d i)\<^sup>2 + 2 * D2 + tiny) / 2 ^ 24" by linarith
    moreover have "\<bar>v - (d i)\<^sup>2\<bar> \<le> \<bar>v - dh i * dh i\<bar> + \<bar>dh i * dh i - (d i)\<^sup>2\<bar>" by simp
    moreover have "(2 * (d i)\<^sup>2 + 2 * D2 + tiny) / 2 ^ 24 + (2 * D * \<bar>d i\<bar> + D2) = g i"
      by (simp add: g_def field_simps)
    ultimately have "\<bar>v - (d i)\<^sup>2\<bar> \<le> g i" using p(2) unfolding D2_def[symmetric] by linarith
    with v(1) qi show ?thesis by simp
  qed
  have gsum: "(\<Sum>i<R. g i) \<le> 9 / 4 * NA"
  proof -
    have "(\<Sum>i<R. g i) = 2 / 2 ^ 24 * (\<Sum>i<R. (d i)\<^sup>2) + 2 * D * (\<Sum>i<R. \<bar>d i\<bar>)
        + real R * ((2 * D2 + tiny) / 2 ^ 24 + D2)"
      unfolding g_def by (rule sum_affine)
    also have "\<dots> \<le> 2 / 2 ^ 24 * (n * V) + 2 * D * (n * s) + n * ((2 * D2 + tiny) / 2 ^ 24 + D2)"
    proof -
      have "(\<Sum>i<R. \<bar>d i\<bar>) \<le> n * s" unfolding n_def using W s0 by (rule sum_abs_le_scaled)
      then have "2 * D * (\<Sum>i<R. \<bar>d i\<bar>) \<le> 2 * D * (n * s)" using D0 by (intro mult_left_mono) simp_all
      then show ?thesis by (simp add: W n_def V_def)
    qed
    also have "\<dots> = n * (2 * V / 2 ^ 24 + 2 * A + ((2 * D2 + tiny) / 2 ^ 24 + D2))"
      by (simp add: A_def algebra_simps)
    also have "\<dots> \<le> n * (9 / 4 * A)"
    proof -
      have "2 * V / 2 ^ 24 + 2 * A + ((2 * D2 + tiny) / 2 ^ 24 + D2) \<le> 9 / 4 * A"
        using V11 D2A D20 tV V0 A0 by ((simp only: pow_eval)?; argo)
      then show ?thesis using n1 by (intro mult_left_mono) simp_all
    qed
    finally show ?thesis by (simp add: NA_def)
  qed
  define T where "T = (\<Sum>i<R. q i)"
  have Terr: "\<bar>T - NV\<bar> \<le> 9 / 4 * NA"
  proof -
    have "T - NV = (\<Sum>i<R. q i - (d i)\<^sup>2)" by (simp add: T_def sum_subtractf WNV)
    then have "\<bar>T - NV\<bar> \<le> (\<Sum>i<R. \<bar>q i - (d i)\<^sup>2\<bar>)" by (simp only: sum_abs)
    also have "\<dots> \<le> (\<Sum>i<R. g i)" using sq by (intro sum_mono) simp
    finally show ?thesis using gsum by linarith
  qed
  have pre: "\<forall>k\<le>R. \<bar>\<Sum>i<k. q i\<bar> \<le> 2 * NV"
  proof (intro allI impI)
    fix k assume k: "k \<le> R"
    have "\<bar>\<Sum>i<k. q i\<bar> \<le> (\<Sum>i<k. \<bar>q i\<bar>)" by (rule sum_abs)
    also have "\<dots> \<le> (\<Sum>i<R. \<bar>q i\<bar>)" using k by (intro sum_mono2) auto
    also have "\<dots> \<le> (\<Sum>i<R. (d i)\<^sup>2 + g i)"
    proof (intro sum_mono)
      fix i assume "i \<in> {..<R}"
      then have "\<bar>q i - (d i)\<^sup>2\<bar> \<le> g i" using sq by simp
      moreover have "0 \<le> (d i)\<^sup>2" by simp
      ultimately show "\<bar>q i\<bar> \<le> (d i)\<^sup>2 + g i" by linarith
    qed
    also have "\<dots> = NV + (\<Sum>i<R. g i)" by (simp add: sum.distrib WNV)
    finally show "\<bar>\<Sum>i<k. q i\<bar> \<le> 2 * NV" using gsum NAV nV V0 by ((simp only: pow_eval)?; argo)
  qed
  have "R \<le> 2 ^ 20" using R(2) by simp
  moreover have "tiny \<le> 2 * NV" using tV nV V0 by ((simp only: pow_eval)?; argo)
  then have "2 powi (- 126) \<le> 2 * NV" by (simp only: tiny_def)
  moreover have "2 * NV \<le> 2 ^ 125" using nVhi by simp
  ultimately obtain Q where Q: "fsum (map (\<lambda>i. Fin (q i)) [0..<R]) = Fin Q"
    "\<bar>Q - T\<bar> \<le> n * (2 * NV) / 2 ^ 22"
    using fsum_err[OF _ pre] unfolding T_def n_def by blast
  have "map (\<lambda>i. fmul (Fin (dh i)) (Fin (dh i))) [0..<R] = map (\<lambda>i. Fin (q i)) [0..<R]"
    by (rule map_cong) (simp_all add: sq del: fmul.simps)
  then have run1: "fsum (map (\<lambda>i. fmul (Fin (dh i)) (Fin (dh i))) [0..<R]) = Fin Q"
    by (simp only: Q(1))
  have Qerr: "\<bar>Q - NV\<bar> \<le> 17 / 4 * NA"
  proof -
    have "NV / 2 ^ 21 \<le> 2 * A" using nV4 by ((simp only: pow_eval)?; argo)
    then have "n * (NV / 2 ^ 21) \<le> n * (2 * A)" using n1 by (intro mult_left_mono) simp_all
    moreover have "n * (2 * NV) / 2 ^ 22 = n * (NV / 2 ^ 21)" by simp
    moreover have "n * (2 * A) = 2 * NA" by (simp add: NA_def)
    ultimately have "\<bar>Q - T\<bar> \<le> 2 * NA" using Q(2) by linarith
    moreover have "\<bar>Q - NV\<bar> \<le> \<bar>Q - T\<bar> + \<bar>T - NV\<bar>" by simp
    ultimately show ?thesis using Terr by linarith
  qed
  have Qn: "\<bar>Q / n - V\<bar> \<le> 17 / 4 * A"
  proof -
    have "Q / n - V = (Q - NV) / n" using n1 by (simp add: NV_def field_simps)
    then have "\<bar>Q / n - V\<bar> = \<bar>Q - NV\<bar> / n" using n1 by simp
    also have "\<dots> \<le> (17 / 4 * NA) / n" using Qerr n1 by (intro divide_right_mono) simp_all
    also have "\<dots> = 17 / 4 * A" using n1 by (simp add: NA_def)
    finally show ?thesis .
  qed
  have mag: "\<bar>Q / n\<bar> \<le> 2 * V" using Qn AV V0 by ((simp only: pow_eval)?; argo)
  have "2 * V \<le> 2 ^ 127" using Vhi by simp
  with mag have "\<bar>Q / n\<bar> \<le> 2 ^ 127" by linarith
  then obtain v where v: "round32 (Q / n) = Fin v"
    "\<bar>v - Q / n\<bar> \<le> (\<bar>Q / n\<bar> + 2 powi (- 126)) / 2 ^ 24"
    using round32_err by blast
  have "(\<bar>Q / n\<bar> + 2 powi (- 126)) / 2 ^ 24 \<le> (2 * V + tiny) / 2 ^ 24"
    using mag by (intro divide_right_mono) (simp_all add: tiny_def)
  also have "\<dots> \<le> 3 / 4 * A" using V11 tV V0 by ((simp only: pow_eval)?; argo)
  finally have ve: "\<bar>v - Q / n\<bar> \<le> 3 / 4 * A" using v(2) by linarith
  have f: "int_to_float (int R) = Fin n" unfolding n_def using R(2) by (intro int_to_float_exact) simp
  have "n \<noteq> 0" using n1 by simp
  then have "fdiv (Fin Q) (Fin n) = Fin v" using v(1) by simp
  then have run: "fdiv (fsum (map (\<lambda>i. fmul (Fin (dh i)) (Fin (dh i))) [0..<R])) (int_to_float (int R))
      = Fin v" by (simp only: run1 f)
  have "\<bar>v - V\<bar> \<le> \<bar>v - Q / n\<bar> + \<bar>Q / n - V\<bar>" by simp
  then have "\<bar>v - V\<bar> \<le> 5 * A" using ve Qn by linarith
  with run show ?thesis unfolding V_def A_def by blast
qed

lemma sqrt_pert:
  assumes "0 \<le> w" and "0 < s"
  shows "\<bar>sqrt w - s\<bar> \<le> \<bar>w - s\<^sup>2\<bar> / s"
proof -
  have "(sqrt w - s) * (sqrt w + s) = w - s\<^sup>2"
    using assms(1) by (simp add: power2_eq_square algebra_simps)
  then have "\<bar>sqrt w - s\<bar> * \<bar>sqrt w + s\<bar> = \<bar>w - s\<^sup>2\<bar>" by (simp add: abs_mult[symmetric])
  moreover have "s \<le> \<bar>sqrt w + s\<bar>" using assms by simp
  then have "\<bar>sqrt w - s\<bar> * s \<le> \<bar>sqrt w - s\<bar> * \<bar>sqrt w + s\<bar>" by (intro mult_left_mono) simp_all
  ultimately have "\<bar>sqrt w - s\<bar> * s \<le> \<bar>w - s\<^sup>2\<bar>" by simp
  then show ?thesis using assms(2) by (simp add: field_simps)
qed

lemma col_std_err:
  assumes s0: "0 < s" and win: "1 / 2 ^ 8 \<le> s" "s \<le> 2 ^ 50"
    and Dlo: "11 * s / 2 ^ 24 \<le> D" and Dhi: "D \<le> s / 2 ^ 10"
    and v: "\<bar>v - s\<^sup>2\<bar> \<le> 5 * (D * s)"
  shows "\<exists>sd. sqrtf (fadd (Fin v) lit_1e_8f) = Fin sd \<and> \<bar>sd - s\<bar> \<le> 7 * D + (1 / 2 ^ 25) / s"
proof -
  define V where "V = s\<^sup>2"
  define A where "A = D * s"
  define eps :: real where "eps = 11258999 / 2 ^ 50"
  define Es where "Es = (1 / 2 ^ 25) / s"
  define tiny :: real where "tiny = 2 powi (- 126)"
  have lit: "lit_1e_8f = Fin eps" by (simp only: lit_1e_8f_value eps_def)
  have eps0: "0 < eps" and eps26: "eps \<le> 1 / 2 ^ 26" by (simp_all add: eps_def)
  have V0: "0 < V" using s0 by (simp add: V_def)
  have "0 < 11 * s / 2 ^ 24" using s0 by simp
  then have D0: "0 < D" using Dlo by linarith
  have Vlo: "1 / 2 ^ 16 \<le> V"
  proof -
    have "(1 / 2 ^ 8) * (1 / 2 ^ 8) \<le> s * s" using win(1) by (intro mult_mono) simp_all
    then show ?thesis by (simp add: V_def power2_eq_square)
  qed
  have Vhi: "V \<le> 2 ^ 100"
  proof -
    have "s * s \<le> 2 ^ 50 * 2 ^ 50" using win(2) s0 by (intro mult_mono) simp_all
    then show ?thesis by (simp add: V_def power2_eq_square)
  qed
  have V11: "11 * V / 2 ^ 24 \<le> A"
  proof -
    have "11 * s / 2 ^ 24 * s \<le> D * s" using Dlo s0 by (intro mult_right_mono) simp_all
    then show ?thesis by (simp add: A_def V_def power2_eq_square algebra_simps)
  qed
  have AV: "A \<le> V / 2 ^ 10"
  proof -
    have "D * s \<le> s / 2 ^ 10 * s" using Dhi s0 by (intro mult_right_mono) simp_all
    then show ?thesis by (simp add: A_def V_def power2_eq_square)
  qed
  have t0: "0 < tiny" by (simp add: tiny_def)
  have t1: "tiny \<le> 1 / 2 ^ 126" unfolding tiny_def by (rule tiny_le)
  have Ess: "Es * s = 1 / 2 ^ 25" using s0 by (simp add: Es_def)
  have Es0: "0 < Es" using s0 by (simp add: Es_def)
  have EsS: "Es \<le> s / 2 ^ 9"
  proof -
    have "Es \<le> (1 / 2 ^ 25) / (1 / 2 ^ 8)"
      unfolding Es_def using win(1) by (intro divide_left_mono) simp_all
    also have "\<dots> = (1 / 2 ^ 8) / 2 ^ 9" by simp
    also have "\<dots> \<le> s / 2 ^ 9" using win(1) by (intro divide_right_mono) simp_all
    finally show ?thesis .
  qed
  have v': "\<bar>v - V\<bar> \<le> 5 * A" using v by (simp add: V_def A_def)
  have mag: "\<bar>v + eps\<bar> \<le> 2 * V + eps" using v' AV V0 eps0 by ((simp only: pow_eval)?; argo)
  have "2 * V + eps \<le> 2 ^ 127" using Vhi eps26 by ((simp only: pow_eval)?; argo)
  with mag have "\<bar>v + eps\<bar> \<le> 2 ^ 127" by linarith
  then obtain w where w: "round32 (v + eps) = Fin w"
    "\<bar>w - (v + eps)\<bar> \<le> (\<bar>v + eps\<bar> + 2 powi (- 126)) / 2 ^ 24"
    using round32_err by blast
  have "(\<bar>v + eps\<bar> + 2 powi (- 126)) / 2 ^ 24 \<le> (2 * V + eps + tiny) / 2 ^ 24"
    using mag by (intro divide_right_mono) (simp_all add: tiny_def)
  also have "\<dots> \<le> A + 1 / 2 ^ 26" using V11 eps26 eps0 t1 V0 by ((simp only: pow_eval)?; argo)
  finally have we: "\<bar>w - (v + eps)\<bar> \<le> A + 1 / 2 ^ 26" using w(2) by linarith
  have wV: "\<bar>w - V\<bar> \<le> 6 * A + 1 / 2 ^ 25"
    using we v' eps26 eps0 by ((simp only: pow_eval)?; argo)
  have w0: "0 < w" using wV AV Vlo V0 by ((simp only: pow_eval)?; argo)
  have run1: "fadd (Fin v) lit_1e_8f = Fin w" using w(1) by (simp add: lit)
  have "\<bar>sqrt w - s\<bar> \<le> \<bar>w - s\<^sup>2\<bar> / s" using w0 s0 by (intro sqrt_pert) simp_all
  also have "\<dots> \<le> (6 * A + 1 / 2 ^ 25) / s"
    using wV s0 by (intro divide_right_mono) (simp_all add: V_def)
  also have "\<dots> = 6 * D + Es" using s0 by (simp add: A_def Es_def field_simps)
  finally have rt: "\<bar>sqrt w - s\<bar> \<le> 6 * D + Es" .
  have mag2: "\<bar>sqrt w\<bar> \<le> 2 * s" using rt Dhi EsS s0 by ((simp only: pow_eval)?; argo)
  have "2 * s \<le> 2 ^ 127" using win(2) by ((simp only: pow_eval)?; argo)
  with mag2 have "\<bar>sqrt w\<bar> \<le> 2 ^ 127" by linarith
  then obtain sd where sd: "round32 (sqrt w) = Fin sd"
    "\<bar>sd - sqrt w\<bar> \<le> (\<bar>sqrt w\<bar> + 2 powi (- 126)) / 2 ^ 24"
    using round32_err by blast
  have "(\<bar>sqrt w\<bar> + 2 powi (- 126)) / 2 ^ 24 \<le> (2 * s + tiny) / 2 ^ 24"
    using mag2 by (intro divide_right_mono) (simp_all add: tiny_def)
  also have "\<dots> \<le> D" using Dlo t1 win(1) s0 by ((simp only: pow_eval)?; argo)
  finally have sde: "\<bar>sd - sqrt w\<bar> \<le> D" using sd(2) by linarith
  have run: "sqrtf (fadd (Fin v) lit_1e_8f) = Fin sd" using sd(1) w0 by (simp add: run1)
  have "\<bar>sd - s\<bar> \<le> 7 * D + Es" using sde rt by linarith
  with run show ?thesis unfolding Es_def by blast
qed

lemma standardized_err:
  assumes s0: "0 < s" and win: "1 / 2 ^ 8 \<le> s"
    and Dlo: "11 * s / 2 ^ 24 \<le> D" and Dhi: "D \<le> s / 2 ^ 10"
    and dh: "\<bar>dh - d\<bar> \<le> D" and sd: "\<bar>sd - s\<bar> \<le> 7 * D + (1 / 2 ^ 25) / s"
    and dn: "\<bar>d\<bar> \<le> 2 ^ 12 * s"
  shows "\<exists>y. fdiv (Fin dh) (Fin sd) = Fin y
             \<and> \<bar>y - d / s\<bar> \<le> 3 * (D / s) + (15 * (D / s) + (1 / 2 ^ 24) / s\<^sup>2) * \<bar>d / s\<bar>"
proof -
  define rho where "rho = D / s"
  define phi where "phi = (1 / 2 ^ 25) / s\<^sup>2"
  define psi where "psi = 7 * rho + phi"
  define z where "z = d / s"
  define tiny :: real where "tiny = 2 powi (- 126)"
  have t1: "tiny \<le> 1 / 2 ^ 126" unfolding tiny_def by (rule tiny_le)
  have rho_lo: "11 / 2 ^ 24 \<le> rho"
  proof -
    have "(11 * s / 2 ^ 24) / s \<le> D / s" using Dlo s0 by (intro divide_right_mono) simp_all
    then show ?thesis using s0 by (simp add: rho_def)
  qed
  have rho_hi: "rho \<le> 1 / 2 ^ 10"
  proof -
    have "D / s \<le> (s / 2 ^ 10) / s" using Dhi s0 by (intro divide_right_mono) simp_all
    then show ?thesis using s0 by (simp add: rho_def)
  qed
  have phi0: "0 < phi" using s0 by (simp add: phi_def)
  have phi_hi: "phi \<le> 1 / 2 ^ 9"
  proof -
    have "(1 / 2 ^ 8) * (1 / 2 ^ 8) \<le> s * s" using win by (intro mult_mono) simp_all
    then have "1 / 2 ^ 16 \<le> s\<^sup>2" by (simp add: power2_eq_square)
    then have "(1 / 2 ^ 25) / s\<^sup>2 \<le> (1 / 2 ^ 25) / (1 / 2 ^ 16)"
      using s0 by (intro divide_left_mono) simp_all
    then show ?thesis by (simp add: phi_def)
  qed
  have sdp: "\<bar>sd - s\<bar> \<le> psi * s"
  proof -
    have "7 * D + (1 / 2 ^ 25) / s = psi * s"
      using s0 by (simp add: psi_def rho_def phi_def power2_eq_square field_simps)
    with sd show ?thesis by simp
  qed
  have psi_hi: "psi \<le> 1 / 2 ^ 6" using rho_hi phi_hi unfolding psi_def by ((simp only: pow_eval)?; argo)
  have psi0: "0 \<le> psi" using rho_lo phi0 unfolding psi_def by ((simp only: pow_eval)?; argo)
  have "psi * s \<le> (1 / 2 ^ 6) * s" using psi_hi s0 by (intro mult_right_mono) simp_all
  with sdp have sd_lo: "s / 2 \<le> sd" by ((simp only: pow_eval)?; argo)
  then have sd0: "0 < sd" using s0 by linarith
  have eq: "dh / sd - z = ((dh - d) * s + d * (s - sd)) / (sd * s)"
    using sd0 s0 by (simp add: z_def field_simps)
  have num: "\<bar>(dh - d) * s + d * (s - sd)\<bar> \<le> D * s + \<bar>d\<bar> * (psi * s)"
  proof -
    have "\<bar>(dh - d) * s\<bar> \<le> D * s" using dh s0 by (simp add: abs_mult)
    moreover have "\<bar>d * (s - sd)\<bar> \<le> \<bar>d\<bar> * (psi * s)"
    proof -
      have "\<bar>s - sd\<bar> \<le> psi * s" using sdp by simp
      then have "\<bar>d\<bar> * \<bar>s - sd\<bar> \<le> \<bar>d\<bar> * (psi * s)" by (intro mult_left_mono) simp_all
      then show ?thesis by (simp add: abs_mult)
    qed
    ultimately show ?thesis by linarith
  qed
  have num0: "0 \<le> D * s + \<bar>d\<bar> * (psi * s)" using num by linarith
  have den: "s * s / 2 \<le> sd * s"
  proof -
    have "s / 2 * s \<le> sd * s" using sd_lo s0 by (intro mult_right_mono) simp_all
    then show ?thesis by simp
  qed
  have den0: "0 < s * s / 2" using s0 by simp
  have "\<bar>dh / sd - z\<bar> = \<bar>(dh - d) * s + d * (s - sd)\<bar> / (sd * s)"
    using sd0 s0 by (simp add: eq)
  also have "\<dots> \<le> (D * s + \<bar>d\<bar> * (psi * s)) / (sd * s)"
    using num sd0 s0 by (intro divide_right_mono) simp_all
  also have "\<dots> \<le> (D * s + \<bar>d\<bar> * (psi * s)) / (s * s / 2)"
    using den den0 num0 by (intro divide_left_mono) simp_all
  also have "\<dots> = 2 * rho + 2 * psi * \<bar>z\<bar>"
    using s0 by (simp add: rho_def z_def field_simps)
  finally have qe: "\<bar>dh / sd - z\<bar> \<le> 2 * rho + 2 * psi * \<bar>z\<bar>" .
  have zn: "\<bar>z\<bar> \<le> 2 ^ 12"
  proof -
    have "\<bar>d\<bar> / s \<le> 2 ^ 12 * s / s" using dn s0 by (intro divide_right_mono) simp_all
    then show ?thesis using s0 by (simp add: z_def)
  qed
  have pz: "2 * psi * \<bar>z\<bar> \<le> \<bar>z\<bar>"
  proof -
    have "2 * psi * \<bar>z\<bar> \<le> 1 * \<bar>z\<bar>" using psi_hi by (intro mult_right_mono) simp_all
    then show ?thesis by simp
  qed
  have mag: "\<bar>dh / sd\<bar> \<le> 2 * \<bar>z\<bar> + 1" using qe pz rho_hi by ((simp only: pow_eval)?; argo)
  then have "\<bar>dh / sd\<bar> \<le> 2 ^ 127" using zn by ((simp only: pow_eval)?; argo)
  then obtain y where y: "round32 (dh / sd) = Fin y"
    "\<bar>y - dh / sd\<bar> \<le> (\<bar>dh / sd\<bar> + 2 powi (- 126)) / 2 ^ 24"
    using round32_err by blast
  have "(\<bar>dh / sd\<bar> + 2 powi (- 126)) / 2 ^ 24 \<le> (2 * \<bar>z\<bar> + 1 + tiny) / 2 ^ 24"
    using mag by (intro divide_right_mono) (simp_all add: tiny_def)
  also have "\<dots> \<le> rho + rho * \<bar>z\<bar>"
  proof -
    have "2 / 2 ^ 24 * \<bar>z\<bar> \<le> rho * \<bar>z\<bar>" using rho_lo by (intro mult_right_mono) simp_all
    moreover have "(1 + tiny) / 2 ^ 24 \<le> rho" using rho_lo t1 by ((simp only: pow_eval)?; argo)
    moreover have "(2 * \<bar>z\<bar> + 1 + tiny) / 2 ^ 24 = 2 / 2 ^ 24 * \<bar>z\<bar> + (1 + tiny) / 2 ^ 24"
      by (simp add: field_simps)
    ultimately show ?thesis by linarith
  qed
  finally have ye: "\<bar>y - dh / sd\<bar> \<le> rho + rho * \<bar>z\<bar>" using y(2) by linarith
  have "sd \<noteq> 0" using sd0 by simp
  then have run: "fdiv (Fin dh) (Fin sd) = Fin y" using y(1) by simp
  have "\<bar>y - z\<bar> \<le> \<bar>y - dh / sd\<bar> + \<bar>dh / sd - z\<bar>" by simp
  then have "\<bar>y - z\<bar> \<le> 3 * rho + (rho * \<bar>z\<bar> + 2 * psi * \<bar>z\<bar>)" using ye qe by linarith
  moreover have "rho * \<bar>z\<bar> + 2 * psi * \<bar>z\<bar> = (15 * rho + 2 * phi) * \<bar>z\<bar>"
    by (simp add: psi_def algebra_simps)
  moreover have "2 * phi = (1 / 2 ^ 24) / s\<^sup>2" by (simp add: phi_def)
  ultimately have "\<bar>y - z\<bar> \<le> 3 * rho + (15 * rho + (1 / 2 ^ 24) / s\<^sup>2) * \<bar>z\<bar>" by simp
  with run show ?thesis unfolding rho_def z_def by blast
qed

lemma sum_list_upt: "sum_list (map f [0..<n]) = (\<Sum>i<n. f i)"
  by (simp add: interv_sum_list_conv_sum_set_nat lessThan_atLeast0)

lemma pop_mean_upt: "pop_mean (map f [0..<n]) = (\<Sum>i<n. f i) / real n"
  by (simp add: pop_mean_def sum_list_upt)

lemma pop_variance_upt:
  "pop_variance (map f [0..<n]) = (\<Sum>i<n. (f i - (\<Sum>i<n. f i) / real n)\<^sup>2) / real n"
proof -
  have "map (\<lambda>x. (x - pop_mean (map f [0..<n]))\<^sup>2) (map f [0..<n])
        = map (\<lambda>i. (f i - (\<Sum>i<n. f i) / real n)\<^sup>2) [0..<n]"
    by (simp add: pop_mean_upt)
  then show ?thesis by (simp only: pop_variance_def sum_list_upt length_map length_upt diff_zero)
qed

lemma standardize_stats:
  assumes sc: "spread_column D R C j kappa"
  shows "(\<forall>i<R. is_finite (standardized D R C i j))
         \<and> \<bar>pop_mean (map (\<lambda>i. valof (standardized D R C i j)) [0..<R])\<bar> \<le> tolerance R kappa (pop_variance (column D R C j))
         \<and> \<bar>pop_variance (map (\<lambda>i. valof (standardized D R C i j)) [0..<R]) - 1\<bar>
             \<le> tolerance R kappa (pop_variance (column D R C j))"
proof -
  define x where "x i = valof (D ! (i * C + j))" for i
  define n where "n = real R"
  define mu where "mu = (\<Sum>i<R. x i) / n"
  define V where "V = (\<Sum>i<R. (x i - mu)\<^sup>2) / n"
  define s where "s = sqrt V"
  define d where "d i = x i - mu" for i
  define B where "B = kappa * s"
  define Dl where "Dl = (4 * n + 7) * B / 2 ^ 24"
  have inc: "column D R C j = map x [0..<R]" by (simp add: column_def x_def)
  have VV: "pop_variance (column D R C j) = V"
    by (simp only: inc pop_variance_upt V_def mu_def n_def)
  have R0: "0 < R" and k1: "1 \<le> kappa" and bud: "(4 * n + 7) * kappa \<le> 2 ^ 14"
    and fin: "\<forall>i<R. is_finite (D ! (i * C + j))"
    and Vlo: "1 / 2 ^ 16 \<le> V" and Vhi: "V \<le> 2 ^ 100"
    and xk: "\<forall>i<R. (x i)\<^sup>2 \<le> kappa\<^sup>2 * V"
    using sc unfolding spread_column_def VV by (simp_all add: n_def x_def)
  have n1: "1 \<le> n" using R0 by (simp add: n_def)
  have "(0::real) < 1 / 2 ^ 16" by simp
  then have V0: "0 < V" using Vlo by linarith
  have s0: "0 < s" using V0 by (simp add: s_def)
  have sV: "s\<^sup>2 = V" using V0 by (simp add: s_def)
  have slo: "1 / 2 ^ 8 \<le> s" unfolding s_def
    by (rule real_le_rsqrt) (use Vlo in \<open>simp add: power2_eq_square\<close>)
  have shi: "s \<le> 2 ^ 50" unfolding s_def
    by (rule real_le_lsqrt) (use Vhi V0 in \<open>simp_all add: power2_eq_square\<close>)
  have n12: "n \<le> 2 ^ 12"
  proof -
    have "(4 * n + 7) * 1 \<le> (4 * n + 7) * kappa" using k1 n1 by (intro mult_left_mono) simp_all
    with bud show ?thesis by simp
  qed
  have R12: "R \<le> 2 ^ 12"
  proof -
    have "real R \<le> real (2 ^ 12)" using n12 by (simp add: n_def)
    then show ?thesis by (simp only: of_nat_le_iff)
  qed
  have k14: "kappa \<le> 2 ^ 14"
  proof -
    have "1 * kappa \<le> (4 * n + 7) * kappa" using k1 n1 by (intro mult_right_mono) simp_all
    with bud show ?thesis by simp
  qed
  have B0: "0 < B" using k1 s0 by (simp add: B_def)
  have sB: "s \<le> B" using k1 s0 by (simp add: B_def)
  have Bhi: "B \<le> 2 ^ 100"
  proof -
    have "kappa * s \<le> 2 ^ 14 * 2 ^ 50" using k14 shi k1 s0 by (intro mult_mono) simp_all
    then show ?thesis by (simp add: B_def)
  qed
  have Blo: "2 powi (- 126) \<le> B"
  proof -
    have "(2::real) powi (- 126) \<le> 1 / 2 ^ 126" by (rule tiny_le)
    also have "\<dots> \<le> 1 / 2 ^ 8" by simp
    finally show ?thesis using slo sB by linarith
  qed
  have xB: "\<forall>i<R. \<bar>x i\<bar> \<le> B"
  proof (intro allI impI)
    fix i assume "i < R"
    then have "(x i)\<^sup>2 \<le> kappa\<^sup>2 * V" using xk by simp
    also have "\<dots> = B\<^sup>2" by (simp add: B_def sV[symmetric] power_mult_distrib)
    finally have "\<bar>x i\<bar> \<le> \<bar>B\<bar>" by (simp only: abs_le_square_iff)
    then show "\<bar>x i\<bar> \<le> B" using B0 by simp
  qed
  have Df: "D ! (i * C + j) = Fin (x i)" if "i < R" for i
  proof -
    from fin that have "is_finite (D ! (i * C + j))" by simp
    then show ?thesis by (cases "D ! (i * C + j)") (simp_all add: x_def)
  qed
  have "map (\<lambda>i. D ! (i * C + j)) [0..<R] = map (\<lambda>i. Fin (x i)) [0..<R]"
    by (rule map_cong) (simp_all add: Df)
  then have cm: "col_mean D R C j = fdiv (fsum (map (\<lambda>i. Fin (x i)) [0..<R])) (int_to_float (int R))"
    by (simp only: col_mean_def)
  obtain m where m: "col_mean D R C j = Fin m" "\<bar>m - mu\<bar> \<le> (4 * n + 3) * B / 2 ^ 24"
    using col_mean_err[OF R0 R12 xB Blo Bhi] unfolding cm mu_def n_def by blast
  have muB: "\<bar>mu\<bar> \<le> B"
  proof -
    have "\<bar>\<Sum>i<R. x i\<bar> \<le> n * B" unfolding n_def using xB B0 by (intro abs_sum_le_count) simp_all
    then have "\<bar>\<Sum>i<R. x i\<bar> / n \<le> n * B / n" using n1 by (intro divide_right_mono) simp_all
    then show ?thesis using n1 by (simp add: mu_def)
  qed
  define dh where "dh i = valof (fsub (Fin (x i)) (Fin m))" for i
  have dv: "fsub (D ! (i * C + j)) (col_mean D R C j) = Fin (dh i) \<and> \<bar>dh i - d i\<bar> \<le> Dl"
    if "i < R" for i
  proof -
    have "\<bar>x i\<bar> \<le> B" using xB that by simp
    from deviation_err[OF this muB m(2) n1 n12 Blo Bhi]
    obtain dd where "fsub (Fin (x i)) (Fin m) = Fin dd" "\<bar>dd - (x i - mu)\<bar> \<le> (4 * n + 7) * B / 2 ^ 24"
      by blast
    then show ?thesis by (simp add: dh_def d_def Dl_def Df[OF that] m(1) del: fadd.simps)
  qed
  have Dlo: "(4 * real R + 7) * s / 2 ^ 24 \<le> Dl"
  proof -
    have "(4 * n + 7) * s \<le> (4 * n + 7) * B" using sB n1 by (intro mult_left_mono) simp_all
    then show ?thesis unfolding Dl_def n_def by (intro divide_right_mono) simp_all
  qed
  have Dl_eq: "Dl = ((4 * n + 7) * kappa) * s / 2 ^ 24" by (simp add: Dl_def B_def)
  have Dhi: "Dl \<le> s / 2 ^ 10"
  proof -
    have "((4 * n + 7) * kappa) * s \<le> 2 ^ 14 * s" using bud s0 by (intro mult_right_mono) simp_all
    then have "Dl \<le> 2 ^ 14 * s / 2 ^ 24" unfolding Dl_eq by (intro divide_right_mono) simp_all
    then show ?thesis by simp
  qed
  have D11: "11 * s / 2 ^ 24 \<le> Dl"
  proof -
    have "11 * s \<le> (4 * n + 7) * s" using n1 s0 by (intro mult_right_mono) simp_all
    then have "11 * s / 2 ^ 24 \<le> (4 * n + 7) * s / 2 ^ 24" by (intro divide_right_mono) simp_all
    with Dlo show ?thesis by (simp add: n_def)
  qed
  have W: "(\<Sum>i<R. (d i)\<^sup>2) = real R * s\<^sup>2"
    using n1 by (simp add: sV V_def d_def n_def)
  have e: "\<forall>i<R. \<bar>dh i - d i\<bar> \<le> Dl" using dv by simp
  have "map (\<lambda>i. fmul (fsub (D ! (i * C + j)) (col_mean D R C j))
                      (fsub (D ! (i * C + j)) (col_mean D R C j))) [0..<R]
        = map (\<lambda>i. fmul (Fin (dh i)) (Fin (dh i))) [0..<R]"
    by (rule map_cong) (simp_all add: dv del: fmul.simps)
  then have cv: "col_variance D R C j
      = fdiv (fsum (map (\<lambda>i. fmul (Fin (dh i)) (Fin (dh i))) [0..<R])) (int_to_float (int R))"
    by (simp only: col_variance_def)
  have slo20: "1 / 2 ^ 20 \<le> s" using slo by simp
  obtain v where v: "col_variance D R C j = Fin v" "\<bar>v - s\<^sup>2\<bar> \<le> 5 * (Dl * s)"
    using col_variance_err[OF R0 R12 s0 W e Dlo Dhi slo20 shi] unfolding cv by blast
  obtain sd where sd: "sqrtf (fadd (col_variance D R C j) lit_1e_8f) = Fin sd"
    "\<bar>sd - s\<bar> \<le> 7 * Dl + (1 / 2 ^ 25) / s"
    using col_std_err[OF s0 slo shi D11 Dhi v(2)] unfolding v(1) by blast
  define rho where "rho = Dl / s"
  define b where "b = 15 * rho + (1 / 2 ^ 24) / V"
  define y where "y i = valof (standardized D R C i j)" for i
  define z where "z i = d i / s" for i
  have out: "standardized D R C i j = Fin (y i) \<and> \<bar>y i - z i\<bar> \<le> 3 * rho + b * \<bar>z i\<bar>"
    if "i < R" for i
  proof -
    have "\<bar>d i\<bar> \<le> real R * s" using W s0 that by (rule abs_le_scaled)
    also have "\<dots> \<le> 2 ^ 12 * s" using n12 s0 by (intro mult_right_mono) (simp_all add: n_def)
    finally have dn: "\<bar>d i\<bar> \<le> 2 ^ 12 * s" .
    have "\<bar>dh i - d i\<bar> \<le> Dl" using e that by simp
    from standardized_err[OF s0 slo D11 Dhi this sd(2) dn]
    obtain yy where yy: "fdiv (Fin (dh i)) (Fin sd) = Fin yy"
      "\<bar>yy - d i / s\<bar> \<le> 3 * (Dl / s) + (15 * (Dl / s) + (1 / 2 ^ 24) / s\<^sup>2) * \<bar>d i / s\<bar>"
      by blast
    have "standardized D R C i j = fdiv (Fin (dh i)) (Fin sd)"
      using dv[OF that] by (simp only: standardized_def sd(1))
    with yy show ?thesis by (simp add: y_def z_def rho_def b_def sV)
  qed
  have rho_eq: "rho = (4 * n + 7) * kappa / 2 ^ 24" using s0 by (simp add: rho_def Dl_eq)
  have rho0: "0 \<le> rho" using n1 k1 unfolding rho_eq by simp
  have rho_hi: "rho \<le> 1 / 2 ^ 10"
  proof -
    have "rho \<le> 2 ^ 14 / 2 ^ 24" unfolding rho_eq using bud by (intro divide_right_mono) simp_all
    then show ?thesis by simp
  qed
  define phi where "phi = (1 / 2 ^ 24) / V"
  have phi0: "0 \<le> phi" using V0 by (simp add: phi_def)
  have phi_hi: "phi \<le> 1 / 2 ^ 8"
  proof -
    have "(1 / 2 ^ 24) / V \<le> (1 / 2 ^ 24) / (1 / 2 ^ 16)" using Vlo V0 by (intro divide_left_mono) simp_all
    then show ?thesis by (simp add: phi_def)
  qed
  have b_eq: "b = 15 * rho + phi" by (simp add: b_def phi_def)
  have b0: "0 \<le> b" using rho0 phi0 unfolding b_eq by simp
  have ab: "3 * rho + b \<le> 1 / 3" using rho_hi phi_hi unfolding b_eq by ((simp only: pow_eval)?; argo)
  have z0: "(\<Sum>i<R. z i) = 0"
  proof -
    have "(\<Sum>i<R. d i) = (\<Sum>i<R. x i) - n * mu" by (simp add: d_def sum_subtractf n_def)
    also have "\<dots> = 0" using n1 by (simp add: mu_def)
    finally have "(\<Sum>i<R. d i) / s = 0" by simp
    then show ?thesis by (simp add: z_def sum_divide_distrib)
  qed
  have z1: "(\<Sum>i<R. (z i)\<^sup>2) = real R"
  proof -
    have "(\<Sum>i<R. (z i)\<^sup>2) = (\<Sum>i<R. (d i)\<^sup>2) / s\<^sup>2"
      by (simp add: z_def power_divide sum_divide_distrib)
    then show ?thesis using s0 by (simp add: W)
  qed
  have pe: "\<forall>i<R. \<bar>y i - z i\<bar> \<le> 3 * rho + b * \<bar>z i\<bar>" using out by simp
  have r3: "0 \<le> 3 * rho" using rho0 by simp
  note st = stats_perturbed[OF R0 z0 z1 pe r3 b0 ab]
  have tol: "3 * (3 * rho + b) \<le> tolerance R kappa V"
  proof -
    have "3 * (3 * rho + b) = 54 * rho + 3 * phi" by (simp add: b_eq)
    moreover have "54 * rho \<le> (4 * n + 7) * kappa / 2 ^ 18"
    proof -
      have "0 \<le> (4 * n + 7) * kappa" using n1 k1 by simp
      then have "54 * ((4 * n + 7) * kappa) / 2 ^ 24 \<le> 64 * ((4 * n + 7) * kappa) / 2 ^ 24"
        by (intro divide_right_mono mult_right_mono) simp_all
      then show ?thesis by (simp add: rho_eq)
    qed
    moreover have "3 * phi \<le> 1 / (2 ^ 22 * V)"
    proof -
      have "3 / (2 ^ 24 * V) \<le> 4 / (2 ^ 24 * V)" using V0 by (intro divide_right_mono) simp_all
      then show ?thesis by (simp add: phi_def)
    qed
    ultimately show ?thesis by (simp add: tolerance_def n_def)
  qed
  have tol1: "3 * rho + b \<le> tolerance R kappa V" using tol rho0 b0 by argo
  have oc: "map (\<lambda>i. valof (standardized D R C i j)) [0..<R] = map y [0..<R]" by (simp add: y_def)
  have "\<bar>pop_mean (map (\<lambda>i. valof (standardized D R C i j)) [0..<R])\<bar> \<le> tolerance R kappa V"
    using st(1) tol1 by (simp only: oc pop_mean_upt)
  moreover have "\<bar>pop_variance (map (\<lambda>i. valof (standardized D R C i j)) [0..<R]) - 1\<bar> \<le> tolerance R kappa V"
    using st(2) tol by (simp only: oc pop_variance_upt)
  moreover have "\<forall>i<R. is_finite (standardized D R C i j)" using out by simp
  ultimately show ?thesis by (simp only: VV)
qed

lemma column_standardized:
  assumes "j < C"
  shows "column (standardized_matrix D R C) R C j = map (\<lambda>i. valof (standardized D R C i j)) [0..<R]"
  unfolding column_def
proof (rule map_cong)
  fix i assume "i \<in> set [0..<R]"
  then have i: "i < R" by simp
  have k: "i * C + j < R * C" using i assms by (rule index_bound)
  have "(i * C + j) div C = i \<and> (i * C + j) mod C = j" using assms by (rule div_mod_index)
  then show "valof (standardized_matrix D R C ! (i * C + j)) = valof (standardized D R C i j)"
    using k by (simp add: standardized_matrix_def)
qed simp


lemma example_spread: "spread_column [Fin 1, Fin 2, Fin 3] 3 1 0 4"
proof -
  have c: "column [Fin 1, Fin 2, Fin 3] 3 1 0 = [1, 2, 3]"
    by (simp add: column_def upt_0_3)
  have v: "pop_variance [1, 2, 3] = 2 / 3"
    by (simp add: pop_variance_def pop_mean_def power2_eq_square)
  show ?thesis
    unfolding spread_column_def c v
    by (auto simp: less_Suc_eq numeral_3_eq_3)
qed

lemma example_tolerance: "tolerance 3 4 (pop_variance (column [Fin 1, Fin 2, Fin 3] 3 1 0)) \<le> 1 / 1000"
proof -
  have c: "column [Fin 1, Fin 2, Fin 3] 3 1 0 = [1, 2, 3]"
    by (simp add: column_def upt_0_3)
  have v: "pop_variance [1, 2, 3] = 2 / 3"
    by (simp add: pop_variance_def pop_mean_def power2_eq_square)
  show ?thesis unfolding c v by (simp add: tolerance_def)
qed


end
